(* ===== verification/Prelude.thy ===== *)
theory Prelude
  imports Main "HOL-Library.Sublist" "HOL-Library.List_Lexorder" "HOL-Library.Char_ord"
begin

text \<open>
  Shared ground of the development: the faults a C++ statement of the server can end in,
  the result type of fallible code with its sequencing operator, the characters the sources
  name in their literals, the theorem collections the component theories fill, and the
  generic list lemmas they share.
\<close>

section \<open>Faults and results\<close>

text \<open>
  A statement of the program either has a result or ends in one of the following ways:
  undefined behaviour (a null pointer is dereferenced, a container or string is accessed
  outside its bounds, an uninitialised variable is read, a signed integer overflows) or an exception that leaves the
  function (\<^verbatim>\<open>std::out_of_range\<close>, \<^verbatim>\<open>std::invalid_argument\<close>, \<^verbatim>\<open>std::runtime_error\<close> and
  \<^verbatim>\<open>boost::system::system_error\<close>).
\<close>

datatype fault =
    NullDereference
  | OutOfBounds
  | UninitialisedRead
  | SignedOverflow
  | ThrowOutOfRange
  | ThrowInvalidArgument
  | ThrowRuntimeError string
  | ThrowSystemError

type_synonym 'a result = "fault + 'a"

text \<open>Sequencing: the rest of the function runs only when the first part had a result.\<close>

definition and_then :: "'a result \<Rightarrow> ('a \<Rightarrow> 'b result) \<Rightarrow> 'b result" where
  "and_then r k = (case r of Inl e \<Rightarrow> Inl e | Inr x \<Rightarrow> k x)"

lemma and_then_simps [simp]:
  "and_then (Inl e) k = Inl e"
  "and_then (Inr x) k = k x"
  by (simp_all add: and_then_def)

lemma and_then_eq_Inr:
  "and_then r k = Inr y \<longleftrightarrow> (\<exists>x. r = Inr x \<and> k x = Inr y)"
  by (cases r) auto

lemma and_then_eq_Inl:
  "and_then r k = Inl e \<longleftrightarrow> r = Inl e \<or> (\<exists>x. r = Inr x \<and> k x = Inl e)"
  by (cases r) auto

section \<open>Characters of the sources\<close>

abbreviation c_space :: char where "c_space \<equiv> CHR '' ''"
abbreviation c_tab :: char where "c_tab \<equiv> CHR 0x09"
abbreviation c_nl :: char where "c_nl \<equiv> CHR 0x0A"
abbreviation c_cr :: char where "c_cr \<equiv> CHR 0x0D"
abbreviation c_backslash :: char where "c_backslash \<equiv> CHR 0x5C"
abbreviation c_dquote :: char where "c_dquote \<equiv> CHR 0x22"
abbreviation c_squote :: char where "c_squote \<equiv> CHR 0x27"
abbreviation c_nul :: char where "c_nul \<equiv> CHR 0x00"

section \<open>Theorem collections\<close>

text \<open>
  \<open>lex_simps\<close>: the scanner's transitions; \<open>beast_simps\<close>: what the HTTP library promises.
\<close>

named_theorems lex_simps
named_theorems beast_simps

section \<open>Generic lemmas\<close>

lemma take_eq_prefix: "take (length k) s = k \<longleftrightarrow> prefix k s"
  by (metis append_eq_conv_conj append_take_drop_id prefix_def take_is_prefix)

lemma prefix_same_length: "prefix a s \<Longrightarrow> prefix b s \<Longrightarrow> length a = length b \<Longrightarrow> a = b"
  by (metis prefix_length_prefix order_refl prefix_order.antisym)

end
