(* ===== verification/Cpp_String.thy ===== *)
theory Cpp_String
  imports Prelude
begin

text \<open>
  The members of \<^verbatim>\<open>std::string\<close> the sources use: searching (\<^verbatim>\<open>find\<close>, \<^verbatim>\<open>find_first_of\<close>,
  \<^verbatim>\<open>find_first_not_of\<close>), \<^verbatim>\<open>substr\<close>, \<^verbatim>\<open>std::to_string\<close> and \<^verbatim>\<open>std::stoi\<close>. A position of type
  \<^verbatim>\<open>size_t\<close> that may be \<^verbatim>\<open>std::string::npos\<close> is a \<open>nat option\<close>, with \<open>None\<close> for \<^verbatim>\<open>npos\<close>. The
  loop that drops trailing slashes stands here too, because the dispatcher and the session
  repeat it word for word.
\<close>

section \<open>Searching\<close>

text \<open>The first index, counted from \<open>i\<close>, at which the needle stands in the rest of the string.\<close>

fun find_from :: "nat \<Rightarrow> string \<Rightarrow> string \<Rightarrow> nat option" where
  "find_from i needle [] = (if needle = [] then Some i else None)"
| "find_from i needle (c # cs) =
     (if take (length needle) (c # cs) = needle then Some i else find_from (Suc i) needle cs)"

definition str_find :: "string \<Rightarrow> string \<Rightarrow> nat \<Rightarrow> nat option" where
  "str_find s needle pos = (if pos \<le> length s then find_from pos needle (drop pos s) else None)"

fun first_index :: "(char \<Rightarrow> bool) \<Rightarrow> nat \<Rightarrow> string \<Rightarrow> nat option" where
  "first_index P i [] = None"
| "first_index P i (c # cs) = (if P c then Some i else first_index P (Suc i) cs)"

definition find_first_of :: "string \<Rightarrow> string \<Rightarrow> nat option \<Rightarrow> nat option" where
  "find_first_of s cs pos =
     (case pos of None \<Rightarrow> None | Some p \<Rightarrow> first_index (\<lambda>c. c \<in> set cs) p (drop p s))"

definition find_first_not_of :: "string \<Rightarrow> string \<Rightarrow> nat option \<Rightarrow> nat option" where
  "find_first_not_of s cs pos =
     (case pos of None \<Rightarrow> None | Some p \<Rightarrow> first_index (\<lambda>c. c \<notin> set cs) p (drop p s))"

text \<open>
  \<^verbatim>\<open>s.substr(pos, n)\<close>: a start past the end throws \<^verbatim>\<open>std::out_of_range\<close> (\<^verbatim>\<open>npos\<close> is past the end
  of every string), and a count that reaches past the end, \<^verbatim>\<open>npos\<close> among them, takes the rest.
\<close>

definition substr :: "string \<Rightarrow> nat option \<Rightarrow> nat option \<Rightarrow> string result" where
  "substr s pos n =
     (case pos of
        None \<Rightarrow> Inl ThrowOutOfRange
      | Some p \<Rightarrow>
          if length s < p then Inl ThrowOutOfRange
          else Inr (case n of None \<Rightarrow> drop p s | Some k \<Rightarrow> take k (drop p s)))"

text \<open>The count \<^verbatim>\<open>end - start\<close>, where the end may be \<^verbatim>\<open>npos\<close>: it then exceeds every length.\<close>

definition span_length :: "nat option \<Rightarrow> nat option \<Rightarrow> nat option" where
  "span_length e s = (case (e, s) of (Some e', Some s') \<Rightarrow> Some (e' - s') | _ \<Rightarrow> None)"

lemma find_from_Some:
  "find_from i n s = Some k \<Longrightarrow> i \<le> k \<and> k \<le> i + length s \<and> prefix n (drop (k - i) s)"
proof (induction i n s rule: find_from.induct)
  case (1 i n)
  then show ?case by (auto split: if_splits)
next
  case (2 i n c cs)
  show ?case
  proof (cases "take (length n) (c # cs) = n")
    case True
    with 2 show ?thesis by (auto simp: take_eq_prefix)
  next
    case False
    with 2 have IH: "Suc i \<le> k \<and> k \<le> Suc i + length cs \<and> prefix n (drop (k - Suc i) cs)"
      by auto
    then have "k - i = Suc (k - Suc i)" by linarith
    with IH show ?thesis by simp
  qed
qed

lemma find_from_None: "find_from i n s = None \<longleftrightarrow> \<not> sublist n s"
proof (induction i n s rule: find_from.induct)
  case (2 i n c cs)
  then show ?case by (auto simp: take_eq_prefix sublist_Cons_right)
qed auto

lemma find_from_least: "find_from i n s = Some k \<Longrightarrow> m < k - i \<Longrightarrow> \<not> prefix n (drop m s)"
proof (induction i n s arbitrary: m rule: find_from.induct)
  case (1 i n)
  then show ?case by (auto split: if_splits)
next
  case (2 i n c cs)
  then have nop: "\<not> prefix n (c # cs)" and rec: "find_from (Suc i) n cs = Some k"
    by (auto simp: take_eq_prefix split: if_splits)
  then show ?case
    using 2 by (cases m) (auto simp: take_eq_prefix)
qed

lemma str_find_None: "str_find s n 0 = None \<longleftrightarrow> \<not> sublist n s"
  by (simp add: str_find_def find_from_None)

lemma str_find_Some_bound: "str_find s n p = Some k \<Longrightarrow> p \<le> k \<and> k + length n \<le> length s"
  by (auto simp: str_find_def split: if_splits dest!: find_from_Some)
     (metis add_le_imp_le_diff add_diff_inverse_nat drop_drop length_drop nat_add_left_cancel_le
        not_less prefix_length_le le_add_diff_inverse2 le_diff_conv2 add.commute)

lemma str_find_Some_prefix: "str_find s n p = Some k \<Longrightarrow> prefix n (drop k s)"
  by (auto simp: str_find_def split: if_splits dest!: find_from_Some)

lemma first_index_Some:
  "first_index P i s = Some k \<Longrightarrow> i \<le> k \<and> k < i + length s \<and> P (s ! (k - i)) \<and> (\<forall>j < k - i. \<not> P (s ! j))"
proof (induction P i s rule: first_index.induct)
  case (2 P i c cs)
  show ?case
  proof (cases "P c")
    case True
    with 2 show ?thesis by auto
  next
    case False
    with 2 have IH: "Suc i \<le> k \<and> k < Suc i + length cs \<and> P (cs ! (k - Suc i)) \<and>
        (\<forall>j < k - Suc i. \<not> P (cs ! j))" by auto
    then have "k - i = Suc (k - Suc i)" by linarith
    with IH False show ?thesis by (auto simp: nth_Cons split: nat.splits)
  qed
qed auto

lemma first_index_None: "first_index P i s = None \<longleftrightarrow> (\<forall>c \<in> set s. \<not> P c)"
  by (induction P i s rule: first_index.induct) auto

lemma first_index_skip:
  "\<forall>c \<in> set xs. \<not> P c \<Longrightarrow> first_index P i (xs @ ys) = first_index P (i + length xs) ys"
  by (induction xs arbitrary: i) auto

lemma find_from_char: "find_from i [c] s = first_index (\<lambda>x. x = c) i s"
  by (induction i "[c]" s rule: find_from.induct) auto

lemma find_from_prefix: "needle \<noteq> [] \<Longrightarrow> find_from i needle (needle @ r) = Some i"
  by (cases "needle @ r") (auto simp: take_eq_prefix, metis prefixI)

lemma find_from_skip:
  "c \<notin> set p \<Longrightarrow> find_from i (c # n) (p @ s) = find_from (i + length p) (c # n) s"
  by (induction p arbitrary: i) auto

lemma substr_Inr: "substr s p n = Inr t \<Longrightarrow> sublist t s"
  by (auto simp: substr_def split: option.splits if_splits
      intro: sublist_order.order.trans [OF sublist_take sublist_drop])

section \<open>Trailing slashes\<close>

text \<open>
  \<^verbatim>\<open>while (path.length() > 1 && path.back() == '/') path.pop_back();\<close>
\<close>

function pop_slashes :: "string \<Rightarrow> string" where
  "pop_slashes path =
     (if length path > 1 \<and> last path = CHR ''/'' then pop_slashes (butlast path) else path)"
  by pat_completeness auto
termination
  by (relation "measure length") auto

declare pop_slashes.simps [simp del]

lemma pop_slashes_prefix: "prefix (pop_slashes p) p"
proof (induction p rule: pop_slashes.induct)
  case (1 p)
  then show ?case
    by (subst pop_slashes.simps) (auto intro: prefix_order.trans [OF _ prefixeq_butlast])
qed

lemma pop_slashes_eq_Nil [simp]: "pop_slashes p = [] \<longleftrightarrow> p = []"
proof (induction p rule: pop_slashes.induct)
  case (1 p)
  then show ?case
    by (subst pop_slashes.simps) (auto simp: butlast_conv_take)
qed

lemma hd_pop_slashes: "p \<noteq> [] \<Longrightarrow> hd (pop_slashes p) = hd p"
  by (metis hd_append2 pop_slashes_eq_Nil pop_slashes_prefix prefixE)

lemma pop_slashes_normal: "length (pop_slashes p) \<le> 1 \<or> last (pop_slashes p) \<noteq> CHR ''/''"
proof (induction p rule: pop_slashes.induct)
  case (1 p)
  then show ?case by (cases "length p > 1 \<and> last p = CHR ''/''") (simp_all add: pop_slashes.simps [of p], linarith)
qed

lemma pop_slashes_fixed: "length p \<le> 1 \<or> last p \<noteq> CHR ''/'' \<Longrightarrow> pop_slashes p = p"
  by (subst pop_slashes.simps) auto

lemma pop_slashes_idem [simp]: "pop_slashes (pop_slashes p) = pop_slashes p"
  by (rule pop_slashes_fixed) (rule pop_slashes_normal)

section \<open>Decimal numbers\<close>

definition digit_char :: "nat \<Rightarrow> char" where
  "digit_char d = ''0123456789'' ! d"

definition is_digit :: "char \<Rightarrow> bool" where
  "is_digit c \<longleftrightarrow> c \<in> set ''0123456789''"

text \<open>\<^verbatim>\<open>std::to_string\<close> of a non-negative number.\<close>

fun to_string :: "nat \<Rightarrow> string" where
  "to_string n = (if n < 10 then [digit_char n] else to_string (n div 10) @ [digit_char (n mod 10)])"

declare to_string.simps [simp del]

definition digits_value :: "string \<Rightarrow> nat" where
  "digits_value ds = foldl (\<lambda>a c. 10 * a + (of_char c - 48)) 0 ds"

text \<open>
  \<^verbatim>\<open>std::stoi\<close> on a string with neither white space nor a sign in front, which is what its only
  caller passes: the leading digits are read, none of them is \<^verbatim>\<open>std::invalid_argument\<close>, and a value
  above \<^verbatim>\<open>INT_MAX\<close> is \<^verbatim>\<open>std::out_of_range\<close>.
\<close>

definition int_max :: nat where
  "int_max = 2147483647"

definition stoi :: "string \<Rightarrow> nat result" where
  "stoi s =
     (let ds = takeWhile is_digit s in
      if ds = [] then Inl ThrowInvalidArgument
      else if int_max < digits_value ds then Inl ThrowOutOfRange
      else Inr (digits_value ds))"

lemma less_10_cases: "(n::nat) < 10 \<Longrightarrow> n \<in> {0, 1, 2, 3, 4, 5, 6, 7, 8, 9}"
  by auto

lemma digit_char_is_digit: "d < 10 \<Longrightarrow> is_digit (digit_char d)"
  by (simp add: is_digit_def digit_char_def del: set_simps list.set)

lemma of_char_digit_char: "d < 10 \<Longrightarrow> (of_char (digit_char d) :: nat) = 48 + d"
  by (drule less_10_cases) (auto simp: digit_char_def)

lemma to_string_digits: "c \<in> set (to_string n) \<Longrightarrow> is_digit c"
proof (induction n rule: to_string.induct)
  case (1 n)
  then show ?case
    by (cases "n < 10") (auto simp: to_string.simps [of n] digit_char_is_digit)
qed

lemma to_string_nonempty [simp]: "to_string n \<noteq> []"
  by (subst to_string.simps) simp

lemma digits_value_snoc: "digits_value (ds @ [c]) = 10 * digits_value ds + (of_char c - 48)"
  by (simp add: digits_value_def)

lemma digits_value_to_string [simp]: "digits_value (to_string n) = n"
proof (induction n rule: to_string.induct)
  case (1 n)
  show ?case
  proof (cases "n < 10")
    case True
    then show ?thesis
      by (simp add: to_string.simps [of n] digits_value_def of_char_digit_char)
  next
    case False
    with 1 show ?thesis
      by (simp add: to_string.simps [of n] digits_value_snoc of_char_digit_char)
  qed
qed

lemma to_string_inject [simp]: "to_string m = to_string n \<longleftrightarrow> m = n"
  by (metis digits_value_to_string)

lemma takeWhile_digits: "\<forall>c \<in> set s. is_digit c \<Longrightarrow> takeWhile is_digit s = s"
  by (simp add: takeWhile_eq_all_conv)

lemma stoi_to_string: "n \<le> int_max \<Longrightarrow> stoi (to_string n) = Inr n"
  by (simp add: stoi_def takeWhile_digits to_string_digits)

end
