(* ===== verification/Config.thy ===== *)
theory Config
  imports Cpp_String
begin

text \<open>
  The parsed configuration of \<^verbatim>\<open>include/config_parser.h\<close>: a statement is its tokens and, when it
  opens a block, the block it owns; a block is its statements. The parser reaches into the tree
  through raw pointers to blocks. Each block has one owner, so a pointer is the access path from
  the root (the index of the owning statement at each level); \<open>deref\<close> follows it and \<open>store_at\<close>
  writes through it.
\<close>

section \<open>NginxConfig and NginxConfigStatement\<close>

datatype config = Config (statements: "statement list")
  and statement = Statement (tokens: "string list") (child_block: "config option")

text \<open>\<^verbatim>\<open>NginxConfig::ToString\<close> and \<^verbatim>\<open>NginxConfigStatement::ToString\<close>.\<close>

definition indent :: "nat \<Rightarrow> string" where
  "indent depth = concat (replicate depth ''  '')"

fun join_tokens :: "string list \<Rightarrow> string" where
  "join_tokens [] = []"
| "join_tokens [t] = t"
| "join_tokens (t # ts) = t @ '' '' @ join_tokens ts"

fun ToString :: "nat \<Rightarrow> config \<Rightarrow> string"
  and statement_ToString :: "nat \<Rightarrow> statement \<Rightarrow> string" where
  "ToString depth (Config ss) = concat (map (statement_ToString depth) ss)"
| "statement_ToString depth (Statement ts child) =
     indent depth @ join_tokens ts @
     (case child of
        Some c \<Rightarrow> '' {'' @ [c_nl] @ ToString (depth + 1) c @ indent depth @ ''}''
      | None \<Rightarrow> '';'') @
     [c_nl]"

definition Reset :: "config \<Rightarrow> config" where
  "Reset c = Config []"

section \<open>Pointers to blocks\<close>

type_synonym config_ptr = "nat list"

fun deref :: "config \<Rightarrow> config_ptr \<Rightarrow> config option" where
  "deref c [] = Some c"
| "deref (Config ss) (i # p) =
     (if i < length ss then
        (case child_block (ss ! i) of None \<Rightarrow> None | Some c \<Rightarrow> deref c p)
      else None)"

fun store_at :: "config_ptr \<Rightarrow> config \<Rightarrow> config \<Rightarrow> config" where
  "store_at [] new c = new"
| "store_at (i # p) new (Config ss) =
     (if i < length ss then
        (case child_block (ss ! i) of
           None \<Rightarrow> Config ss
         | Some c \<Rightarrow> Config (ss[i := Statement (tokens (ss ! i)) (Some (store_at p new c))]))
      else Config ss)"

lemma deref_store_same: "deref c p \<noteq> None \<Longrightarrow> deref (store_at p new c) p = Some new"
  by (induction p new c rule: store_at.induct) (auto split: option.splits if_splits)

lemma deref_store_below:
  "deref c p \<noteq> None \<Longrightarrow> deref (store_at p new c) (p @ q) = deref new q"
  by (induction p new c rule: store_at.induct) (auto split: option.splits if_splits)

lemma deref_store_above:
  "deref c (q @ r) \<noteq> None \<Longrightarrow> deref (store_at (q @ r) new c) q = map_option (store_at r new) (deref c q)"
proof (induction q arbitrary: c)
  case (Cons i q)
  then show ?case
    by (cases c) (auto split: option.splits if_splits)
qed auto

lemma store_store: "store_at p new (store_at p old c) = store_at p new c"
  by (induction p old c rule: store_at.induct) (auto split: option.splits)

lemma store_store_below:
  "deref c p \<noteq> None \<Longrightarrow> store_at (p @ q) new (store_at p old c) = store_at p (store_at q new old) c"
  by (induction p old c rule: store_at.induct) (auto split: option.splits if_splits)

lemma deref_append: "deref c (p @ q) = (case deref c p of None \<Rightarrow> None | Some d \<Rightarrow> deref d q)"
proof (induction p arbitrary: c)
  case (Cons i p)
  then show ?case by (cases c) (auto split: option.splits)
qed simp

lemma deref_snoc:
  "deref c (p @ [i]) = (case deref c p of None \<Rightarrow> None | Some (Config ss) \<Rightarrow>
     if i < length ss then child_block (ss ! i) else None)"
  by (auto simp: deref_append split: option.splits config.splits)

section \<open>Statements with tokens\<close>

text \<open>
  Every statement, at every depth, has a token. The readers of a configuration index
  \<^verbatim>\<open>tokens_[0]\<close> without a check and rely on it.
\<close>

fun tokens_nonempty :: "config \<Rightarrow> bool"
  and statement_ok :: "statement \<Rightarrow> bool" where
  "tokens_nonempty (Config ss) \<longleftrightarrow> list_all statement_ok ss"
| "statement_ok (Statement ts child) \<longleftrightarrow>
     ts \<noteq> [] \<and> (case child of None \<Rightarrow> True | Some c \<Rightarrow> tokens_nonempty c)"

lemma statement_ok_iff:
  "statement_ok s \<longleftrightarrow> tokens s \<noteq> [] \<and> (\<forall>c. child_block s = Some c \<longrightarrow> tokens_nonempty c)"
  by (cases s) (auto split: option.splits)

lemma tokens_nonempty_iff: "tokens_nonempty c \<longleftrightarrow> (\<forall>s \<in> set (statements c). statement_ok s)"
  by (cases c) (auto simp: list_all_iff)

lemma tokens_nonempty_deref: "tokens_nonempty c \<Longrightarrow> deref c p = Some d \<Longrightarrow> tokens_nonempty d"
proof (induction c p rule: deref.induct)
  case (2 ss i p)
  then obtain c where i: "i < length ss" and c: "child_block (ss ! i) = Some c" "deref c p = Some d"
    by (auto split: if_splits option.splits)
  from i "2.prems"(1) have "statement_ok (ss ! i)" by (simp add: list_all_length)
  with c have "tokens_nonempty c" by (simp add: statement_ok_iff)
  with "2.IH" [OF i c(1)] c(2) show ?case by simp
qed simp

lemma tokens_nonempty_store:
  "tokens_nonempty c \<Longrightarrow> tokens_nonempty new \<Longrightarrow> tokens_nonempty (store_at p new c)"
proof (induction p new c rule: store_at.induct)
  case (2 i p new ss)
  show ?case
  proof (cases "i < length ss \<and> child_block (ss ! i) \<noteq> None")
    case True
    then obtain c where c: "child_block (ss ! i) = Some c" by auto
    from True "2.prems"(1) have ok: "statement_ok (ss ! i)" by (simp add: list_all_length)
    with c have "tokens_nonempty c" by (simp add: statement_ok_iff)
    with "2.IH" c True "2.prems"(2) have "tokens_nonempty (store_at p new c)" by simp
    with True c ok "2.prems"(1) show ?thesis
      by (auto simp: list_all_length nth_list_update statement_ok_iff)
  next
    case False
    with "2.prems"(1) show ?thesis by (auto split: option.splits)
  qed
qed simp

end
