(* ===== verification/Lexer.thy ===== *)
theory Lexer
  imports Cpp_String
begin

text \<open>
  \<^verbatim>\<open>NginxConfigParser::ParseToken\<close>: the character stream it reads (\<^verbatim>\<open>std::istream\<close> with \<^verbatim>\<open>good\<close>,
  \<^verbatim>\<open>get\<close> and \<^verbatim>\<open>unget\<close>), the scanner's states and token types, one definition for each case of
  its \<^verbatim>\<open>switch\<close>, and the loop. The lemmas show that the loop ends, that every token but the end
  of the file and the error consumes input, and how plain and quoted words are scanned.
\<close>

section \<open>The input stream\<close>

text \<open>
  \<open>unread\<close> is what is left, \<open>taken\<close> what has been read (last character first), and \<open>not_good\<close> says
  that the stream is no longer \<^verbatim>\<open>good()\<close>: a \<^verbatim>\<open>get()\<close> at the end sets \<^verbatim>\<open>eofbit\<close> and \<^verbatim>\<open>failbit\<close>.
\<close>

record istream =
  unread :: string
  taken :: string
  not_good :: bool

text \<open>The size of a stream is the number of characters left: what every loop over it counts down.\<close>

instantiation istream_ext :: (type) size
begin

definition size_istream_ext :: "'a istream_scheme \<Rightarrow> nat" where
  "size_istream_ext i = length (unread i)"

instance ..

end

lemma size_istream [simp]: "size (i :: istream) = length (unread i)"
  by (simp add: size_istream_ext_def)

definition open_stream :: "string \<Rightarrow> istream" where
  "open_stream s = \<lparr>unread = s, taken = [], not_good = False\<rparr>"

text \<open>\<open>None\<close> is the value of \<^verbatim>\<open>get()\<close> after which the stream is not good any more.\<close>

definition stream_get :: "istream \<Rightarrow> char option \<times> istream" where
  "stream_get i =
     (if not_good i then (None, i)
      else case unread i of
        [] \<Rightarrow> (None, i\<lparr>not_good := True\<rparr>)
      | c # cs \<Rightarrow> (Some c, i\<lparr>unread := cs, taken := c # taken i\<rparr>))"

definition stream_unget :: "istream \<Rightarrow> istream" where
  "stream_unget i =
     (if not_good i then i
      else case taken i of
        [] \<Rightarrow> i\<lparr>not_good := True\<rparr>
      | c # cs \<Rightarrow> i\<lparr>unread := c # unread i, taken := cs\<rparr>)"

section \<open>Token types and scanner states\<close>

datatype TokenType =
    TOKEN_TYPE_START
  | TOKEN_TYPE_NORMAL
  | TOKEN_TYPE_START_BLOCK
  | TOKEN_TYPE_END_BLOCK
  | TOKEN_TYPE_COMMENT
  | TOKEN_TYPE_STATEMENT_END
  | TOKEN_TYPE_EOF
  | TOKEN_TYPE_ERROR
  | TOKEN_TYPE_QUOTED_STRING

datatype TokenParserState =
    TOKEN_STATE_INITIAL_WHITESPACE
  | TOKEN_STATE_SINGLE_QUOTE
  | TOKEN_STATE_DOUBLE_QUOTE
  | TOKEN_STATE_TOKEN_TYPE_COMMENT
  | TOKEN_STATE_TOKEN_TYPE_NORMAL

definition TokenTypeAsString :: "TokenType \<Rightarrow> string" where
  "TokenTypeAsString t =
     (case t of
        TOKEN_TYPE_START \<Rightarrow> ''TOKEN_TYPE_START''
      | TOKEN_TYPE_NORMAL \<Rightarrow> ''TOKEN_TYPE_NORMAL''
      | TOKEN_TYPE_START_BLOCK \<Rightarrow> ''TOKEN_TYPE_START_BLOCK''
      | TOKEN_TYPE_END_BLOCK \<Rightarrow> ''TOKEN_TYPE_END_BLOCK''
      | TOKEN_TYPE_COMMENT \<Rightarrow> ''TOKEN_TYPE_COMMENT''
      | TOKEN_TYPE_STATEMENT_END \<Rightarrow> ''TOKEN_TYPE_STATEMENT_END''
      | TOKEN_TYPE_EOF \<Rightarrow> ''TOKEN_TYPE_EOF''
      | TOKEN_TYPE_ERROR \<Rightarrow> ''TOKEN_TYPE_ERROR''
      | _ \<Rightarrow> ''Unknown token type'')"

section \<open>The cases of the switch\<close>

text \<open>
  The variables of the loop: \<^verbatim>\<open>state\<close>, the out-parameter \<^verbatim>\<open>*value\<close> and the stream. A case either
  continues the loop, returns from the function, or leaves the switch by \<^verbatim>\<open>break\<close>.
\<close>

record scanner =
  scan_state :: TokenParserState
  token_value :: string
  scan_input :: istream

datatype control = Continue | Return TokenType | Break

definition is_blank :: "char \<Rightarrow> bool" where
  "is_blank c \<longleftrightarrow> c = c_space \<or> c = c_tab \<or> c = c_nl \<or> c = c_cr"

text \<open>
  The escape branch, the same in three cases but for the characters it unescapes: the next
  character replaces the backslash when it is one of them and is put back otherwise.
\<close>

definition escape_branch :: "(char \<Rightarrow> bool) \<Rightarrow> char \<Rightarrow> scanner \<Rightarrow> control \<times> scanner" where
  "escape_branch special c l =
     (case stream_get (scan_input l) of
        (None, i) \<Rightarrow> (Break, l\<lparr>scan_input := i\<rparr>)
      | (Some ch, i) \<Rightarrow>
          if special ch then (Continue, l\<lparr>token_value := token_value l @ [ch], scan_input := i\<rparr>)
          else (Continue, l\<lparr>token_value := token_value l @ [c], scan_input := stream_unget i\<rparr>))"

text \<open>After a closing quote one of a few characters must follow, and is put back.\<close>

definition after_quote :: "scanner \<Rightarrow> control \<times> scanner" where
  "after_quote l =
     (case stream_get (scan_input l) of
        (None, i) \<Rightarrow> (Break, l\<lparr>scan_input := i\<rparr>)
      | (Some ch, i) \<Rightarrow>
          if \<not> (is_blank ch \<or> ch = CHR '';'' \<or> ch = CHR ''{'')
          then (Return TOKEN_TYPE_ERROR, l\<lparr>scan_input := i\<rparr>)
          else (Return TOKEN_TYPE_NORMAL, l\<lparr>scan_input := stream_unget i\<rparr>))"

definition escapable :: "char \<Rightarrow> bool" where
  "escapable ch \<longleftrightarrow> ch = c_space \<or> ch = c_tab \<or> ch = CHR '';'' \<or> ch = CHR ''{'' \<or> ch = CHR ''}'' \<or> ch = CHR ''#''"

definition append_char :: "char \<Rightarrow> scanner \<Rightarrow> scanner" where
  "append_char c l = l\<lparr>token_value := token_value l @ [c]\<rparr>"

definition single_quote_case :: "char \<Rightarrow> scanner \<Rightarrow> control \<times> scanner" where
  "single_quote_case c l =
     (if c = c_backslash then escape_branch (\<lambda>ch. ch = c_squote) c l
      else if c = c_squote then after_quote (append_char c l)
      else (Continue, append_char c l))"

definition double_quote_case :: "char \<Rightarrow> scanner \<Rightarrow> control \<times> scanner" where
  "double_quote_case c l =
     (if c = c_backslash then escape_branch (\<lambda>ch. ch = c_dquote) c l
      else if c = c_dquote then after_quote l
      else (Continue, append_char c l))"

definition comment_case :: "char \<Rightarrow> scanner \<Rightarrow> control \<times> scanner" where
  "comment_case c l =
     (if c = c_nl \<or> c = c_cr then (Return TOKEN_TYPE_COMMENT, l)
      else (Continue, append_char c l))"

definition is_separator :: "char \<Rightarrow> bool" where
  "is_separator c \<longleftrightarrow> is_blank c \<or> c = CHR '';'' \<or> c = CHR ''{'' \<or> c = CHR ''}''"

definition normal_case :: "char \<Rightarrow> scanner \<Rightarrow> control \<times> scanner" where
  "normal_case c l =
     (if is_separator c then (Return TOKEN_TYPE_NORMAL, l\<lparr>scan_input := stream_unget (scan_input l)\<rparr>)
      else if c = c_backslash then escape_branch escapable c l
      else (Continue, append_char c l))"

text \<open>
  The initial state. The \<^verbatim>\<open>break\<close> of its escape branch leaves only the inner \<^verbatim>\<open>switch (c)\<close>, so the
  control falls through to the case of the single quote.
\<close>

definition initial_case :: "char \<Rightarrow> scanner \<Rightarrow> control \<times> scanner" where
  "initial_case c l =
     (if c = CHR ''{'' then (Return TOKEN_TYPE_START_BLOCK, l\<lparr>token_value := [c]\<rparr>)
      else if c = CHR ''}'' then (Return TOKEN_TYPE_END_BLOCK, l\<lparr>token_value := [c]\<rparr>)
      else if c = CHR ''#'' then
        (Continue, l\<lparr>token_value := [c], scan_state := TOKEN_STATE_TOKEN_TYPE_COMMENT\<rparr>)
      else if c = c_dquote then (Continue, l\<lparr>scan_state := TOKEN_STATE_DOUBLE_QUOTE\<rparr>)
      else if c = c_squote then
        (Continue, l\<lparr>token_value := [c], scan_state := TOKEN_STATE_SINGLE_QUOTE\<rparr>)
      else if c = CHR '';'' then (Return TOKEN_TYPE_STATEMENT_END, l\<lparr>token_value := [c]\<rparr>)
      else if is_blank c then (Continue, l)
      else if c = c_backslash then
        (case escape_branch escapable c l of
           (Break, l') \<Rightarrow> single_quote_case c l'
         | r \<Rightarrow> r)
      else (Continue, append_char c (l\<lparr>scan_state := TOKEN_STATE_TOKEN_TYPE_NORMAL\<rparr>)))"

definition switch_case :: "char \<Rightarrow> scanner \<Rightarrow> control \<times> scanner" where
  "switch_case c l =
     (case scan_state l of
        TOKEN_STATE_INITIAL_WHITESPACE \<Rightarrow> initial_case c l
      | TOKEN_STATE_SINGLE_QUOTE \<Rightarrow> single_quote_case c l
      | TOKEN_STATE_DOUBLE_QUOTE \<Rightarrow> double_quote_case c l
      | TOKEN_STATE_TOKEN_TYPE_COMMENT \<Rightarrow> comment_case c l
      | TOKEN_STATE_TOKEN_TYPE_NORMAL \<Rightarrow> normal_case c l)"

text \<open>The lines after the loop.\<close>

definition after_loop :: "scanner \<Rightarrow> TokenType" where
  "after_loop l =
     (if scan_state l = TOKEN_STATE_SINGLE_QUOTE \<or> scan_state l = TOKEN_STATE_DOUBLE_QUOTE
      then TOKEN_TYPE_ERROR else TOKEN_TYPE_EOF)"

lemmas scan_defs = switch_case_def initial_case_def single_quote_case_def double_quote_case_def
  comment_case_def normal_case_def escape_branch_def after_quote_def append_char_def

subsection \<open>What one character may do to the stream\<close>

lemma stream_get_length:
  "stream_get i = (r, i') \<Longrightarrow> length (unread i') \<le> length (unread i)"
  by (auto simp: stream_get_def split: if_splits list.splits)

lemma stream_get_Some:
  "stream_get i = (Some c, i') \<Longrightarrow>
     \<not> not_good i \<and> \<not> not_good i' \<and> unread i = c # unread i' \<and> taken i' = c # taken i"
  by (auto simp: stream_get_def split: if_splits list.splits)

lemma stream_get_unget:
  "stream_get i = (Some c, i') \<Longrightarrow> stream_unget i' = i"
  by (auto simp: stream_get_def stream_unget_def split: if_splits list.splits)

lemma escape_branch_length:
  "escape_branch sp c l = (r, l') \<Longrightarrow> length (unread (scan_input l')) \<le> length (unread (scan_input l))"
  by (auto simp: escape_branch_def stream_get_unget dest: stream_get_length
      split: prod.splits option.splits if_splits)

lemma escape_branch_no_return: "escape_branch sp c l \<noteq> (Return t, l')"
  by (auto simp: escape_branch_def split: prod.splits option.splits)

lemma after_quote_length:
  "after_quote l = (r, l') \<Longrightarrow> length (unread (scan_input l')) \<le> length (unread (scan_input l))"
  by (auto simp: after_quote_def stream_get_unget dest: stream_get_length
      split: prod.splits option.splits if_splits)

lemma after_quote_no_continue: "after_quote l \<noteq> (Continue, l')"
  by (auto simp: after_quote_def split: prod.splits option.splits)

lemma single_quote_case_length:
  "single_quote_case c l = (r, l') \<Longrightarrow> length (unread (scan_input l')) \<le> length (unread (scan_input l))"
  by (auto simp: single_quote_case_def append_char_def
      dest!: escape_branch_length after_quote_length split: if_splits)

lemma initial_case_length:
  "initial_case c l = (r, l') \<Longrightarrow> length (unread (scan_input l')) \<le> length (unread (scan_input l))"
  by (auto simp: initial_case_def append_char_def
      dest: escape_branch_length order.trans [OF single_quote_case_length]
      split: if_splits prod.splits control.splits)

lemma switch_case_length:
  assumes "switch_case c l = (r, l')"
    and "\<And>t. r = Return t \<Longrightarrow> scan_state l \<noteq> TOKEN_STATE_TOKEN_TYPE_NORMAL"
  shows "length (unread (scan_input l')) \<le> length (unread (scan_input l))"
  using assms
  by (auto simp: switch_case_def double_quote_case_def comment_case_def normal_case_def append_char_def
      dest!: initial_case_length single_quote_case_length escape_branch_length after_quote_length
      split: TokenParserState.splits if_splits)

lemma switch_case_loops_length:
  "switch_case c l = (r, l') \<Longrightarrow> \<forall>t. r \<noteq> Return t \<Longrightarrow>
     length (unread (scan_input l')) \<le> length (unread (scan_input l))"
  by (erule switch_case_length) simp

section \<open>The loop\<close>

function scan_loop :: "scanner \<Rightarrow> TokenType \<times> scanner" where
  "scan_loop l =
     (if not_good (scan_input l) then (after_loop l, l)
      else case stream_get (scan_input l) of
        (None, i) \<Rightarrow> (after_loop (l\<lparr>scan_input := i\<rparr>), l\<lparr>scan_input := i\<rparr>)
      | (Some c, i) \<Rightarrow>
          (case switch_case c (l\<lparr>scan_input := i\<rparr>) of
             (Return t, l') \<Rightarrow> (t, l')
           | (Continue, l') \<Rightarrow> scan_loop l'
           | (Break, l') \<Rightarrow> scan_loop l'))"
  by pat_completeness auto
termination
  by (relation "measure (size \<circ> scan_input)")
     (auto dest!: sym [of "(_, _)"] stream_get_Some switch_case_loops_length)

declare scan_loop.simps [simp del]

definition ParseToken :: "istream \<Rightarrow> string \<Rightarrow> TokenType \<times> string \<times> istream" where
  "ParseToken i value =
     (case scan_loop \<lparr>scan_state = TOKEN_STATE_INITIAL_WHITESPACE, token_value = value, scan_input = i\<rparr> of
        (t, l) \<Rightarrow> (t, token_value l, scan_input l))"

section \<open>Progress\<close>

definition final_token :: "TokenType \<Rightarrow> bool" where
  "final_token t \<longleftrightarrow> t = TOKEN_TYPE_EOF \<or> t = TOKEN_TYPE_ERROR"

lemma stream_unget_length: "length (unread (stream_unget i)) \<le> Suc (length (unread i))"
  by (auto simp: stream_unget_def split: list.splits)

lemma switch_case_length_Suc:
  assumes "switch_case c l = (r, l')"
  shows "length (unread (scan_input l')) \<le> Suc (length (unread (scan_input l)))"
proof (cases "scan_state l = TOKEN_STATE_TOKEN_TYPE_NORMAL")
  case True
  with assms show ?thesis
    by (auto simp: switch_case_def normal_case_def append_char_def stream_unget_length
        dest!: escape_branch_length split: if_splits)
next
  case False
  with switch_case_length [OF assms] show ?thesis by simp
qed

lemma scan_loop_length: "length (unread (scan_input (snd (scan_loop l)))) \<le> length (unread (scan_input l))"
proof (induction l rule: scan_loop.induct)
  case (1 l)
  show ?case
  proof (cases "not_good (scan_input l)")
    case True
    then show ?thesis by (simp add: scan_loop.simps [of l])
  next
    case good: False
    obtain r i where get: "stream_get (scan_input l) = (r, i)" by fastforce
    show ?thesis
    proof (cases r)
      case None
      with get good stream_get_length [OF get] show ?thesis by (simp add: scan_loop.simps [of l])
    next
      case (Some c)
      with get have len: "length (unread (scan_input l)) = Suc (length (unread i))"
        by (auto dest: stream_get_Some)
      obtain k m where sw: "switch_case c (l\<lparr>scan_input := i\<rparr>) = (k, m)" by fastforce
      show ?thesis
      proof (cases "\<exists>t. k = Return t")
        case True
        with get good Some sw len switch_case_length_Suc [OF sw] show ?thesis
          by (auto simp: scan_loop.simps [of l])
      next
        case False
        have "length (unread (scan_input (snd (scan_loop m)))) \<le> length (unread (scan_input m))"
          using "1.IH" [OF good get [symmetric] Some sw [symmetric]] False by (cases k) auto
        also have "\<dots> \<le> length (unread i)"
          using switch_case_loops_length [OF sw] False by simp
        finally show ?thesis
          using get good Some sw len False by (cases k) (auto simp: scan_loop.simps [of l])
      qed
    qed
  qed
qed

lemma ParseToken_progress:
  assumes "ParseToken i v = (t, v', i')" and "\<not> final_token t"
  shows "length (unread i') < length (unread i)"
proof -
  let ?l = "\<lparr>scan_state = TOKEN_STATE_INITIAL_WHITESPACE, token_value = v, scan_input = i\<rparr>"
  from assms obtain l' where l': "scan_loop ?l = (t, l')" "i' = scan_input l'"
    by (auto simp: ParseToken_def split: prod.splits)
  with assms(2) obtain c j where get: "stream_get i = (Some c, j)"
    by (auto simp: scan_loop.simps [of ?l] final_token_def after_loop_def
        split: if_splits prod.splits option.splits)
  then have len: "length (unread i) = Suc (length (unread j))" and good: "\<not> not_good i"
    by (auto dest: stream_get_Some)
  obtain r m where sw: "switch_case c (?l\<lparr>scan_input := j\<rparr>) = (r, m)" by fastforce
  then have m: "length (unread (scan_input m)) \<le> length (unread j)"
    using switch_case_length [OF sw] by simp
  have "length (unread (scan_input l')) \<le> length (unread (scan_input m))"
    using l'(1) get good sw scan_loop_length [of m]
    by (auto simp: scan_loop.simps [of ?l] split: control.splits)
  with m len l'(2) show ?thesis by simp
qed

section \<open>Scanning on an open stream\<close>

definition scan :: "TokenParserState \<Rightarrow> string \<Rightarrow> string \<Rightarrow> string \<Rightarrow> TokenType \<times> scanner" where
  "scan st v cs p =
     scan_loop \<lparr>scan_state = st, token_value = v,
       scan_input = \<lparr>unread = cs, taken = p, not_good = False\<rparr>\<rparr>"

lemma ParseToken_scan:
  "ParseToken \<lparr>unread = cs, taken = p, not_good = False\<rparr> v =
     (case scan TOKEN_STATE_INITIAL_WHITESPACE v cs p of (t, l) \<Rightarrow> (t, token_value l, scan_input l))"
  by (simp add: ParseToken_def scan_def)

lemma scan_Nil:
  "scan st v [] p =
     (let l = \<lparr>scan_state = st, token_value = v,
        scan_input = \<lparr>unread = [], taken = p, not_good = True\<rparr>\<rparr> in (after_loop l, l))"
  by (simp add: scan_def scan_loop.simps stream_get_def Let_def)

lemma scan_Cons:
  "scan st v (c # cs) p =
     (case switch_case c \<lparr>scan_state = st, token_value = v,
        scan_input = \<lparr>unread = cs, taken = c # p, not_good = False\<rparr>\<rparr> of
        (Return t, l') \<Rightarrow> (t, l')
      | (_, l') \<Rightarrow> scan_loop l')"
  by (simp add: scan_def scan_loop.simps [of "\<lparr>scan_state = st, token_value = v,
        scan_input = \<lparr>unread = c # cs, taken = p, not_good = False\<rparr>\<rparr>"] stream_get_def
      split: prod.splits control.splits)

lemma scan_blank [lex_simps]:
  "is_blank c \<Longrightarrow> scan TOKEN_STATE_INITIAL_WHITESPACE v (c # cs) p =
     scan TOKEN_STATE_INITIAL_WHITESPACE v cs (c # p)"
  by (subst scan_Cons) (auto simp: scan_defs scan_def is_blank_def)

lemma scan_blanks:
  "\<forall>c \<in> set bs. is_blank c \<Longrightarrow> scan TOKEN_STATE_INITIAL_WHITESPACE v (bs @ cs) p =
     scan TOKEN_STATE_INITIAL_WHITESPACE v cs (rev bs @ p)"
  by (induction bs arbitrary: p) (auto simp: lex_simps)

text \<open>The characters that can start a plain word, and those that can go on with one.\<close>

definition word_char :: "char \<Rightarrow> bool" where
  "word_char c \<longleftrightarrow> \<not> is_separator c \<and> c \<noteq> c_backslash"

definition word_start :: "char \<Rightarrow> bool" where
  "word_start c \<longleftrightarrow> word_char c \<and> c \<noteq> CHR ''#'' \<and> c \<noteq> c_dquote \<and> c \<noteq> c_squote"

lemma scan_word_start [lex_simps]:
  "word_start c \<Longrightarrow> scan TOKEN_STATE_INITIAL_WHITESPACE v (c # cs) p =
     scan TOKEN_STATE_TOKEN_TYPE_NORMAL (v @ [c]) cs (c # p)"
  by (subst scan_Cons) (auto simp: scan_defs scan_def word_start_def word_char_def is_separator_def)

lemma scan_word_char [lex_simps]:
  "word_char c \<Longrightarrow> scan TOKEN_STATE_TOKEN_TYPE_NORMAL v (c # cs) p =
     scan TOKEN_STATE_TOKEN_TYPE_NORMAL (v @ [c]) cs (c # p)"
  by (subst scan_Cons) (auto simp: scan_defs scan_def word_char_def)

lemma scan_word_chars:
  "\<forall>c \<in> set w. word_char c \<Longrightarrow> scan TOKEN_STATE_TOKEN_TYPE_NORMAL v (w @ cs) p =
     scan TOKEN_STATE_TOKEN_TYPE_NORMAL (v @ w) cs (rev w @ p)"
  by (induction w arbitrary: v p) (auto simp: lex_simps)

definition returned :: "TokenType \<Rightarrow> TokenParserState \<Rightarrow> string \<Rightarrow> string \<Rightarrow> string \<Rightarrow> TokenType \<times> scanner" where
  "returned t st v cs p =
     (t, \<lparr>scan_state = st, token_value = v, scan_input = \<lparr>unread = cs, taken = p, not_good = False\<rparr>\<rparr>)"

lemma scan_word_end [lex_simps]:
  "is_separator c \<Longrightarrow> scan TOKEN_STATE_TOKEN_TYPE_NORMAL v (c # cs) p =
     returned TOKEN_TYPE_NORMAL TOKEN_STATE_TOKEN_TYPE_NORMAL v (c # cs) p"
  by (subst scan_Cons) (auto simp: scan_defs stream_unget_def returned_def)

lemma scan_punctuation [lex_simps]:
  "scan TOKEN_STATE_INITIAL_WHITESPACE v (CHR '';'' # cs) p =
     returned TOKEN_TYPE_STATEMENT_END TOKEN_STATE_INITIAL_WHITESPACE '';'' cs (CHR '';'' # p)"
  "scan TOKEN_STATE_INITIAL_WHITESPACE v (CHR ''{'' # cs) p =
     returned TOKEN_TYPE_START_BLOCK TOKEN_STATE_INITIAL_WHITESPACE ''{'' cs (CHR ''{'' # p)"
  "scan TOKEN_STATE_INITIAL_WHITESPACE v (CHR ''}'' # cs) p =
     returned TOKEN_TYPE_END_BLOCK TOKEN_STATE_INITIAL_WHITESPACE ''}'' cs (CHR ''}'' # p)"
  by (subst scan_Cons, simp add: scan_defs returned_def is_blank_def)+

lemma scan_open_quote [lex_simps]:
  "scan TOKEN_STATE_INITIAL_WHITESPACE v (c_squote # cs) p =
     scan TOKEN_STATE_SINGLE_QUOTE [c_squote] cs (c_squote # p)"
  "scan TOKEN_STATE_INITIAL_WHITESPACE v (c_dquote # cs) p =
     scan TOKEN_STATE_DOUBLE_QUOTE v cs (c_dquote # p)"
  by (subst scan_Cons, simp add: scan_defs scan_def is_blank_def)+

lemma scan_quoted_char [lex_simps]:
  "c \<noteq> c_squote \<Longrightarrow> c \<noteq> c_backslash \<Longrightarrow> scan TOKEN_STATE_SINGLE_QUOTE v (c # cs) p =
     scan TOKEN_STATE_SINGLE_QUOTE (v @ [c]) cs (c # p)"
  "c \<noteq> c_dquote \<Longrightarrow> c \<noteq> c_backslash \<Longrightarrow> scan TOKEN_STATE_DOUBLE_QUOTE v (c # cs) p =
     scan TOKEN_STATE_DOUBLE_QUOTE (v @ [c]) cs (c # p)"
  by (subst scan_Cons, simp add: scan_defs scan_def)+

lemma scan_quoted_chars:
  "\<forall>c \<in> set w. c \<noteq> c_squote \<and> c \<noteq> c_backslash \<Longrightarrow>
     scan TOKEN_STATE_SINGLE_QUOTE v (w @ cs) p = scan TOKEN_STATE_SINGLE_QUOTE (v @ w) cs (rev w @ p)"
  by (induction w arbitrary: v p) (auto simp: lex_simps)

definition may_follow_quote :: "char \<Rightarrow> bool" where
  "may_follow_quote d \<longleftrightarrow> is_blank d \<or> d = CHR '';'' \<or> d = CHR ''{''"

lemma scan_close_quote [lex_simps]:
  "may_follow_quote d \<Longrightarrow> scan TOKEN_STATE_SINGLE_QUOTE v (c_squote # d # cs) p =
     returned TOKEN_TYPE_NORMAL TOKEN_STATE_SINGLE_QUOTE (v @ [c_squote]) (d # cs) (c_squote # p)"
  "may_follow_quote d \<Longrightarrow> scan TOKEN_STATE_DOUBLE_QUOTE v (c_dquote # d # cs) p =
     returned TOKEN_TYPE_NORMAL TOKEN_STATE_DOUBLE_QUOTE v (d # cs) (c_dquote # p)"
  by (subst scan_Cons,
      force simp: scan_defs stream_get_def stream_unget_def returned_def may_follow_quote_def)+

text \<open>The escapes: in each state the same two transitions.\<close>

definition unescapes :: "TokenParserState \<Rightarrow> char \<Rightarrow> bool" where
  "unescapes st ch \<longleftrightarrow>
     (case st of
        TOKEN_STATE_INITIAL_WHITESPACE \<Rightarrow> escapable ch
      | TOKEN_STATE_TOKEN_TYPE_NORMAL \<Rightarrow> escapable ch
      | TOKEN_STATE_SINGLE_QUOTE \<Rightarrow> ch = c_squote
      | TOKEN_STATE_DOUBLE_QUOTE \<Rightarrow> ch = c_dquote
      | TOKEN_STATE_TOKEN_TYPE_COMMENT \<Rightarrow> False)"

lemma scan_escape:
  assumes "st \<noteq> TOKEN_STATE_TOKEN_TYPE_COMMENT"
  shows "scan st v (c_backslash # ch # cs) p =
     (if unescapes st ch then scan st (v @ [ch]) cs (ch # c_backslash # p)
      else scan st (v @ [c_backslash]) (ch # cs) (c_backslash # p))"
  using assms
  by (subst scan_Cons)
     (cases st; simp add: scan_defs stream_get_def stream_unget_def scan_def unescapes_def
        is_blank_def is_separator_def)

section \<open>Words\<close>

definition plain_token :: "string \<Rightarrow> bool" where
  "plain_token w \<longleftrightarrow> w \<noteq> [] \<and> word_start (hd w) \<and> list_all word_char w"

definition single_quoted_token :: "string \<Rightarrow> bool" where
  "single_quoted_token w \<longleftrightarrow>
     length w \<ge> 2 \<and> hd w = c_squote \<and> last w = c_squote \<and>
     list_all (\<lambda>c. c \<noteq> c_squote \<and> c \<noteq> c_backslash) (butlast (tl w))"

text \<open>
  The token values whose text scans back to themselves: plain words, and single-quoted strings,
  whose value keeps its quotes.
\<close>

definition printable_token :: "string \<Rightarrow> bool" where
  "printable_token w \<longleftrightarrow> plain_token w \<or> single_quoted_token w"

lemma may_follow_quote_separator: "may_follow_quote d \<Longrightarrow> is_separator d"
  by (auto simp: may_follow_quote_def is_separator_def)

lemma scan_plain_token:
  assumes "plain_token w" and "is_separator d"
  shows "scan TOKEN_STATE_INITIAL_WHITESPACE v (w @ d # cs) p =
     returned TOKEN_TYPE_NORMAL TOKEN_STATE_TOKEN_TYPE_NORMAL (v @ w) (d # cs) (rev w @ p)"
proof (cases w)
  case (Cons c w')
  with assms have "word_start c" "\<forall>c \<in> set w'. word_char c"
    by (auto simp: plain_token_def list_all_iff)
  with Cons assms(2) show ?thesis by (simp add: lex_simps scan_word_chars)
qed (use assms in \<open>simp add: plain_token_def\<close>)

lemma single_quoted_tokenE:
  assumes "single_quoted_token w"
  obtains u where "w = c_squote # u @ [c_squote]" and "\<forall>c \<in> set u. c \<noteq> c_squote \<and> c \<noteq> c_backslash"
proof -
  from assms obtain t where t: "w = c_squote # t" "t \<noteq> []" "last t = c_squote"
    by (cases w) (auto simp: single_quoted_token_def split: if_splits)
  then have "w = c_squote # butlast t @ [c_squote]"
    by (metis append_butlast_last_id)
  with assms t that [of "butlast t"] show thesis
    by (auto simp: single_quoted_token_def list_all_iff)
qed

lemma scan_single_quoted_token:
  assumes "single_quoted_token w" and "may_follow_quote d"
  shows "scan TOKEN_STATE_INITIAL_WHITESPACE [] (w @ d # cs) p =
     returned TOKEN_TYPE_NORMAL TOKEN_STATE_SINGLE_QUOTE w (d # cs) (rev w @ p)"
  using assms(1)
proof (rule single_quoted_tokenE)
  fix u
  assume "w = c_squote # u @ [c_squote]" and "\<forall>c \<in> set u. c \<noteq> c_squote \<and> c \<noteq> c_backslash"
  with assms(2) show ?thesis by (simp add: lex_simps scan_quoted_chars)
qed

lemma ParseToken_word:
  assumes "printable_token w" and "may_follow_quote d" and "\<forall>c \<in> set bs. is_blank c"
  shows "ParseToken \<lparr>unread = bs @ w @ d # cs, taken = p, not_good = False\<rparr> [] =
     (TOKEN_TYPE_NORMAL, w, \<lparr>unread = d # cs, taken = rev w @ rev bs @ p, not_good = False\<rparr>)"
  using assms
  by (auto simp: ParseToken_scan scan_blanks printable_token_def scan_plain_token
      scan_single_quoted_token may_follow_quote_separator returned_def)

lemma ParseToken_punctuation:
  assumes "\<forall>c \<in> set bs. is_blank c"
  shows
    "ParseToken \<lparr>unread = bs @ CHR '';'' # cs, taken = p, not_good = False\<rparr> [] =
       (TOKEN_TYPE_STATEMENT_END, '';'', \<lparr>unread = cs, taken = CHR '';'' # rev bs @ p, not_good = False\<rparr>)"
    "ParseToken \<lparr>unread = bs @ CHR ''{'' # cs, taken = p, not_good = False\<rparr> [] =
       (TOKEN_TYPE_START_BLOCK, ''{'', \<lparr>unread = cs, taken = CHR ''{'' # rev bs @ p, not_good = False\<rparr>)"
    "ParseToken \<lparr>unread = bs @ CHR ''}'' # cs, taken = p, not_good = False\<rparr> [] =
       (TOKEN_TYPE_END_BLOCK, ''}'', \<lparr>unread = cs, taken = CHR ''}'' # rev bs @ p, not_good = False\<rparr>)"
  using assms by (simp_all add: ParseToken_scan scan_blanks lex_simps returned_def)

lemma ParseToken_blank_eof:
  assumes "\<forall>c \<in> set bs. is_blank c"
  shows "ParseToken \<lparr>unread = bs, taken = p, not_good = False\<rparr> [] =
     (TOKEN_TYPE_EOF, [], \<lparr>unread = [], taken = rev bs @ p, not_good = True\<rparr>)"
  using scan_blanks [OF assms, of "[]" "[]" p]
  by (simp add: ParseToken_scan scan_Nil after_loop_def)

section \<open>Double-quoted words\<close>

text \<open>Writing a string as a double-quoted word: its double quotes are escaped.\<close>

definition dquote_text :: "string \<Rightarrow> string" where
  "dquote_text s = concat (map (\<lambda>c. if c = c_dquote then [c_backslash, c_dquote] else [c]) s)"

lemma dquote_text_hd: "s \<noteq> [] \<Longrightarrow> \<exists>d ds. dquote_text s = d # ds \<and> d \<noteq> c_dquote"
  by (cases s) (auto simp: dquote_text_def)

lemma scan_dquote_text:
  "(s = [] \<or> last s \<noteq> c_backslash) \<Longrightarrow> scan TOKEN_STATE_DOUBLE_QUOTE v (dquote_text s @ cs) p =
     scan TOKEN_STATE_DOUBLE_QUOTE (v @ s) cs (rev (dquote_text s) @ p)"
proof (induction s arbitrary: v p)
  case (Cons c s)
  then have IH: "scan TOKEN_STATE_DOUBLE_QUOTE v (dquote_text s @ cs) p =
      scan TOKEN_STATE_DOUBLE_QUOTE (v @ s) cs (rev (dquote_text s) @ p)" for v p
    by (auto split: if_splits)
  show ?case
  proof (cases "c = c_backslash")
    case True
    with Cons.prems have "s \<noteq> []" by auto
    then obtain d ds where d: "dquote_text s = d # ds" "d \<noteq> c_dquote"
      using dquote_text_hd by blast
    have "scan TOKEN_STATE_DOUBLE_QUOTE v (c_backslash # dquote_text s @ cs) p =
        scan TOKEN_STATE_DOUBLE_QUOTE (v @ [c_backslash]) (dquote_text s @ cs) (c_backslash # p)"
      using d by (simp add: scan_escape unescapes_def)
    with True IH show ?thesis by (simp add: dquote_text_def)
  next
    case False
    with IH show ?thesis
      by (auto simp: dquote_text_def scan_escape unescapes_def lex_simps)
  qed
qed (simp add: dquote_text_def)

text \<open>
  C6: Double quoting. Every string that does not end in a backslash, blanks, braces and quotes
  included, can be written as one double-quoted word: scanning the quoted text, followed by a
  blank, a semicolon or an opening brace, yields exactly that string as a NORMAL token and leaves
  the stream at the character after the closing quote.
\<close>

theorem double_quoted_word_roundtrip:
  assumes "s = [] \<or> last s \<noteq> c_backslash" and "may_follow_quote d"
  shows "ParseToken (open_stream ([c_dquote] @ dquote_text s @ [c_dquote, d] @ rest)) [] =
     (TOKEN_TYPE_NORMAL, s,
      \<lparr>unread = d # rest, taken = c_dquote # rev (dquote_text s) @ [c_dquote], not_good = False\<rparr>)"
  using assms
  by (simp add: open_stream_def ParseToken_scan lex_simps scan_dquote_text returned_def)

theorem double_quoted_word_roundtrip_witness:
  "ParseToken (open_stream ([c_dquote] @ dquote_text ''a {b'' @ [c_dquote, CHR '';''] @ ''x'')) [] =
     (TOKEN_TYPE_NORMAL, ''a {b'',
      \<lparr>unread = '';x'', taken = c_dquote # rev (dquote_text ''a {b'') @ [c_dquote], not_good = False\<rparr>)"
  using double_quoted_word_roundtrip [of "''a {b''" "CHR '';''" "''x''"]
  by (simp add: may_follow_quote_def)

text \<open>
  C8: Escapes at the start of a word. After a backslash and an escapable character in the initial
  state the scanner stays in the initial state, so the blanks that follow do not end the word: the
  escaped character and the next plain word come back as one token.
\<close>

theorem escaped_start_joins_next_word:
  assumes "escapable ch" and "\<forall>c \<in> set bs. is_blank c" and "plain_token w" and "is_separator d"
  shows "ParseToken (open_stream ([c_backslash, ch] @ bs @ w @ d # rest)) [] =
     (TOKEN_TYPE_NORMAL, ch # w,
      \<lparr>unread = d # rest, taken = rev w @ rev bs @ [ch, c_backslash], not_good = False\<rparr>)"
  using assms
  by (simp add: open_stream_def ParseToken_scan scan_escape unescapes_def scan_blanks
      scan_plain_token returned_def)

theorem escaped_start_joins_next_word_witness:
  "ParseToken (open_stream ([c_backslash, CHR ''#''] @ '' '' @ ''This'' @ CHR '';'' # [])) [] =
     (TOKEN_TYPE_NORMAL, ''#This'',
      \<lparr>unread = '';'', taken = rev ''This'' @ rev '' '' @ [CHR ''#'', c_backslash], not_good = False\<rparr>)"
  by (rule escaped_start_joins_next_word)
     (simp_all add: escapable_def is_blank_def plain_token_def word_start_def word_char_def
        is_separator_def)

end
