(* ===== verification/Grammar.thy ===== *)
theory Grammar
  imports Parser
begin

text \<open>
  The reference for \<^verbatim>\<open>NginxConfigParser::Parse\<close>: a zipper over the tree that the pointer machine
  of \<open>Parser\<close> refines, the grammar of the configuration language with the tree it assigns to a
  token sequence, and the equivalence of the two.
\<close>

section \<open>The loop over a list of tokens\<close>

text \<open>Tokens the scanner cannot return.\<close>

lemma scan_loop_types:
  "fst (scan_loop l) \<noteq> TOKEN_TYPE_START \<and> fst (scan_loop l) \<noteq> TOKEN_TYPE_QUOTED_STRING"
proof (induction l rule: scan_loop.induct)
  case (1 l)
  have sw: "switch_case c m \<noteq> (Return TOKEN_TYPE_START, l')"
    "switch_case c m \<noteq> (Return TOKEN_TYPE_QUOTED_STRING, l')" for c m l'
    by (auto simp: scan_defs split: TokenParserState.splits prod.splits option.splits control.splits if_splits)
  show ?case
    by (subst (1 2) scan_loop.simps)
       (auto simp: after_loop_def sw "1.IH" split: prod.splits option.splits control.splits)
qed

lemma next_token_types:
  "next_token i = ((t, v), i') \<Longrightarrow> t \<noteq> TOKEN_TYPE_START \<and> t \<noteq> TOKEN_TYPE_QUOTED_STRING"
  by (auto simp: next_token_def ParseToken_def split: prod.splits) (metis scan_loop_types fst_conv)+

lemma tokens_of_types:
  "(t, v) \<in> set (tokens_of i) \<Longrightarrow> t \<noteq> TOKEN_TYPE_START \<and> t \<noteq> TOKEN_TYPE_QUOTED_STRING"
proof (induction i rule: lexer.source_induct)
  case (1 i)
  obtain u w i' where n: "next_token i = ((u, w), i')" by (metis prod.exhaust)
  with 1 next_token_types [OF n] show ?case
    by (auto simp: tokens_of.simps [of i] split: if_splits)
qed

lemma tokens_of_last:
  "\<exists>ts t v. tokens_of i = ts @ [(t, v)] \<and> final_token t \<and> (\<forall>(t, v) \<in> set ts. \<not> final_token t)"
proof (induction i rule: lexer.source_induct)
  case (1 i)
  obtain t v i' where n: "next_token i = ((t, v), i')" by (metis prod.exhaust)
  show ?case
  proof (cases "final_token t")
    case True
    with n show ?thesis
      by (intro exI [of _ "[]"] exI [of _ t] exI [of _ v]) (simp add: tokens_of.simps [of i])
  next
    case False
    with 1 [OF n] obtain ts u w where "tokens_of i' = ts @ [(u, w)]" "final_token u"
      "\<forall>(t, v) \<in> set ts. \<not> final_token t" by auto
    with n False show ?thesis
      by (intro exI [of _ "(t, v) # ts"] exI [of _ u] exI [of _ w]) (simp add: tokens_of.simps [of i])
  qed
qed

text \<open>The result of the loop without the printed lines.\<close>

definition loop_result :: "parse_control result \<Rightarrow> (bool \<times> config) result" where
  "loop_result r =
     (case r of
        Inl e \<Rightarrow> Inl e
      | Inr (Accept s) \<Rightarrow> Inr (True, root s)
      | Inr (Fail s) \<Rightarrow> Inr (False, root s)
      | Inr (Next s) \<Rightarrow> Inr (False, root s))"

definition without_output :: "(bool \<times> config \<times> string list) result \<Rightarrow> (bool \<times> config) result" where
  "without_output r = (case r of Inl e \<Rightarrow> Inl e | Inr (b, c, out) \<Rightarrow> Inr (b, c))"

lemma parse_loop_tokens: "without_output (parse_loop i s out) = loop_result (run_tokens s (tokens_of i))"
proof (induction i arbitrary: s out rule: lexer.source_induct)
  case (1 i)
  obtain t v i' where n: "ParseToken i [] = (t, v, i')" by (metis prod.exhaust)
  then have nt: "next_token i = ((t, v), i')" by (simp add: next_token_def)
  show ?case
  proof (cases "\<exists>s'. parse_step t v s = Inr (Next s')")
    case True
    then obtain s' where s': "parse_step t v s = Inr (Next s')" by blast
    then have nf: "\<not> final_token t" by (rule parse_step_Next_final)
    have "parse_loop i s out = parse_loop i' s' (out @ [token_line t v])"
      by (simp add: parse_loop.simps [of i] n s')
    with 1 [OF nt] nf nt s' show ?thesis by (simp add: tokens_of.simps [of i])
  next
    case False
    then show ?thesis
      by (auto simp: parse_loop.simps [of i] tokens_of.simps [of i] n nt without_output_def
          loop_result_def Let_def split: sum.splits parse_control.splits)
  qed
qed

section \<open>The zipper\<close>

text \<open>
  The open blocks, innermost first: for each the statements that precede the statement owning the
  next inner block, and the tokens of that statement. Then the statements of the innermost block
  and the words of the statement being read.
\<close>

type_synonym frame = "statement list \<times> string list"

record zipper =
  outer :: "frame list"
  done_statements :: "statement list"
  words :: "string list"

datatype zip_control = ZNext zipper | ZFail | ZAccept "statement list"

definition zip_step :: "TokenType \<Rightarrow> string \<Rightarrow> zipper \<Rightarrow> zip_control" where
  "zip_step t v z =
     (case t of
        TOKEN_TYPE_COMMENT \<Rightarrow> ZNext z
      | TOKEN_TYPE_NORMAL \<Rightarrow> ZNext (z\<lparr>words := words z @ [v]\<rparr>)
      | TOKEN_TYPE_STATEMENT_END \<Rightarrow>
          if words z = [] then ZFail
          else ZNext (z\<lparr>done_statements := done_statements z @ [Statement (words z) None], words := []\<rparr>)
      | TOKEN_TYPE_START_BLOCK \<Rightarrow>
          if words z = [] then ZFail
          else ZNext \<lparr>outer = (done_statements z, words z) # outer z, done_statements = [], words = []\<rparr>
      | TOKEN_TYPE_END_BLOCK \<Rightarrow>
          (case outer z of
             [] \<Rightarrow> ZFail
           | (ss, ws) # fs \<Rightarrow>
               if words z \<noteq> [] then ZFail
               else ZNext \<lparr>outer = fs,
                      done_statements = ss @ [Statement ws (Some (Config (done_statements z)))],
                      words = []\<rparr>)
      | TOKEN_TYPE_EOF \<Rightarrow>
          if words z = [] \<and> outer z = [] then ZAccept (done_statements z) else ZFail
      | _ \<Rightarrow> ZFail)"

fun zip_run :: "zipper \<Rightarrow> (TokenType \<times> string) list \<Rightarrow> zip_control" where
  "zip_run z [] = ZNext z"
| "zip_run z ((t, v) # ts) = (case zip_step t v z of ZNext z' \<Rightarrow> zip_run z' ts | r \<Rightarrow> r)"

subsection \<open>The simulation\<close>

text \<open>The tree a zipper stands for, and the pointers to its open blocks.\<close>

fun plug :: "frame list \<Rightarrow> config \<Rightarrow> config" where
  "plug [] c = c"
| "plug ((ss, ws) # fs) c = plug fs (Config (ss @ [Statement ws (Some c)]))"

fun innermost :: "frame list \<Rightarrow> config_ptr" where
  "innermost [] = []"
| "innermost ((ss, ws) # fs) = innermost fs @ [length ss]"

fun open_ptrs :: "frame list \<Rightarrow> config_ptr list" where
  "open_ptrs [] = [[]]"
| "open_ptrs ((ss, ws) # fs) = innermost ((ss, ws) # fs) # open_ptrs fs"

definition pending :: "string list \<Rightarrow> statement list" where
  "pending ws = (if ws = [] then [] else [Statement ws None])"

definition simulates :: "parse_state \<Rightarrow> zipper \<Rightarrow> bool" where
  "simulates s z \<longleftrightarrow>
     root s = plug (outer z) (Config (done_statements z @ pending (words z))) \<and>
     config_stack s = open_ptrs (outer z) \<and>
     length (bracket_stack s) = length (outer z) \<and>
     (last_token_type s = TOKEN_TYPE_NORMAL \<longleftrightarrow> words z \<noteq> []) \<and>
     (last_token_type s = TOKEN_TYPE_START \<longrightarrow> outer z = []) \<and>
     (last_token_type s = TOKEN_TYPE_START_BLOCK \<longrightarrow> outer z \<noteq> []) \<and>
     last_token_type s \<in> {TOKEN_TYPE_START, TOKEN_TYPE_STATEMENT_END, TOKEN_TYPE_START_BLOCK,
       TOKEN_TYPE_END_BLOCK, TOKEN_TYPE_NORMAL}"

lemma open_ptrs_hd: "\<exists>ps. open_ptrs fs = innermost fs # ps"
  by (cases fs rule: open_ptrs.cases) auto

lemma deref_plug: "deref (plug fs c) (innermost fs) = Some c"
  by (induction fs arbitrary: c rule: innermost.induct) (auto simp: deref_snoc)

lemma store_at_append:
  "deref c p = Some d \<Longrightarrow> store_at (p @ q) new c = store_at p (store_at q new d) c"
proof (induction c p rule: deref.induct)
  case (2 ss i p)
  then show ?case by (auto split: option.splits if_splits)
qed simp

lemma store_plug: "store_at (innermost fs) new (plug fs c) = plug fs new"
proof (induction fs arbitrary: c new rule: innermost.induct)
  case (2 ss ws fs)
  have "store_at (innermost fs @ [length ss]) new (plug fs (Config (ss @ [Statement ws (Some c)]))) =
      store_at (innermost fs) (store_at [length ss] new (Config (ss @ [Statement ws (Some c)])))
        (plug fs (Config (ss @ [Statement ws (Some c)])))"
    by (rule store_at_append) (rule deref_plug)
  also have "\<dots> = plug fs (Config (ss @ [Statement ws (Some new)]))"
    by (simp add: "2.IH")
  finally show ?case by simp
qed simp

lemma simulates_top:
  "simulates s z \<Longrightarrow> top_statements s = Inr (innermost (outer z), done_statements z @ pending (words z))"
  using open_ptrs_hd [of "outer z"] by (auto simp: simulates_def top_statements_def deref_plug)

lemma simulates_store:
  "simulates s z \<Longrightarrow> store_at (innermost (outer z)) new (root s) = plug (outer z) new"
  by (simp add: simulates_def store_plug)

text \<open>How a step of the pointer machine and one of the zipper correspond.\<close>

fun corresponds :: "parse_control result \<Rightarrow> zip_control \<Rightarrow> bool" where
  "corresponds (Inr (Next s)) (ZNext z) = simulates s z"
| "corresponds (Inr (Fail s)) ZFail = True"
| "corresponds (Inr (Accept s)) (ZAccept ss) = (root s = Config ss)"
| "corresponds _ _ = False"


lemma modify_back_snoc: "modify_back f (ss @ [s]) = Inr (ss @ [f s])"
  by (simp add: modify_back_def)

lemma step_simulates_normal:
  assumes "simulates s z"
  shows "corresponds (parse_step TOKEN_TYPE_NORMAL v s) (zip_step TOKEN_TYPE_NORMAL v z)"
proof -
  let ?ss = "done_statements z @ pending (words z)"
  let ?arg = "if last_token_type s \<noteq> TOKEN_TYPE_NORMAL then ?ss @ [Statement [] None] else ?ss"
  have "modify_back (add_token v) ?arg = Inr (done_statements z @ [Statement (words z @ [v]) None])"
    using assms by (auto simp: simulates_def pending_def modify_back_snoc add_token_def)
  then have "parse_step TOKEN_TYPE_NORMAL v s = Inr (Next (s\<lparr>root := plug (outer z)
      (Config (done_statements z @ [Statement (words z @ [v]) None])),
      last_token_type := TOKEN_TYPE_NORMAL\<rparr>))"
    using assms unfolding simulates_def
    by (simp only: parse_step_cases(4) simulates_top [OF assms] store_plug
        if_True and_then_simps split)
  with assms show ?thesis
    by (simp add: zip_step_def simulates_def pending_def)
qed

lemma step_simulates_start_block:
  assumes "simulates s z"
  shows "corresponds (parse_step TOKEN_TYPE_START_BLOCK v s) (zip_step TOKEN_TYPE_START_BLOCK v z)"
proof (cases "words z = []")
  case True
  with assms show ?thesis
    by (auto simp: parse_step_cases(6) zip_step_def simulates_def)
next
  case False
  let ?ss = "done_statements z @ pending (words z)"
  have "modify_back (reset_child (Config [])) ?ss =
      Inr (done_statements z @ [Statement (words z) (Some (Config []))])"
    using False by (simp add: pending_def modify_back_snoc reset_child_def)
  then have "parse_step TOKEN_TYPE_START_BLOCK v s = Inr (Next (s\<lparr>
      root := plug (outer z) (Config (done_statements z @ [Statement (words z) (Some (Config []))])),
      config_stack := (innermost (outer z) @ [length (done_statements z)]) # config_stack s,
      bracket_stack := TOKEN_TYPE_START_BLOCK # bracket_stack s,
      last_token_type := TOKEN_TYPE_START_BLOCK\<rparr>))"
    using False assms simulates_top [OF assms] simulates_store [OF assms]
    by (simp add: parse_step_cases(6) simulates_def pending_def)
  with assms False show ?thesis
    by (simp add: zip_step_def simulates_def pending_def)
qed

lemma step_simulates_end_block:
  assumes "simulates s z"
  shows "corresponds (parse_step TOKEN_TYPE_END_BLOCK v s) (zip_step TOKEN_TYPE_END_BLOCK v z)"
proof (cases "outer z")
  case Nil
  with assms show ?thesis
    by (auto simp: parse_step_cases(7) zip_step_def simulates_def)
next
  case (Cons f fs)
  obtain ss ws where f: "f = (ss, ws)" by fastforce
  with Cons assms show ?thesis
    by (cases "bracket_stack s") (auto simp: parse_step_cases(7) zip_step_def simulates_def pending_def)
qed

lemma step_simulates:
  assumes "simulates s z" and "t \<noteq> TOKEN_TYPE_QUOTED_STRING"
  shows "corresponds (parse_step t v s) (zip_step t v z)"
proof (cases t)
  case TOKEN_TYPE_STATEMENT_END
  with assms show ?thesis
    by (auto simp: parse_step_cases(5) zip_step_def simulates_def pending_def)
next
  case TOKEN_TYPE_EOF
  with assms show ?thesis
    by (auto simp: parse_step_cases(9) zip_step_def simulates_def pending_def)
qed (use assms step_simulates_normal step_simulates_start_block step_simulates_end_block
     in \<open>simp_all add: parse_step_cases(1,2,3) zip_step_def\<close>)

lemma corresponds_NextE:
  assumes "corresponds r (ZNext z)"
  obtains s where "r = Inr (Next s)" and "simulates s z"
  using assms by (cases "(r, ZNext z)" rule: corresponds.cases) auto

lemma run_simulates:
  assumes "simulates s z" and "\<forall>(t, v) \<in> set ts. t \<noteq> TOKEN_TYPE_QUOTED_STRING"
  shows "corresponds (run_tokens s ts) (zip_run z ts)"
  using assms
proof (induction ts arbitrary: s z)
  case (Cons x ts)
  obtain t v where x: "x = (t, v)" by fastforce
  with Cons.prems have c: "corresponds (parse_step t v s) (zip_step t v z)"
    by (intro step_simulates) auto
  show ?case
  proof (cases "zip_step t v z")
    case (ZNext z')
    with c obtain s' where "parse_step t v s = Inr (Next s')" "simulates s' z'"
      by (auto elim: corresponds_NextE)
    with x ZNext Cons show ?thesis by auto
  next
    case ZFail
    with c x show ?thesis
      by (cases "(parse_step t v s, ZFail)" rule: corresponds.cases) auto
  next
    case (ZAccept ss)
    with c x show ?thesis
      by (cases "(parse_step t v s, ZAccept ss)" rule: corresponds.cases) auto
  qed
qed simp

definition start_zipper :: "statement list \<Rightarrow> zipper" where
  "start_zipper ss = \<lparr>outer = [], done_statements = ss, words = []\<rparr>"

lemma start_simulates: "simulates (start_state (Config ss)) (start_zipper ss)"
  by (simp add: simulates_def start_state_def start_zipper_def pending_def)

lemma Parse_run:
  "without_output (Parse i c) = loop_result (run_tokens (start_state c) (tokens_of i))"
  by (simp add: Parse_def parse_loop_tokens)

lemma Parse_simulates:
  "corresponds (run_tokens (start_state (Config ss)) (tokens_of i)) (zip_run (start_zipper ss) (tokens_of i))"
  by (rule run_simulates [OF start_simulates]) (auto dest: tokens_of_types)

section \<open>The grammar\<close>

text \<open>
  The configuration language over tokens, comments left out, with the statements a token sequence
  stands for: a statement is one or more words, ended by a semicolon or followed by a block.
\<close>

definition word_tokens :: "string list \<Rightarrow> (TokenType \<times> string) list" where
  "word_tokens ws = map (\<lambda>w. (TOKEN_TYPE_NORMAL, w)) ws"

inductive derives :: "(TokenType \<times> string) list \<Rightarrow> statement list \<Rightarrow> bool" where
  empty: "derives [] []"
| simple: "ws \<noteq> [] \<Longrightarrow> derives ts ss \<Longrightarrow>
     derives (word_tokens ws @ (TOKEN_TYPE_STATEMENT_END, v) # ts) (Statement ws None # ss)"
| block: "ws \<noteq> [] \<Longrightarrow> derives bs cs \<Longrightarrow> derives ts ss \<Longrightarrow>
     derives (word_tokens ws @ (TOKEN_TYPE_START_BLOCK, v) # bs @ (TOKEN_TYPE_END_BLOCK, v') # ts)
       (Statement ws (Some (Config cs)) # ss)"

lemma derives_append: "derives a xs \<Longrightarrow> derives b ys \<Longrightarrow> derives (a @ b) (xs @ ys)"
  by (induction rule: derives.induct) (auto intro: derives.intros)

lemma derives_simple: "ws \<noteq> [] \<Longrightarrow> derives (word_tokens ws @ [(TOKEN_TYPE_STATEMENT_END, v)]) [Statement ws None]"
  using derives.simple [OF _ derives.empty] by simp

lemma derives_block: "ws \<noteq> [] \<Longrightarrow> derives bs cs \<Longrightarrow>
    derives (word_tokens ws @ (TOKEN_TYPE_START_BLOCK, v) # bs @ [(TOKEN_TYPE_END_BLOCK, v')])
      [Statement ws (Some (Config cs))]"
  using derives.block [OF _ _ derives.empty] by simp

lemma derives_statement_ok: "derives ts ss \<Longrightarrow> list_all statement_ok ss"
  by (induction rule: derives.induct) auto

subsection \<open>What the grammar derives, the zipper reads\<close>

lemma zip_run_append:
  "zip_run z (xs @ ys) = (case zip_run z xs of ZNext z' \<Rightarrow> zip_run z' ys | r \<Rightarrow> r)"
  by (induction z xs rule: zip_run.induct) (auto split: zip_control.splits)

lemma zip_run_words: "zip_run z (word_tokens ws) = ZNext (z\<lparr>words := words z @ ws\<rparr>)"
  by (induction ws arbitrary: z) (auto simp: word_tokens_def zip_step_def)

lemma zip_run_derives:
  "derives ts ss \<Longrightarrow> words z = [] \<Longrightarrow>
     zip_run z ts = ZNext (z\<lparr>done_statements := done_statements z @ ss\<rparr>)"
proof (induction arbitrary: z rule: derives.induct)
  case empty
  then show ?case by simp
next
  case (simple ws ts ss v)
  then show ?case by (simp add: zip_run_append zip_run_words zip_step_def)
next
  case (block ws bs cs ts ss v v')
  then show ?case by (simp add: zip_run_append zip_run_words zip_step_def)
qed

subsection \<open>What the zipper reads, the grammar derives\<close>

text \<open>
  The token sequences that lead from \<open>ss0\<close> to a given stack of open blocks and statements.
\<close>

inductive spells :: "statement list \<Rightarrow> frame list \<Rightarrow> statement list \<Rightarrow> (TokenType \<times> string) list \<Rightarrow> bool"
  for ss0 :: "statement list" where
  at_root: "derives ts d \<Longrightarrow> spells ss0 [] (ss0 @ d) ts"
| in_block: "spells ss0 fs ss ts \<Longrightarrow> ws \<noteq> [] \<Longrightarrow> derives bs cs \<Longrightarrow>
     spells ss0 ((ss, ws) # fs) cs (ts @ word_tokens ws @ (TOKEN_TYPE_START_BLOCK, v) # bs)"

inductive_cases spells_at_root: "spells ss0 [] ss ts"
inductive_cases spells_in_block: "spells ss0 ((ss, ws) # fs) cs ts"

lemma spells_extend: "spells ss0 fs ss ts \<Longrightarrow> derives a d \<Longrightarrow> spells ss0 fs (ss @ d) (ts @ a)"
proof (induction rule: spells.cases)
  case (at_root ts d')
  then show ?case using spells.at_root [of "ts @ a" "d' @ d" ss0] by (simp add: derives_append)
next
  case (in_block fs ss ts ws bs cs v)
  then show ?case
    using spells.in_block [of ss0 fs ss ts ws "bs @ a" "cs @ d" v] by (simp add: derives_append)
qed

definition reads :: "statement list \<Rightarrow> zipper \<Rightarrow> (TokenType \<times> string) list \<Rightarrow> bool" where
  "reads ss0 z ts \<longleftrightarrow>
     (\<exists>ts'. ts = ts' @ word_tokens (words z) \<and> spells ss0 (outer z) (done_statements z) ts')"

lemma readsI: "spells ss0 (outer z) (done_statements z) ts \<Longrightarrow> words z = [] \<Longrightarrow> reads ss0 z ts"
  by (simp add: reads_def word_tokens_def)

lemma reads_step:
  assumes "reads ss0 z ts" and "zip_step t v z = ZNext z'" and "t \<noteq> TOKEN_TYPE_COMMENT"
  shows "reads ss0 z' (ts @ [(t, v)])"
proof -
  obtain ts' where ts: "ts = ts' @ word_tokens (words z)"
    and sp: "spells ss0 (outer z) (done_statements z) ts'"
    using assms(1) by (auto simp: reads_def)
  show ?thesis
  proof (cases t)
    case TOKEN_TYPE_NORMAL
    with assms(2) ts sp show ?thesis by (auto simp: zip_step_def reads_def word_tokens_def)
  next
    case TOKEN_TYPE_STATEMENT_END
    with assms(2) ts spells_extend [OF sp derives_simple [of "words z" v]] show ?thesis
      by (auto simp: zip_step_def intro!: readsI split: if_splits)
  next
    case TOKEN_TYPE_START_BLOCK
    with assms(2) ts spells.in_block [OF sp _ derives.empty, of "words z" v] show ?thesis
      by (auto simp: zip_step_def intro!: readsI split: if_splits)
  next
    case TOKEN_TYPE_END_BLOCK
    with assms(2) obtain ss ws fs where z: "outer z = (ss, ws) # fs" "words z = []"
      and z': "outer z' = fs" "words z' = []"
        "done_statements z' = ss @ [Statement ws (Some (Config (done_statements z)))]"
      by (auto simp: zip_step_def split: list.splits if_splits)
    from sp z obtain a bs w where "ts' = a @ word_tokens ws @ (TOKEN_TYPE_START_BLOCK, w) # bs"
      "spells ss0 fs ss a" "ws \<noteq> []" "derives bs (done_statements z)"
      by (auto elim: spells_in_block)
    with z z' ts TOKEN_TYPE_END_BLOCK
      spells_extend [of ss0 fs ss a, OF _ derives_block [of ws bs "done_statements z" w v]]
    show ?thesis by (auto intro!: readsI simp: word_tokens_def)
  qed (use assms in \<open>auto simp: zip_step_def split: if_splits\<close>)
qed

lemma reads_run:
  "reads ss0 z ts \<Longrightarrow> zip_run z us = ZNext z' \<Longrightarrow> \<forall>(t, v) \<in> set us. t \<noteq> TOKEN_TYPE_COMMENT \<Longrightarrow>
     reads ss0 z' (ts @ us)"
proof (induction z us arbitrary: ts rule: zip_run.induct)
  case (2 z t v us)
  from "2.prems" obtain z1 where z1: "zip_step t v z = ZNext z1" "zip_run z1 us = ZNext z'"
    by (auto split: zip_control.splits)
  then have "reads ss0 z1 (ts @ [(t, v)])"
    using "2.prems" by (auto intro: reads_step)
  from "2.IH" [OF z1(1) this z1(2)] "2.prems" show ?case by simp
qed simp

text \<open>Comments change nothing.\<close>

definition without_comments :: "(TokenType \<times> string) list \<Rightarrow> (TokenType \<times> string) list" where
  "without_comments ts = filter (\<lambda>(t, v). t \<noteq> TOKEN_TYPE_COMMENT) ts"

lemma zip_run_comments: "zip_run z (without_comments ts) = zip_run z ts"
  by (induction z ts rule: zip_run.induct)
     (auto simp: without_comments_def zip_step_def split: zip_control.splits)

section \<open>Parse against the grammar\<close>

lemma zip_run_AcceptE:
  assumes "zip_run z ts = ZAccept cur"
  obtains pre v post z' where "ts = pre @ (TOKEN_TYPE_EOF, v) # post" and "zip_run z pre = ZNext z'"
    and "words z' = []" and "outer z' = []" and "cur = done_statements z'"
  using assms
proof (induction z ts arbitrary: thesis rule: zip_run.induct)
  case (2 z t v ts)
  show ?case
  proof (cases "zip_step t v z")
    case (ZNext z1)
    with "2.prems"(2) have "zip_run z1 ts = ZAccept cur" by simp
    then obtain pre w post z' where "ts = pre @ (TOKEN_TYPE_EOF, w) # post" "zip_run z1 pre = ZNext z'"
      "words z' = []" "outer z' = []" "cur = done_statements z'" using "2.IH" [OF ZNext] by blast
    with ZNext show ?thesis by (intro "2.prems"(1) [of "(t, v) # pre" w post z']) auto
  next
    case ZFail
    with "2.prems" show ?thesis by simp
  next
    case (ZAccept ss)
    with "2.prems" show ?thesis
      by (intro "2.prems"(1) [of "[]" v ts z])
         (auto simp: zip_step_def split: TokenType.splits if_splits list.splits)
  qed
qed simp

lemma tokens_of_split:
  assumes "without_comments (tokens_of i) = pre @ (TOKEN_TYPE_EOF, v) # post"
  shows "post = []"
proof -
  obtain ts t w where ts: "tokens_of i = ts @ [(t, w)]" "\<forall>(t, v) \<in> set ts. \<not> final_token t"
    using tokens_of_last by blast
  then have nf: "(TOKEN_TYPE_EOF, v) \<notin> set (without_comments ts)"
    by (auto simp: without_comments_def final_token_def)
  have "t \<noteq> TOKEN_TYPE_COMMENT"
    using tokens_of_last [of i] ts(1) by (auto simp: final_token_def)
  with assms ts(1) have eq: "without_comments ts @ [(t, w)] = pre @ (TOKEN_TYPE_EOF, v) # post"
    by (simp add: without_comments_def)
  show ?thesis
  proof (cases post rule: rev_cases)
    case (snoc q x)
    with eq have "without_comments ts = pre @ (TOKEN_TYPE_EOF, v) # q"
      by (metis append_Cons append_assoc butlast_snoc)
    with nf show ?thesis by simp
  qed
qed

lemma start_reads: "reads ss0 (start_zipper ss0) []"
  using spells.at_root [OF derives.empty, of ss0] by (auto intro: readsI simp: start_zipper_def)

lemma zip_accepts_iff:
  assumes "without_comments us = us" and "\<And>pre v post. us = pre @ (TOKEN_TYPE_EOF, v) # post \<Longrightarrow> post = []"
  shows "zip_run (start_zipper ss0) us = ZAccept cur \<longleftrightarrow>
     (\<exists>body v d. us = body @ [(TOKEN_TYPE_EOF, v)] \<and> derives body d \<and> cur = ss0 @ d)"
proof
  assume "zip_run (start_zipper ss0) us = ZAccept cur"
  then obtain pre v post z' where us: "us = pre @ (TOKEN_TYPE_EOF, v) # post"
    and run: "zip_run (start_zipper ss0) pre = ZNext z'"
    and z': "words z' = []" "outer z' = []" "cur = done_statements z'"
    by (rule zip_run_AcceptE)
  from assms(1) have "\<forall>(t, v) \<in> set us. t \<noteq> TOKEN_TYPE_COMMENT"
    by (simp add: without_comments_def filter_id_conv)
  with us have "\<forall>(t, v) \<in> set pre. t \<noteq> TOKEN_TYPE_COMMENT" by simp
  then have "reads ss0 z' pre"
    using reads_run [OF start_reads run] by simp
  with z' obtain d where "derives pre d" "cur = ss0 @ d"
    by (auto simp: reads_def word_tokens_def elim!: spells_at_root)
  with us assms(2) [OF us] show "\<exists>body v d. us = body @ [(TOKEN_TYPE_EOF, v)] \<and> derives body d \<and> cur = ss0 @ d"
    by auto
next
  assume "\<exists>body v d. us = body @ [(TOKEN_TYPE_EOF, v)] \<and> derives body d \<and> cur = ss0 @ d"
  then show "zip_run (start_zipper ss0) us = ZAccept cur"
    by (auto simp: zip_run_append zip_run_derives start_zipper_def zip_step_def)
qed

lemma run_accepts_iff:
  "(\<exists>s. run_tokens (start_state (Config ss0)) (tokens_of i) = Inr (Accept s) \<and> root s = c) \<longleftrightarrow>
     (\<exists>cur. zip_run (start_zipper ss0) (tokens_of i) = ZAccept cur \<and> c = Config cur)"
  using Parse_simulates [of ss0 i]
  by (cases "(run_tokens (start_state (Config ss0)) (tokens_of i), zip_run (start_zipper ss0) (tokens_of i))"
        rule: corresponds.cases) auto

lemma run_tokens_final:
  assumes "final_token t"
  shows "run_tokens s (ts @ [(t, v)]) \<noteq> Inr (Next s')"
proof (induction ts arbitrary: s)
  case Nil
  with parse_step_final [OF assms] show ?case
    by (auto split: sum.splits parse_control.splits)
next
  case (Cons x ts)
  then show ?case by (cases x) (auto split: sum.splits parse_control.splits)
qed

lemma run_tokens_of_not_Next: "run_tokens s (tokens_of i) \<noteq> Inr (Next s')"
  using tokens_of_last [of i] run_tokens_final by metis

lemma Parse_True_iff:
  "(\<exists>out. Parse i c0 = Inr (True, c, out)) \<longleftrightarrow>
     (\<exists>s. run_tokens (start_state c0) (tokens_of i) = Inr (Accept s) \<and> root s = c)"
proof -
  have "(\<exists>out. Parse i c0 = Inr (True, c, out)) \<longleftrightarrow> without_output (Parse i c0) = Inr (True, c)"
    by (auto simp: without_output_def split: sum.splits)
  then show ?thesis
    by (auto simp: Parse_run loop_result_def split: sum.splits parse_control.splits)
qed

lemma Parse_accepts_iff:
  "(\<exists>out. Parse i (Config ss0) = Inr (True, c, out)) \<longleftrightarrow>
     (\<exists>body v d. without_comments (tokens_of i) = body @ [(TOKEN_TYPE_EOF, v)] \<and> derives body d \<and>
        c = Config (ss0 @ d))"
proof -
  have "zip_run (start_zipper ss0) (without_comments (tokens_of i)) = ZAccept cur \<longleftrightarrow>
     (\<exists>body v d. without_comments (tokens_of i) = body @ [(TOKEN_TYPE_EOF, v)] \<and> derives body d \<and> cur = ss0 @ d)"
    for cur
    by (rule zip_accepts_iff) (simp add: without_comments_def, erule tokens_of_split)
  then show ?thesis
    unfolding Parse_True_iff run_accepts_iff zip_run_comments by auto
qed

text \<open>
  C1: What Parse accepts and the tree it builds. Parse returns true, on a configuration that
  already holds the statements \<open>ss0\<close>, exactly when the tokens of the input, comments left out, are
  a token sequence of the configuration grammar followed by the end of the file; it has then
  appended to \<open>ss0\<close> exactly the statements, with their nested blocks, that the grammar assigns to
  the sequence.
\<close>

theorem Parse_accepts_grammar:
  "(\<exists>out. Parse i (Config ss0) = Inr (True, c, out)) \<longleftrightarrow>
     (\<exists>body v d. without_comments (tokens_of i) = body @ [(TOKEN_TYPE_EOF, v)] \<and> derives body d \<and>
        c = Config (ss0 @ d))"
  by (rule Parse_accepts_iff)

text \<open>The run up to a failing token, and the block tree at that point.\<close>

lemma run_tokens_FailE:
  assumes "run_tokens s ts = Inr (Fail s')"
  obtains pre t v post s1 where "ts = pre @ (t, v) # post" and "run_tokens s pre = Inr (Next s1)"
    and "root s' = root s1"
  using assms
proof (induction s ts arbitrary: thesis rule: run_tokens.induct)
  case (2 s t v ts)
  show ?case
  proof (cases "\<exists>s1. parse_step t v s = Inr (Next s1)")
    case True
    then obtain s1 where s1: "parse_step t v s = Inr (Next s1)" by blast
    with "2.prems"(2) have "run_tokens s1 ts = Inr (Fail s')" by simp
    then obtain pre u w post s2 where "ts = pre @ (u, w) # post" "run_tokens s1 pre = Inr (Next s2)"
      "root s' = root s2" using "2.IH" [OF s1 refl] by blast
    with s1 show ?thesis by (intro "2.prems"(1) [of "(t, v) # pre" u w post s2]) auto
  next
    case False
    with "2.prems"(2) have "parse_step t v s = Inr (Fail s')"
      by (auto split: sum.splits parse_control.splits)
    then have "root s' = root s"
      by (cases t) (auto simp: parse_step_cases and_then_eq_Inr Let_def split: if_splits)
    then show ?thesis by (intro "2.prems"(1) [of "[]" t v ts s]) auto
  qed
qed simp

lemma spells_plug:
  "spells ss0 fs ss ts \<Longrightarrow> \<exists>d. plug fs (Config (ss @ e)) = Config (ss0 @ d)"
proof (induction arbitrary: e rule: spells.induct)
  case (in_block fs ss ts ws bs cs v)
  then show ?case using in_block.IH [of "[Statement ws (Some (Config (cs @ e)))]"] by simp
qed simp

lemma run_Next_root:
  assumes "run_tokens (start_state (Config ss0)) ts = Inr (Next s)"
    and "\<forall>(t, v) \<in> set ts. t \<noteq> TOKEN_TYPE_QUOTED_STRING"
  shows "\<exists>d. root s = Config (ss0 @ d)"
proof -
  have "corresponds (run_tokens (start_state (Config ss0)) ts) (zip_run (start_zipper ss0) ts)"
    by (rule run_simulates [OF start_simulates assms(2)])
  with assms(1) obtain z where z: "zip_run (start_zipper ss0) ts = ZNext z" "simulates s z"
    by (cases "zip_run (start_zipper ss0) ts") auto
  then have "zip_run (start_zipper ss0) (without_comments ts) = ZNext z"
    by (simp add: zip_run_comments)
  then have "reads ss0 z ([] @ without_comments ts)"
    by (rule reads_run [OF start_reads]) (auto simp: without_comments_def)
  then obtain ts' where "spells ss0 (outer z) (done_statements z) ts'"
    by (auto simp: reads_def)
  from spells_plug [OF this] z(2) show ?thesis
    by (simp only: simulates_def)
qed

lemma run_no_fault: "\<not> isl (run_tokens (start_state (Config ss0)) (tokens_of i))"
  using Parse_simulates [of ss0 i]
  by (cases "(run_tokens (start_state (Config ss0)) (tokens_of i), zip_run (start_zipper ss0) (tokens_of i))"
        rule: corresponds.cases) auto

text \<open>
  C4: Parse is total and never undefined. On every input and every configuration object the loop
  ends without dereferencing a dangling block pointer, without reading the top of an empty stack
  and without popping one; whatever it returns, the statements the object already held are
  unchanged and the parsed ones stand after them. It reads, and prints a line for, at most one token
  more than the input has characters, and one more line when it fails.
\<close>

theorem Parse_total_and_appends:
  "\<exists>b d out. Parse i (Config ss0) = Inr (b, Config (ss0 @ d), out) \<and>
     length out \<le> length (unread i) + (if b then 1 else 2)"
proof -
  have "\<exists>b d. without_output (Parse i (Config ss0)) = Inr (b, Config (ss0 @ d))"
  proof (cases "run_tokens (start_state (Config ss0)) (tokens_of i)")
    case (Inl e)
    with run_no_fault [of ss0 i] show ?thesis by simp
  next
    case (Inr r)
    show ?thesis
    proof (cases r)
      case (Next s)
      with Inr run_tokens_of_not_Next show ?thesis by blast
    next
      case (Fail s)
      with Inr obtain pre t v post s1 where p: "tokens_of i = pre @ (t, v) # post"
        "run_tokens (start_state (Config ss0)) pre = Inr (Next s1)" "root s = root s1"
        by (auto elim: run_tokens_FailE)
      have "\<forall>(t, v) \<in> set pre. t \<noteq> TOKEN_TYPE_QUOTED_STRING"
        using tokens_of_types [of _ _ i] p(1) by auto
      with p run_Next_root have "\<exists>d. root s = Config (ss0 @ d)" by metis
      with Inr Fail show ?thesis by (auto simp: Parse_run loop_result_def)
    next
      case (Accept s)
      with Inr have "\<exists>out. Parse i (Config ss0) = Inr (True, root s, out)"
        by (auto simp: Parse_True_iff)
      with Parse_accepts_iff [of i ss0 "root s"] Inr Accept show ?thesis
        by (auto simp: Parse_run loop_result_def)
    qed
  qed
  then obtain b d out where p: "Parse i (Config ss0) = Inr (b, Config (ss0 @ d), out)"
    by (auto simp: without_output_def split: sum.splits)
  then show ?thesis
    using parse_loop_lines [of i "start_state (Config ss0)" "[]"] by (fastforce simp: Parse_def)
qed

section \<open>What Parse leaves in the tree\<close>

lemma modify_back_statement_ok:
  "modify_back f ss = Inr ss' \<Longrightarrow> (\<And>s. s \<in> set ss \<Longrightarrow> statement_ok (f s)) \<Longrightarrow>
     \<forall>s \<in> set (butlast ss). statement_ok s \<Longrightarrow> tokens_nonempty (Config ss')"
  by (auto simp: modify_back_def list_all_iff split: if_splits)

lemma top_statements_ok:
  assumes "top_statements s = Inr (p, ss)" and "tokens_nonempty (root s)"
  shows "\<forall>st \<in> set ss. statement_ok st"
proof -
  have "deref (root s) p = Some (Config ss)"
    using assms(1) by (auto simp: top_statements_def split: list.splits option.splits config.splits)
  with assms(2) have "tokens_nonempty (Config ss)" by (rule tokens_nonempty_deref)
  then show ?thesis by (simp add: list_all_iff)
qed

lemma normal_stepE:
  assumes "parse_step TOKEN_TYPE_NORMAL v s = Inr r"
  obtains "r = Fail s"
  | p ss arg ss' where "top_statements s = Inr (p, ss)" and "arg = ss \<or> arg = ss @ [Statement [] None]"
    and "modify_back (add_token v) arg = Inr ss'"
    and "r = Next (s\<lparr>root := store_at p (Config ss') (root s), last_token_type := TOKEN_TYPE_NORMAL\<rparr>)"
proof -
  define arg where "arg ss = (if last_token_type s \<noteq> TOKEN_TYPE_NORMAL then ss @ [Statement [] None] else ss)" for ss
  have arg: "arg ss = ss \<or> arg ss = ss @ [Statement [] None]" for ss
    by (simp add: arg_def)
  show thesis
  proof (cases "last_token_type s \<in> {TOKEN_TYPE_START, TOKEN_TYPE_STATEMENT_END, TOKEN_TYPE_START_BLOCK,
      TOKEN_TYPE_END_BLOCK, TOKEN_TYPE_NORMAL}")
    case True
    then obtain p ss ss' where "top_statements s = Inr (p, ss)"
      "modify_back (add_token v) (arg ss) = Inr ss'"
      "r = Next (s\<lparr>root := store_at p (Config ss') (root s), last_token_type := TOKEN_TYPE_NORMAL\<rparr>)"
      using assms unfolding parse_step_cases(4) arg_def [symmetric] if_P [OF True]
      by (auto simp: and_then_eq_Inr)
    with arg that(2) show thesis by blast
  next
    case False
    with assms that(1) show thesis unfolding parse_step_cases(4) if_not_P [OF False] by simp
  qed
qed

lemma start_block_stepE:
  assumes "parse_step TOKEN_TYPE_START_BLOCK v s = Inr r"
  obtains "r = Fail s"
  | p ss ss' where "top_statements s = Inr (p, ss)" and "modify_back (reset_child (Config [])) ss = Inr ss'"
    and "\<exists>t b cs. r = Next (s\<lparr>root := store_at p (Config ss') (root s), config_stack := cs,
      bracket_stack := b, last_token_type := t\<rparr>)"
proof (cases "last_token_type s = TOKEN_TYPE_NORMAL")
  case True
  with assms obtain p ss ss' cs where "top_statements s = Inr (p, ss)"
    "modify_back (reset_child (Config [])) ss = Inr ss'"
    "r = Next (s\<lparr>root := store_at p (Config ss') (root s), config_stack := cs,
      bracket_stack := TOKEN_TYPE_START_BLOCK # bracket_stack s, last_token_type := TOKEN_TYPE_START_BLOCK\<rparr>)"
    unfolding parse_step_cases(6) by (auto simp: and_then_eq_Inr)
  with that(2) show thesis by blast
next
  case False
  with assms that(1) show thesis unfolding parse_step_cases(6) by simp
qed

fun control_state :: "parse_control \<Rightarrow> parse_state" where
  "control_state (Next s) = s"
| "control_state (Fail s) = s"
| "control_state (Accept s) = s"

lemma parse_step_tokens_nonempty:
  assumes "parse_step t v s = Inr r" and "tokens_nonempty (root s)"
  shows "tokens_nonempty (root (control_state r))"
proof (cases t)
  case TOKEN_TYPE_NORMAL
  with assms(1) have "parse_step TOKEN_TYPE_NORMAL v s = Inr r" by simp
  then show ?thesis
  proof (cases rule: normal_stepE)
    case (2 p ss arg ss')
    have "tokens_nonempty (Config ss')"
      using top_statements_ok [OF 2(1) assms(2)] 2(2)
      by (intro modify_back_statement_ok [OF 2(3)])
         (auto simp: statement_ok_iff add_token_def dest: in_set_butlastD)
    with assms(2) 2 show ?thesis by (simp add: tokens_nonempty_store)
  qed (use assms in simp)
next
  case TOKEN_TYPE_START_BLOCK
  with assms(1) have "parse_step TOKEN_TYPE_START_BLOCK v s = Inr r" by simp
  then show ?thesis
  proof (cases rule: start_block_stepE)
    case (2 p ss ss')
    have "tokens_nonempty (Config ss')"
      using top_statements_ok [OF 2(1) assms(2)]
      by (intro modify_back_statement_ok [OF 2(2)])
         (auto simp: statement_ok_iff reset_child_def dest: in_set_butlastD)
    with assms(2) 2 show ?thesis by (auto simp: tokens_nonempty_store)
  qed (use assms in simp)
qed (use assms in \<open>auto simp: parse_step_cases(1,2,3,5,7,8,9) Let_def split: if_split_asm\<close>)

lemma parse_loop_tokens_nonempty:
  "tokens_nonempty (root s) \<Longrightarrow> parse_loop i s out = Inr (b, c, out') \<Longrightarrow> tokens_nonempty c"
proof (induction i arbitrary: s out rule: lexer.source_induct)
  case (1 i)
  obtain t v i' where n: "ParseToken i [] = (t, v, i')" by (metis prod.exhaust)
  with "1.prems"(2) obtain r where r: "parse_step t v s = Inr r"
    by (auto simp: parse_loop.simps [of i] Let_def split: sum.splits)
  show ?case
  proof (cases r)
    case (Next s')
    then have "parse_loop i' s' (out @ [token_line t v]) = Inr (b, c, out')"
      using "1.prems"(2) n r by (simp add: parse_loop.simps [of i])
    moreover have "tokens_nonempty (root s')"
      using parse_step_tokens_nonempty [OF r "1.prems"(1)] Next by simp
    moreover have "\<not> final_token t" using parse_step_Next_final r Next by blast
    ultimately show ?thesis using "1.IH" [of "(t, v)" i'] n by (simp add: next_token_def)
  qed (use "1.prems" n r parse_step_tokens_nonempty [OF r "1.prems"(1)]
       in \<open>auto simp: parse_loop.simps [of i] Let_def\<close>)
qed

text \<open>
  C5: Every statement has a token. Whatever the input, and whether Parse returns true or false, no
  statement of the resulting tree, at any depth, is without a token, provided the object passed in
  had none; so the readers of the configuration may take \<^verbatim>\<open>tokens_[0]\<close> of every statement.
\<close>

theorem Parse_tokens_nonempty:
  assumes "tokens_nonempty c0" and "Parse i c0 = Inr (b, c, out)"
  shows "tokens_nonempty c"
  using parse_loop_tokens_nonempty [of "start_state c0"] assms by (simp add: Parse_def start_state_def)

theorem Parse_tokens_nonempty_witness:
  "tokens_nonempty (Config [Statement [''listen'', ''80''] None])"
  by (rule Parse_tokens_nonempty [of "Config []" "open_stream ''listen 80;''" True _
        "[''TOKEN_TYPE_NORMAL: listen\<newline>'', ''TOKEN_TYPE_NORMAL: 80\<newline>'',
          ''TOKEN_TYPE_STATEMENT_END: ;\<newline>'', ''TOKEN_TYPE_EOF: \<newline>'']"]) (simp, code_simp)

lemma scan_plain_eof:
  assumes "plain_token w"
  shows "ParseToken (open_stream w) [] =
     (TOKEN_TYPE_EOF, w, \<lparr>unread = [], taken = rev w, not_good = True\<rparr>)"
proof (cases w)
  case (Cons c w')
  with assms have "word_start c" "\<forall>c \<in> set w'. word_char c"
    by (auto simp: plain_token_def list_all_iff)
  with Cons scan_word_chars [of w' "[c]" "[]" "[c]"] show ?thesis
    by (simp add: open_stream_def ParseToken_scan lex_simps scan_Nil after_loop_def Let_def)
qed (use assms in \<open>simp add: plain_token_def\<close>)

text \<open>
  C7: An unfinished statement at the end of the file. A word that runs into the end of the file is
  returned as the end of the file and lost: Parse accepts an input that consists of a single word
  without a semicolon, and leaves the configuration unchanged, although the header promises true
  exactly for valid configurations.
\<close>

theorem Parse_accepts_unfinished_word:
  assumes "plain_token w"
  shows "Parse (open_stream w) c = Inr (True, c, [token_line TOKEN_TYPE_EOF w])"
  using scan_plain_eof [OF assms]
  by (simp add: Parse_def parse_loop.simps start_state_def parse_step_cases(9))

theorem Parse_accepts_unfinished_word_witness:
  "Parse (open_stream ''listen'') (Config []) = Inr (True, Config [], [token_line TOKEN_TYPE_EOF ''listen''])"
  by (rule Parse_accepts_unfinished_word)
     (simp add: plain_token_def word_start_def word_char_def is_separator_def is_blank_def)

end
