(* ===== verification/Roundtrip.thy ===== *)
theory Roundtrip
  imports Grammar
begin

text \<open>
  \<^verbatim>\<open>NginxConfig::ToString\<close> and \<^verbatim>\<open>NginxConfigParser::Parse\<close> together: the printed form of a
  configuration scans to the tokens the grammar derives it from, so parsing it gives the
  configuration back.
\<close>

section \<open>Printable configurations\<close>

text \<open>
  The printer writes tokens as they are. It loses nothing when every statement has a token and
  every token is a plain word or a single-quoted string.
\<close>

fun printable :: "config \<Rightarrow> bool"
  and printable_statement :: "statement \<Rightarrow> bool" where
  "printable (Config ss) \<longleftrightarrow> list_all printable_statement ss"
| "printable_statement (Statement ts child) \<longleftrightarrow>
     ts \<noteq> [] \<and> list_all printable_token ts \<and> (case child of None \<Rightarrow> True | Some c \<Rightarrow> printable c)"

text \<open>The tokens of the printed form.\<close>

fun config_tokens :: "config \<Rightarrow> (TokenType \<times> string) list"
  and statement_tokens :: "statement \<Rightarrow> (TokenType \<times> string) list" where
  "config_tokens (Config ss) = concat (map statement_tokens ss)"
| "statement_tokens (Statement ts child) =
     word_tokens ts @
     (case child of
        None \<Rightarrow> [(TOKEN_TYPE_STATEMENT_END, '';'')]
      | Some c \<Rightarrow> (TOKEN_TYPE_START_BLOCK, ''{'') # config_tokens c @ [(TOKEN_TYPE_END_BLOCK, ''}'')])"

lemma derives_concat:
  "(\<And>s. s \<in> set ss \<Longrightarrow> derives (statement_tokens s) [s]) \<Longrightarrow> derives (concat (map statement_tokens ss)) ss"
proof (induction ss)
  case (Cons s ss)
  then have "derives (statement_tokens s @ concat (map statement_tokens ss)) ([s] @ ss)"
    by (intro derives_append) auto
  then show ?case by simp
qed (auto intro: derives.empty)

lemma config_tokens_derives:
  "printable c \<Longrightarrow> derives (config_tokens c) (statements c)"
  "printable_statement s \<Longrightarrow> derives (statement_tokens s) [s]"
proof (induction c and s rule: config_tokens_statement_tokens.induct)
  case (1 ss)
  then show ?case by (auto simp: list_all_iff intro: derives_concat)
next
  case (2 ts child)
  then show ?case
    by (cases child) (auto intro: derives_simple derives_block [of ts _ "statements c" for c, simplified])
qed

section \<open>Scanning the printed form\<close>

abbreviation stream :: "string \<Rightarrow> string \<Rightarrow> istream" where
  "stream cs p \<equiv> \<lparr>unread = cs, taken = p, not_good = False\<rparr>"

definition lexes :: "string \<Rightarrow> (TokenType \<times> string) list \<Rightarrow> bool" where
  "lexes text ts \<longleftrightarrow> (\<forall>rest p. \<exists>p'. tokens_of (stream (text @ rest) p) = ts @ tokens_of (stream rest p'))"

lemma lexes_append: "lexes a xs \<Longrightarrow> lexes b ys \<Longrightarrow> lexes (a @ b) (xs @ ys)"
  unfolding lexes_def by (metis append.assoc)

lemma lexes_Nil: "lexes [] []"
  by (auto simp: lexes_def)

lemma lexes_concat: "list_all2 lexes as bs \<Longrightarrow> lexes (concat as) (concat bs)"
  by (induction rule: list_all2_induct) (auto intro: lexes_append lexes_Nil)

lemma next_token_blanks:
  "\<forall>c \<in> set bs. is_blank c \<Longrightarrow> next_token (stream (bs @ cs) p) = next_token (stream cs (rev bs @ p))"
  by (simp add: next_token_def ParseToken_scan scan_blanks)

lemma tokens_of_cong: "next_token i = next_token j \<Longrightarrow> tokens_of i = tokens_of j"
  by (simp add: tokens_of.simps [of i] tokens_of.simps [of j])

lemma lexes_blanks: "\<forall>c \<in> set bs. is_blank c \<Longrightarrow> lexes bs []"
  unfolding lexes_def using tokens_of_cong [OF next_token_blanks] by fastforce

lemma lexes_punctuation:
  "lexes '';'' [(TOKEN_TYPE_STATEMENT_END, '';'')]"
  "lexes ''{'' [(TOKEN_TYPE_START_BLOCK, ''{'')]"
  "lexes ''}'' [(TOKEN_TYPE_END_BLOCK, ''}'')]"
  using ParseToken_punctuation [of "[]"]
  by (auto simp: lexes_def tokens_of.simps [of "stream (_ # _) _"] next_token_def final_token_def)

lemma lexes_word:
  assumes "printable_token t" and "may_follow_quote d" and "lexes (d # e) us"
  shows "lexes (t @ d # e) ((TOKEN_TYPE_NORMAL, t) # us)"
  unfolding lexes_def
proof (intro allI)
  fix rest p
  have "tokens_of (stream (t @ d # e @ rest) p) =
      (TOKEN_TYPE_NORMAL, t) # tokens_of (stream (d # e @ rest) (rev t @ p))"
    using ParseToken_word [of t d "[]"] assms(1,2)
    by (simp add: tokens_of.simps [of "stream (t @ _) _"] next_token_def final_token_def)
  with assms(3) show "\<exists>p'. tokens_of (stream ((t @ d # e) @ rest) p) =
      ((TOKEN_TYPE_NORMAL, t) # us) @ tokens_of (stream rest p')"
    by (auto simp: lexes_def)
qed

lemma lexes_words:
  assumes "ts \<noteq> []" and "list_all printable_token ts" and "may_follow_quote d" and "lexes (d # e) us"
  shows "lexes (join_tokens ts @ d # e) (word_tokens ts @ us)"
  using assms(1,2)
proof (induction ts rule: join_tokens.induct)
  case (2 t)
  then show ?case using lexes_word [OF _ assms(3,4)] by (simp add: word_tokens_def)
next
  case (3 t u ts)
  then have IH: "lexes (join_tokens (u # ts) @ d # e) (word_tokens (u # ts) @ us)" by simp
  have "lexes [c_space] []" by (rule lexes_blanks) (simp add: is_blank_def)
  from lexes_append [OF this IH]
  have sep: "lexes (c_space # join_tokens (u # ts) @ d # e) (word_tokens (u # ts) @ us)" by simp
  show ?case
    using lexes_word [OF _ _ sep, of t] 3 by (simp add: word_tokens_def may_follow_quote_def is_blank_def)
qed simp

lemma indent_blank: "\<forall>c \<in> set (indent depth). is_blank c"
  by (auto simp: indent_def is_blank_def)

lemma ToString_lexes:
  "printable c \<Longrightarrow> lexes (ToString depth c) (config_tokens c)"
  "printable_statement s \<Longrightarrow> lexes (statement_ToString depth s) (statement_tokens s)"
proof (induction depth c and depth s rule: ToString_statement_ToString.induct)
  case (1 depth ss)
  then have "\<forall>s \<in> set ss. lexes (statement_ToString depth s) (statement_tokens s)"
    by (simp add: list_all_iff)
  then have "list_all2 lexes (map (statement_ToString depth) ss) (map statement_tokens ss)"
    by (simp add: list.rel_map list.rel_refl_strong list_all2_same)
  from lexes_concat [OF this] show ?case by simp
next
  case (2 depth ts child)
  have nl: "lexes [c_nl] []"
    by (rule lexes_blanks) (simp add: is_blank_def)
  have ind: "lexes (indent depth) []"
    by (rule lexes_blanks [OF indent_blank])
  show ?case
  proof (cases child)
    case None
    have "lexes (join_tokens ts @ CHR '';'' # [c_nl]) (word_tokens ts @ [(TOKEN_TYPE_STATEMENT_END, '';'')])"
      using 2 lexes_append [OF lexes_punctuation(1) nl] by (intro lexes_words) (auto simp: may_follow_quote_def)
    from lexes_append [OF ind this] None show ?thesis by simp
  next
    case (Some c)
    with 2 have IH: "lexes (ToString (depth + 1) c) (config_tokens c)" by auto
    have close: "lexes ([c_nl] @ ToString (depth + 1) c @ indent depth @ ''}'' @ [c_nl])
        ([] @ config_tokens c @ [] @ [(TOKEN_TYPE_END_BLOCK, ''}'')] @ [])"
      by (intro lexes_append nl IH ind lexes_punctuation)
    have "lexes ('' '' @ ''{'' @ [c_nl] @ ToString (depth + 1) c @ indent depth @ ''}'' @ [c_nl])
        ([] @ [(TOKEN_TYPE_START_BLOCK, ''{'')] @ [] @ config_tokens c @ [] @ [(TOKEN_TYPE_END_BLOCK, ''}'')] @ [])"
      by (intro lexes_append lexes_punctuation close lexes_blanks) (simp add: is_blank_def)
    then have "lexes (join_tokens ts @ c_space # ''{'' @ [c_nl] @ ToString (depth + 1) c @ indent depth @ ''}'' @ [c_nl])
        (word_tokens ts @ (TOKEN_TYPE_START_BLOCK, ''{'') # config_tokens c @ [(TOKEN_TYPE_END_BLOCK, ''}'')])"
      using 2 by (intro lexes_words) (auto simp: may_follow_quote_def is_blank_def)
    from lexes_append [OF ind this] Some show ?thesis by simp
  qed
qed

section \<open>The round trip\<close>

lemma tokens_of_eof: "tokens_of (stream [] p) = [(TOKEN_TYPE_EOF, [])]"
  using ParseToken_blank_eof [of "[]" p]
  by (simp add: tokens_of.simps next_token_def final_token_def)

lemma without_comments_config:
  "without_comments (config_tokens c) = config_tokens c"
  "without_comments (statement_tokens s) = statement_tokens s"
proof (induction c and s rule: config_tokens_statement_tokens.induct)
  case (1 ss)
  then show ?case
    by (auto simp: without_comments_def filter_concat comp_def intro!: arg_cong [where f = concat])
next
  case (2 ts child)
  then show ?case
    by (auto simp: without_comments_def word_tokens_def comp_def split: option.splits)
qed

lemma ToString_Parse:
  assumes "printable c"
  shows "\<exists>out. Parse (open_stream (ToString 0 c)) (Config []) = Inr (True, c, out)"
proof -
  obtain p' where "tokens_of (open_stream (ToString 0 c)) = config_tokens c @ tokens_of (stream [] p')"
    using ToString_lexes(1) [OF assms, of 0] unfolding lexes_def open_stream_def
    by (metis append_Nil2)
  then have "without_comments (tokens_of (open_stream (ToString 0 c))) =
      config_tokens c @ [(TOKEN_TYPE_EOF, [])]"
    using without_comments_config(1) [of c] by (simp add: tokens_of_eof without_comments_def)
  moreover have "derives (config_tokens c) (statements c)"
    using assms by (rule config_tokens_derives)
  ultimately show ?thesis
    by (subst Parse_accepts_iff) (cases c, auto)
qed

text \<open>
  C2: Printing and parsing. For a configuration whose statements have tokens that are plain words
  or single-quoted strings, at any depth of nesting, parsing what ToString prints, into an empty
  configuration, succeeds and gives exactly that configuration back.
\<close>

theorem ToString_Parse_roundtrip:
  assumes "printable c"
  shows "\<exists>out. Parse (open_stream (ToString 0 c)) (Config []) = Inr (True, c, out)"
  using assms by (rule ToString_Parse)

theorem ToString_Parse_roundtrip_witness:
  "\<exists>out. Parse (open_stream (ToString 0
      (Config [Statement [''listen'', ''80''] None,
               Statement [''location'', ''/static/'', ''FileHandler'']
                 (Some (Config [Statement [''root'', [c_squote] @ ''/with space'' @ [c_squote]] None]))])))
     (Config []) =
    Inr (True, Config [Statement [''listen'', ''80''] None,
               Statement [''location'', ''/static/'', ''FileHandler'']
                 (Some (Config [Statement [''root'', [c_squote] @ ''/with space'' @ [c_squote]] None]))], out)"
  by (rule ToString_Parse_roundtrip)
     (simp add: printable_token_def plain_token_def single_quoted_token_def word_start_def
        word_char_def is_separator_def is_blank_def)

end
