(* ===== verification/Layout.thy ===== *)
theory Layout
  imports Roundtrip
begin

text \<open>
  The layouts of a configuration: the texts that spell its tokens, plainly or in double quotes, with any blanks
  and comments between them. All of them parse to it, so layout, comments and the choice of quoting carry no
  meaning.
\<close>

section \<open>Comments\<close>

definition comment_char :: "char \<Rightarrow> bool" where
  "comment_char c \<longleftrightarrow> c \<noteq> c_nl \<and> c \<noteq> c_cr"

lemma scan_open_comment [lex_simps]:
  "scan TOKEN_STATE_INITIAL_WHITESPACE v (CHR ''#'' # cs) p =
     scan TOKEN_STATE_TOKEN_TYPE_COMMENT ''#'' cs (CHR ''#'' # p)"
  by (subst scan_Cons) (simp add: scan_defs scan_def)

lemma scan_comment_chars:
  "\<forall>c \<in> set cm. comment_char c \<Longrightarrow>
     scan TOKEN_STATE_TOKEN_TYPE_COMMENT v (cm @ cs) p = scan TOKEN_STATE_TOKEN_TYPE_COMMENT (v @ cm) cs (rev cm @ p)"
proof (induction cm arbitrary: v p)
  case (Cons c cm)
  then have "scan TOKEN_STATE_TOKEN_TYPE_COMMENT v (c # cm @ cs) p =
      scan TOKEN_STATE_TOKEN_TYPE_COMMENT (v @ [c]) (cm @ cs) (c # p)"
    by (subst scan_Cons) (simp add: scan_defs scan_def comment_char_def)
  with Cons show ?case by simp
qed simp

lemma scan_comment_end [lex_simps]:
  "\<not> comment_char c \<Longrightarrow> scan TOKEN_STATE_TOKEN_TYPE_COMMENT v (c # cs) p =
     returned TOKEN_TYPE_COMMENT TOKEN_STATE_TOKEN_TYPE_COMMENT v cs (c # p)"
  by (subst scan_Cons) (auto simp: scan_defs returned_def comment_char_def)

lemma lexes_comment:
  assumes "\<forall>c \<in> set cm. comment_char c" and "\<not> comment_char d"
  shows "lexes (CHR ''#'' # cm @ [d]) [(TOKEN_TYPE_COMMENT, CHR ''#'' # cm)]"
  unfolding lexes_def
proof (intro allI)
  fix rest p
  have "next_token (stream (CHR ''#'' # cm @ d # rest) p) =
      ((TOKEN_TYPE_COMMENT, CHR ''#'' # cm), stream rest (d # rev cm @ CHR ''#'' # p))"
    using assms by (simp add: next_token_def ParseToken_scan lex_simps scan_comment_chars returned_def)
  then show "\<exists>p'. tokens_of (stream ((CHR ''#'' # cm @ [d]) @ rest) p) =
      [(TOKEN_TYPE_COMMENT, CHR ''#'' # cm)] @ tokens_of (stream rest p')"
    by (simp add: tokens_of.simps [of "stream (CHR ''#'' # _) _"] final_token_def) blast
qed

text \<open>A comment the file ends in.\<close>

lemma tokens_of_last_comment:
  assumes "\<forall>c \<in> set cm. comment_char c"
  shows "tokens_of (stream (CHR ''#'' # cm) p) = [(TOKEN_TYPE_EOF, CHR ''#'' # cm)]"
  using scan_comment_chars [OF assms, of "''#''" "[]" "CHR ''#'' # p"]
  by (simp add: tokens_of.simps [of "stream (_ # _) _"] next_token_def ParseToken_scan lex_simps scan_Nil
      after_loop_def Let_def final_token_def)

section \<open>Reading up to comments\<close>

definition reads_as :: "string \<Rightarrow> (TokenType \<times> string) list \<Rightarrow> bool" where
  "reads_as text ts \<longleftrightarrow> (\<exists>us. lexes text us \<and> without_comments us = ts)"

lemma reads_as_append: "reads_as a xs \<Longrightarrow> reads_as b ys \<Longrightarrow> reads_as (a @ b) (xs @ ys)"
  unfolding reads_as_def without_comments_def using lexes_append by fastforce

lemma reads_as_Cons: "lexes [c] xs \<Longrightarrow> without_comments xs = xs \<Longrightarrow> reads_as b ys \<Longrightarrow> reads_as (c # b) (xs @ ys)"
  using reads_as_append [of "[c]" xs b ys] by (auto simp: reads_as_def)

text \<open>How a token is written: as it is, or in double quotes.\<close>

inductive writes :: "string \<Rightarrow> string \<Rightarrow> bool" where
  bare: "printable_token t \<Longrightarrow> writes t t"
| quoted: "t = [] \<or> last t \<noteq> c_backslash \<Longrightarrow> writes (c_dquote # dquote_text t @ [c_dquote]) t"

lemma ParseToken_quoted:
  assumes "t = [] \<or> last t \<noteq> c_backslash" and "may_follow_quote d"
  shows "next_token (stream (c_dquote # dquote_text t @ c_dquote # d # rest) p) =
    ((TOKEN_TYPE_NORMAL, t), stream (d # rest) (c_dquote # rev (dquote_text t) @ c_dquote # p))"
  using assms by (simp add: next_token_def ParseToken_scan lex_simps scan_dquote_text returned_def)

lemma lexes_written:
  assumes "writes w t" and "may_follow_quote d" and "lexes (d # e) us"
  shows "lexes (w @ d # e) ((TOKEN_TYPE_NORMAL, t) # us)"
  using assms(1)
proof cases
  case bare
  then show ?thesis using lexes_word assms(2,3) by blast
next
  case quoted
  show ?thesis unfolding lexes_def
  proof (intro allI)
    fix rest p
    have "tokens_of (stream (w @ d # e @ rest) p) =
        (TOKEN_TYPE_NORMAL, t) # tokens_of (stream (d # e @ rest) (c_dquote # rev (dquote_text t) @ c_dquote # p))"
      using ParseToken_quoted [OF quoted(2) assms(2), of "e @ rest" p]
      by (simp add: tokens_of.simps [of "stream (c_dquote # _) _"] quoted(1) final_token_def)
    with assms(3) show "\<exists>p'. tokens_of (stream ((w @ d # e) @ rest) p) =
        ((TOKEN_TYPE_NORMAL, t) # us) @ tokens_of (stream rest p')"
      by (auto simp: lexes_def)
  qed
qed

lemma reads_as_written:
  assumes "writes w t" and "may_follow_quote d" and "reads_as (d # e) ts"
  shows "reads_as (w @ d # e) ((TOKEN_TYPE_NORMAL, t) # ts)"
proof -
  obtain us where "lexes (d # e) us" "without_comments us = ts"
    using assms(3) by (auto simp: reads_as_def)
  with lexes_written [OF assms(1,2)] show ?thesis
    unfolding reads_as_def
    by (intro exI [of _ "(TOKEN_TYPE_NORMAL, t) # us"]) (auto simp: without_comments_def)
qed

section \<open>Layouts\<close>

text \<open>
  What may stand between tokens: blanks and comments with the end of their line. Behind a word it begins with a
  blank, since \<^verbatim>\<open>#\<close> does not end a word.
\<close>

inductive gap :: "string \<Rightarrow> bool" where
  none: "gap []"
| blank: "is_blank c \<Longrightarrow> gap g \<Longrightarrow> gap (c # g)"
| comment: "\<forall>c \<in> set cm. comment_char c \<Longrightarrow> \<not> comment_char d \<Longrightarrow> gap g \<Longrightarrow> gap (CHR ''#'' # cm @ d # g)"

inductive spells_words :: "string \<Rightarrow> string list \<Rightarrow> bool" where
  last_word: "writes w t \<Longrightarrow> spells_words w [t]"
| last_gap: "writes w t \<Longrightarrow> is_blank c \<Longrightarrow> gap g \<Longrightarrow> spells_words (w @ c # g) [t]"
| more: "writes w t \<Longrightarrow> is_blank c \<Longrightarrow> gap g \<Longrightarrow> spells_words ws ts \<Longrightarrow> spells_words (w @ c # g @ ws) (t # ts)"

inductive layout :: "string \<Rightarrow> statement list \<Rightarrow> bool" where
  nothing: "layout [] []"
| space: "gap g \<Longrightarrow> layout l ss \<Longrightarrow> layout (g @ l) ss"
| simple: "spells_words ws ts \<Longrightarrow> layout l ss \<Longrightarrow> layout (ws @ CHR '';'' # l) (Statement ts None # ss)"
| block: "spells_words ws ts \<Longrightarrow> layout l cs \<Longrightarrow> layout l' ss \<Longrightarrow>
    layout (ws @ CHR ''{'' # l @ CHR ''}'' # l') (Statement ts (Some (Config cs)) # ss)"

lemma gap_reads: "gap g \<Longrightarrow> reads_as g []"
proof (induction rule: gap.induct)
  case none
  then show ?case using lexes_Nil by (auto simp: reads_as_def without_comments_def)
next
  case (blank c g)
  then show ?case
    using reads_as_Cons [of c "[]" g "[]"] lexes_blanks [of "[c]"] by (simp add: without_comments_def)
next
  case (comment cm d g)
  have "reads_as (CHR ''#'' # cm @ [d]) []"
    unfolding reads_as_def
    by (intro exI [of _ "[(TOKEN_TYPE_COMMENT, CHR ''#'' # cm)]"] conjI lexes_comment comment.hyps)
      (simp add: without_comments_def)
  from reads_as_append [OF this comment.IH] show ?case by simp
qed

lemma words_read:
  "spells_words w ts \<Longrightarrow> d = CHR '';'' \<or> d = CHR ''{'' \<Longrightarrow> reads_as (d # e) us \<Longrightarrow>
    reads_as (w @ d # e) (word_tokens ts @ us)"
proof (induction arbitrary: d e us rule: spells_words.induct)
  case (last_word w t)
  then show ?case
    using reads_as_written [of w t d e us] by (auto simp: may_follow_quote_def word_tokens_def)
next
  case (last_gap w t c g)
  have "reads_as (c # g @ d # e) us"
    using reads_as_append [OF gap_reads [OF gap.blank [OF last_gap(2,3)]] last_gap.prems(2)] by simp
  then show ?case
    using reads_as_written [of w t c "g @ d # e" us] last_gap.hyps by (simp add: may_follow_quote_def word_tokens_def)
next
  case (more w t c g ws ts)
  have "reads_as (c # g @ ws @ d # e) (word_tokens ts @ us)"
    using reads_as_append [OF gap_reads [OF gap.blank [OF more(2,3)]] more.IH [OF more.prems]] by simp
  then show ?case
    using reads_as_written [of w t c "g @ ws @ d # e"] more.hyps by (simp add: may_follow_quote_def word_tokens_def)
qed

lemma layout_reads: "layout l ss \<Longrightarrow> reads_as l (config_tokens (Config ss))"
proof (induction rule: layout.induct)
  case nothing
  then show ?case using gap_reads [OF gap.none] by simp
next
  case (space g l ss)
  then show ?case using reads_as_append [OF gap_reads] by fastforce
next
  case (simple ws ts l ss)
  have "reads_as (CHR '';'' # l) ((TOKEN_TYPE_STATEMENT_END, '';'') # config_tokens (Config ss))"
    using reads_as_Cons [OF lexes_punctuation(1) _ simple.IH] by (simp add: without_comments_def)
  from words_read [OF simple.hyps(1) _ this] show ?case by simp
next
  case (block ws ts l cs l' ss)
  have "reads_as (CHR ''}'' # l') ((TOKEN_TYPE_END_BLOCK, ''}'') # config_tokens (Config ss))"
    using reads_as_Cons [OF lexes_punctuation(3) _ block.IH(2)] by (simp add: without_comments_def)
  from reads_as_append [OF block.IH(1) this]
  have "reads_as (CHR ''{'' # l @ CHR ''}'' # l') ((TOKEN_TYPE_START_BLOCK, ''{'') #
      config_tokens (Config cs) @ (TOKEN_TYPE_END_BLOCK, ''}'') # config_tokens (Config ss))"
    using reads_as_Cons [OF lexes_punctuation(2)] by (fastforce simp: without_comments_def)
  from words_read [OF block.hyps(1) _ this] show ?case by simp
qed

lemma words_nonempty: "spells_words w ts \<Longrightarrow> ts \<noteq> []"
  by (induction rule: spells_words.induct) auto

lemma layout_derives: "layout l ss \<Longrightarrow> derives (config_tokens (Config ss)) ss"
proof (induction rule: layout.induct)
  case (simple ws ts l ss)
  from derives_append [OF derives_simple [OF words_nonempty [OF simple.hyps(1)]] simple.IH]
  show ?case by simp
next
  case (block ws ts l cs l' ss)
  from derives_append [OF derives_block [OF words_nonempty [OF block.hyps(1)] block.IH(1)] block.IH(2)]
  show ?case by simp
qed (auto intro: derives.empty)

text \<open>C13: layout carries no meaning. Any text that spells the tokens of a configuration, each bare or in double
quotes, with its semicolons and braces, and with any blanks and comments in between and at the end, parses
to that configuration.\<close>

theorem layouts_parse:
  assumes "layout l ss" and "tail = [] \<or> (\<exists>cm. tail = CHR ''#'' # cm \<and> (\<forall>c \<in> set cm. comment_char c))"
  shows "\<exists>out. Parse (open_stream (l @ tail)) (Config []) = Inr (True, Config ss, out)"
proof -
  obtain us where us: "lexes l us" "without_comments us = config_tokens (Config ss)"
    using layout_reads [OF assms(1)] unfolding reads_as_def by blast
  then obtain p' where "tokens_of (open_stream (l @ tail)) = us @ tokens_of (stream tail p')"
    unfolding lexes_def open_stream_def by blast
  moreover have "\<exists>v. tokens_of (stream tail p') = [(TOKEN_TYPE_EOF, v)]"
    using assms(2) tokens_of_eof tokens_of_last_comment by blast
  ultimately obtain v where
    "without_comments (tokens_of (open_stream (l @ tail))) = config_tokens (Config ss) @ [(TOKEN_TYPE_EOF, v)]"
    using us(2) by (auto simp: without_comments_def)
  with layout_derives [OF assms(1)] show ?thesis
    unfolding Parse_accepts_iff by fastforce
qed

lemma layouts_parse_witness:
  "\<exists>out. Parse (open_stream (''listen'' @ [c_tab] @ ''# port'' @ [c_nl] @ [c_dquote] @ ''80'' @ [c_dquote] @ '';'' @ ''# end''))
     (Config []) = Inr (True, Config [Statement [''listen'', ''80''] None], out)"
proof -
  have port: "gap (''# port'' @ [c_nl])"
    using gap.comment [of "'' port''" c_nl "[]"] by (simp add: comment_char_def gap.none)
  have "writes ''listen'' ''listen''"
    by (rule writes.bare) (simp add: printable_token_def plain_token_def word_start_def word_char_def
        is_separator_def is_blank_def)
  moreover have "writes ([c_dquote] @ ''80'' @ [c_dquote]) ''80''"
    using writes.quoted [of "''80''"] by (simp add: dquote_text_def)
  ultimately have "spells_words (''listen'' @ c_tab # (''# port'' @ [c_nl]) @ [c_dquote] @ ''80'' @ [c_dquote]) [''listen'', ''80'']"
    using port by (intro spells_words.intros) (simp_all add: is_blank_def)
  from layout.simple [OF this layout.nothing]
  have "layout (''listen'' @ [c_tab] @ ''# port'' @ [c_nl] @ [c_dquote] @ ''80'' @ [c_dquote] @ '';'') [Statement [''listen'', ''80''] None]"
    by simp
  from layouts_parse [OF this, of "''# end''"] show ?thesis
    by (simp add: comment_char_def)
qed

end
