(* ===== verification/Std_Map.thy ===== *)
theory Std_Map
  imports Prelude
begin

text \<open>
  \<^verbatim>\<open>std::map\<close> as the sources use it: lookup, assignment through \<^verbatim>\<open>operator[]\<close>, and iteration in the
  order of the keys. The interface is the locale \<open>ordered_map\<close>; what its clients need of it (the
  tally of the status page, the log of response codes, iteration that depends on the contents only)
  is proved inside, and the model's maps, association lists kept in key order, interpret it.
\<close>

section \<open>The interface\<close>

locale ordered_map =
  fixes empty :: "'m"
    and lookup :: "'m \<Rightarrow> 'k::linorder \<Rightarrow> 'v option"
    and put :: "'k \<Rightarrow> 'v \<Rightarrow> 'm \<Rightarrow> 'm"
    and entries :: "'m \<Rightarrow> ('k \<times> 'v) list"
    and ok :: "'m \<Rightarrow> bool"
  assumes ok_empty: "ok empty"
    and ok_put: "ok m \<Longrightarrow> ok (put k v m)"
    and lookup_empty: "lookup empty k = None"
    and lookup_put: "ok m \<Longrightarrow> lookup (put k v m) k' = (if k' = k then Some v else lookup m k')"
    and entries_lookup: "ok m \<Longrightarrow> (k, v) \<in> set (entries m) \<longleftrightarrow> lookup m k = Some v"
    and entries_order: "ok m \<Longrightarrow> sorted_wrt (<) (map fst (entries m))"
begin

lemma distinct_keys: "ok m \<Longrightarrow> distinct (map fst (entries m))"
  using entries_order strict_sorted_iff by blast

lemma keys_lookup: "ok m \<Longrightarrow> k \<in> set (map fst (entries m)) \<longleftrightarrow> lookup m k \<noteq> None"
  using entries_lookup by force

lemma map_of_entries: "ok m \<Longrightarrow> map_of (entries m) k = lookup m k"
  by (metis distinct_keys entries_lookup map_of_eq_Some_iff not_None_eq)

lemma entries_by_keys:
  assumes "ok m"
  shows "entries m = map (\<lambda>k. (k, the (lookup m k))) (map fst (entries m))"
proof -
  have "(fst e, the (lookup m (fst e))) = e" if "e \<in> set (entries m)" for e
    using entries_lookup [OF assms, of "fst e" "snd e"] that by (cases e) simp
  then show ?thesis by (simp add: map_idI o_def)
qed

lemma entries_ext:
  assumes "ok m" and "ok m'" and "\<And>k. lookup m k = lookup m' k"
  shows "entries m = entries m'"
proof -
  have sets: "set (map fst (entries m)) = set (map fst (entries m'))"
    by (intro set_eqI) (simp del: set_map add: keys_lookup [OF assms(1)] keys_lookup [OF assms(2)] assms(3))
  have keys: "map fst (entries m) = map fst (entries m')"
    by (rule strict_sorted_equal [OF entries_order [OF assms(2)] entries_order [OF assms(1)] sets])
  have "entries m = map (\<lambda>k. (k, the (lookup m k))) (map fst (entries m))"
    by (rule entries_by_keys [OF assms(1)])
  also have "\<dots> = map (\<lambda>k. (k, the (lookup m' k))) (map fst (entries m'))"
    unfolding keys assms(3) ..
  also have "\<dots> = entries m'"
    by (rule entries_by_keys [OF assms(2), symmetric])
  finally show ?thesis .
qed

lemma put_put: "ok m \<Longrightarrow> entries (put k v (put k w m)) = entries (put k v m)"
  by (intro entries_ext ok_put; simp add: ok_put lookup_put)

end

text \<open>A map from keys to counters, incremented as \<^verbatim>\<open>StatusHandler::condense\<close> does.\<close>

locale counting_map = ordered_map empty lookup put entries ok
  for empty :: "'m"
    and lookup :: "'m \<Rightarrow> 'k::linorder \<Rightarrow> nat option"
    and put :: "'k \<Rightarrow> nat \<Rightarrow> 'm \<Rightarrow> 'm"
    and entries :: "'m \<Rightarrow> ('k \<times> nat) list"
    and ok :: "'m \<Rightarrow> bool" +
  fixes count_in :: "'k \<Rightarrow> 'm \<Rightarrow> 'm"
  assumes count_in: "count_in k m = put k (case lookup m k of None \<Rightarrow> 1 | Some c \<Rightarrow> c + 1) m"
begin

lemma ok_count: "ok m \<Longrightarrow> ok (count_in k m)"
  by (simp add: count_in ok_put)

lemma ok_fold_count: "ok m \<Longrightarrow> ok (fold count_in ks m)"
  by (induction ks arbitrary: m) (auto simp: ok_count)

lemma lookup_fold_count:
  "ok m \<Longrightarrow> lookup (fold count_in ks m) k =
     (if k \<in> set ks then Some (count_list ks k + (case lookup m k of None \<Rightarrow> 0 | Some c \<Rightarrow> c))
      else lookup m k)"
proof (induction ks arbitrary: m)
  case (Cons x ks)
  then show ?case
    by (auto simp: ok_count count_in lookup_put ok_put count_notin split: option.splits)
qed simp

lemma lookup_tally:
  "lookup (fold count_in ks empty) k = (if k \<in> set ks then Some (count_list ks k) else None)"
  by (simp add: lookup_fold_count ok_empty lookup_empty)

lemma ok_tally: "ok (fold count_in ks empty)"
  by (simp add: ok_fold_count ok_empty)

text \<open>A tally loses nothing: its counters add up to the number of keys counted.\<close>

lemma sum_tally: "sum_list (map snd (entries (fold count_in ks empty))) = length ks"
proof -
  let ?m = "fold count_in ks empty"
  let ?keys = "map fst (entries ?m)"
  have keys: "set ?keys = set ks"
    by (intro set_eqI) (simp del: set_map add: keys_lookup [OF ok_tally] lookup_tally)
  have "entries ?m = map (\<lambda>k. (k, the (lookup ?m k))) ?keys"
    by (rule entries_by_keys [OF ok_tally])
  then have "map snd (entries ?m) = map (\<lambda>k. the (lookup ?m k)) ?keys"
    by (metis (no_types, lifting) list.map_comp list.map_cong snd_conv o_apply)
  also have "\<dots> = map (count_list ks) ?keys"
    using keys by (intro map_cong) (auto simp: lookup_tally simp del: set_map)
  finally have "sum_list (map snd (entries ?m)) = (\<Sum>k \<in> set ?keys. count_list ks k)"
    using distinct_keys [OF ok_tally, of ks] by (simp only: sum_list_distinct_conv_sum_set)
  then show ?thesis
    unfolding keys by (simp add: sum_count_set)
qed

end

text \<open>A map from keys to vectors, appended to as \<^verbatim>\<open>session::send_response\<close> does.\<close>

locale log_map = ordered_map empty lookup put entries ok
  for empty :: "'m"
    and lookup :: "'m \<Rightarrow> 'k::linorder \<Rightarrow> 'x list option"
    and put :: "'k \<Rightarrow> 'x list \<Rightarrow> 'm \<Rightarrow> 'm"
    and entries :: "'m \<Rightarrow> ('k \<times> 'x list) list"
    and ok :: "'m \<Rightarrow> bool" +
  fixes push_back :: "'k \<Rightarrow> 'x \<Rightarrow> 'm \<Rightarrow> 'm"
  assumes push_back: "push_back k x m = put k ((case lookup m k of None \<Rightarrow> [] | Some xs \<Rightarrow> xs) @ [x]) m"
begin

lemma ok_push: "ok m \<Longrightarrow> ok (push_back k x m)"
  by (simp add: push_back ok_put)

lemma lookup_push:
  "ok m \<Longrightarrow> lookup (push_back k x m) k' =
     (if k' = k then Some ((case lookup m k of None \<Rightarrow> [] | Some xs \<Rightarrow> xs) @ [x]) else lookup m k')"
  by (simp add: push_back lookup_put)

end

section \<open>Maps as sorted association lists\<close>

type_synonym ('k, 'v) std_map = "('k \<times> 'v) list"

fun map_put :: "'k::linorder \<Rightarrow> 'v \<Rightarrow> ('k, 'v) std_map \<Rightarrow> ('k, 'v) std_map" where
  "map_put k v [] = [(k, v)]"
| "map_put k v ((k', v') # m) =
     (if k < k' then (k, v) # (k', v') # m
      else if k = k' then (k, v) # m
      else (k', v') # map_put k v m)"

definition map_ok :: "('k::linorder, 'v) std_map \<Rightarrow> bool" where
  "map_ok m \<longleftrightarrow> sorted_wrt (<) (map fst m)"

lemma map_put_keys: "set (map fst (map_put k v m)) = insert k (set (map fst m))"
  by (induction k v m rule: map_put.induct) auto

lemma map_ok_put: "map_ok m \<Longrightarrow> map_ok (map_put k v m)"
proof (induction k v m rule: map_put.induct)
  case (2 k v k' v' m)
  then show ?case
    using map_put_keys [of k v m] by (auto simp: map_ok_def)
qed (simp add: map_ok_def)

lemma map_of_put: "map_ok m \<Longrightarrow> map_of (map_put k v m) k' = (if k' = k then Some v else map_of m k')"
proof (induction k v m rule: map_put.induct)
  case (2 k v k1 v1 m)
  have "map_ok m"
    using 2(2) by (simp add: map_ok_def)
  moreover have "map_of m k' = None" if "k' \<le> k1"
    using 2(2) that by (force simp: map_ok_def map_of_eq_None_iff)
  ultimately show ?case
    using 2(1) by (cases k k1 rule: linorder_cases) auto
qed simp

lemma map_ok_distinct: "map_ok m \<Longrightarrow> distinct (map fst m)"
  unfolding map_ok_def using strict_sorted_iff by blast

interpretation std: ordered_map "[]" map_of map_put "\<lambda>m. m" map_ok
proof unfold_locales
  fix m :: "('a \<times> 'b) list" and k v
  assume "map_ok m"
  then show "(k, v) \<in> set m \<longleftrightarrow> map_of m k = Some v"
    by (simp add: map_ok_distinct)
qed (auto simp: map_ok_put map_of_put, auto simp: map_ok_def)

definition map_count :: "'k::linorder \<Rightarrow> ('k, nat) std_map \<Rightarrow> ('k, nat) std_map" where
  "map_count k m = map_put k (case map_of m k of None \<Rightarrow> 1 | Some c \<Rightarrow> c + 1) m"

definition map_push :: "'k::linorder \<Rightarrow> 'x \<Rightarrow> ('k, 'x list) std_map \<Rightarrow> ('k, 'x list) std_map" where
  "map_push k x m = map_put k ((case map_of m k of None \<Rightarrow> [] | Some xs \<Rightarrow> xs) @ [x]) m"

interpretation counter: counting_map "[]" map_of map_put "\<lambda>m. m" map_ok map_count
  by unfold_locales (simp add: map_count_def)

interpretation log: log_map "[]" map_of map_put "\<lambda>m. m" map_ok map_push
  by unfold_locales (simp add: map_push_def)

end
