(* ===== verification/Http.thy ===== *)
theory Http
  imports Cpp_String
begin

text \<open>
  The values the handlers exchange with the HTTP library and with the machine: requests, responses,
  the operations of Boost.Beast the sources call (a record of parameters, with the documented
  behaviour the properties rely on as the predicate \<open>beast_ok\<close>), and the file system and network
  (a second record of parameters).
\<close>

section \<open>Requests and responses\<close>

datatype verb = Verb_get | Verb_other

type_synonym header = "(string \<times> string) list"

record request =
  verb :: verb
  method_string :: string
  target :: string
  version :: nat
  req_header :: header

record response =
  result_int :: nat
  resp_header :: header
  body :: string

section \<open>The library\<close>

text \<open>
  \<open>fresh\<close> is a default constructed response; \<open>set_field\<close> and \<open>get_field\<close> are \<^verbatim>\<open>set\<close> and
  \<^verbatim>\<open>operator[]\<close> of the header; \<open>field_name\<close> is \<^verbatim>\<open>http::to_string(field.name())\<close>;
  \<open>is_redirection\<close> tells whether \<^verbatim>\<open>to_status_class(result())\<close> is \<^verbatim>\<open>redirection\<close>; \<open>after_method\<close> and
  \<open>after_target\<close> are the bytes of memory behind the two string views; \<open>parse_request\<close> is a
  \<^verbatim>\<open>request_parser\<close> fed once with a buffer: \<open>None\<close> stands for a set error code.
\<close>

record beast =
  fresh :: response
  set_field :: "string \<Rightarrow> string \<Rightarrow> header \<Rightarrow> header"
  get_field :: "string \<Rightarrow> header \<Rightarrow> string"
  content_length :: "nat \<Rightarrow> header \<Rightarrow> header"
  prepare_payload :: "response \<Rightarrow> response"
  field_name :: "string \<Rightarrow> string"
  is_redirection :: "nat \<Rightarrow> bool"
  after_method :: "request \<Rightarrow> string"
  after_target :: "request \<Rightarrow> string"
  parse_request :: "string \<Rightarrow> request option"

abbreviation content_type :: string where "content_type \<equiv> ''Content-Type''"
abbreviation location_field :: string where "location_field \<equiv> ''Location''"

definition with_field :: "beast \<Rightarrow> string \<Rightarrow> string \<Rightarrow> response \<Rightarrow> response" where
  "with_field b f v r = r\<lparr>resp_header := set_field b f v (resp_header r)\<rparr>"

definition field_of :: "beast \<Rightarrow> string \<Rightarrow> response \<Rightarrow> string" where
  "field_of b f r = get_field b f (resp_header r)"

text \<open>
  Documented behaviour: a fresh response has status 200, which is no
  redirection, no content type and an empty body; a field that was set
  reads back and other fields keep their value; \<^verbatim>\<open>content_length\<close> and \<^verbatim>\<open>prepare_payload\<close> touch the
  framing fields only.
\<close>

definition beast_ok :: "beast \<Rightarrow> bool" where
  "beast_ok b \<longleftrightarrow>
     result_int (fresh b) = 200 \<and> \<not> is_redirection b 200 \<and> body (fresh b) = [] \<and> field_of b content_type (fresh b) = [] \<and>
     (\<forall>f v h. get_field b f (set_field b f v h) = v) \<and>
     (\<forall>f g v h. g \<noteq> f \<longrightarrow> get_field b g (set_field b f v h) = get_field b g h) \<and>
     (\<forall>n h. get_field b content_type (content_length b n h) = get_field b content_type h) \<and>
     (\<forall>r. result_int (prepare_payload b r) = result_int r \<and> body (prepare_payload b r) = body r \<and>
          field_of b content_type (prepare_payload b r) = field_of b content_type r)"

lemma beast_fresh [beast_simps]:
  assumes "beast_ok b"
  shows "result_int (fresh b) = 200" "\<not> is_redirection b 200" "body (fresh b) = []" "field_of b content_type (fresh b) = []"
  using assms by (simp_all add: beast_ok_def)

lemma beast_set:
  assumes "beast_ok b"
  shows "get_field b f (set_field b f v h) = v"
    and "g \<noteq> f \<Longrightarrow> get_field b g (set_field b f v h) = get_field b g h"
  using assms by (simp_all add: beast_ok_def)

lemma beast_content_length:
  "beast_ok b \<Longrightarrow> get_field b content_type (content_length b n h) = get_field b content_type h"
  by (simp add: beast_ok_def)

lemma beast_prepare [beast_simps]:
  assumes "beast_ok b"
  shows "result_int (prepare_payload b r) = result_int r" "body (prepare_payload b r) = body r"
    "field_of b content_type (prepare_payload b r) = field_of b content_type r"
  using assms by (simp_all add: beast_ok_def)

lemma field_of_update [simp]:
  "field_of b f (r\<lparr>result_int := n\<rparr>) = field_of b f r"
  "field_of b f (r\<lparr>body := t\<rparr>) = field_of b f r"
  by (simp_all add: field_of_def)

lemma with_field_simps [simp]:
  "result_int (with_field b f v r) = result_int r"
  "body (with_field b f v r) = body r"
  by (simp_all add: with_field_def)

lemma field_of_with_field [beast_simps]: "beast_ok b \<Longrightarrow> field_of b f (with_field b f v r) = v"
  by (simp add: field_of_def with_field_def beast_set)

text \<open>A small library that behaves so, on which the witnesses run.\<close>

definition plain_set :: "string \<Rightarrow> string \<Rightarrow> header \<Rightarrow> header" where
  "plain_set f v h = (f, v) # filter (\<lambda>e. fst e \<noteq> f) h"

definition plain_get :: "string \<Rightarrow> header \<Rightarrow> string" where
  "plain_get f h = (case map_of h f of None \<Rightarrow> [] | Some v \<Rightarrow> v)"

definition plain_beast :: beast where
  "plain_beast =
     \<lparr>fresh = \<lparr>result_int = 200, resp_header = [], body = []\<rparr>,
      set_field = plain_set, get_field = plain_get,
      content_length = (\<lambda>n. plain_set ''Content-Length'' (to_string n)),
      prepare_payload = (\<lambda>r. r\<lparr>resp_header := plain_set ''Content-Length'' (to_string (length (body r)))
        (resp_header r)\<rparr>),
      field_name = (\<lambda>f. f), is_redirection = (\<lambda>n. 300 \<le> n \<and> n < 400),
      after_method = (\<lambda>_. [c_nul]), after_target = (\<lambda>_. [c_nul]),
      parse_request = (\<lambda>t. if take 5 t = ''GET /''
        then Some \<lparr>verb = Verb_get, method_string = ''GET'',
                   target = takeWhile (\<lambda>c. c \<noteq> c_space) (drop 4 t), version = 11, req_header = []\<rparr>
        else None)\<rparr>"

lemma plain_get_set:
  "plain_get g (plain_set f v h) = (if g = f then v else plain_get g h)"
proof -
  have "map_of (filter (\<lambda>e. fst e \<noteq> f) h) g = map_of h g" if "g \<noteq> f"
    using that by (induction h) auto
  then show ?thesis by (simp add: plain_get_def plain_set_def)
qed

lemma plain_beast_ok: "beast_ok plain_beast"
  by (simp add: beast_ok_def plain_beast_def field_of_def plain_get_set) (simp add: plain_get_def)

section \<open>The machine\<close>

text \<open>
  \<open>opens\<close> and \<open>content\<close>: whether an input stream on a path is good after opening, and the bytes read
  from it. \<open>plain_exchange\<close> and \<open>tls_exchange\<close>: what the response object holds after the \<open>n\<close>-th outside
  exchange of a request with a host for a target, a failed exchange (whose exception the source
  catches) included.
\<close>

record world =
  opens :: "string \<Rightarrow> bool"
  content :: "string \<Rightarrow> string"
  plain_exchange :: "nat \<Rightarrow> string \<Rightarrow> string \<Rightarrow> response \<Rightarrow> response"
  tls_exchange :: "nat \<Rightarrow> string \<Rightarrow> string \<Rightarrow> response \<Rightarrow> response"

text \<open>
  Bytes read through the \<^verbatim>\<open>data()\<close> of a string view as a C string: the view, then the memory behind it,
  up to the first zero byte.
\<close>

definition c_string :: "string \<Rightarrow> string \<Rightarrow> string result" where
  "c_string view rest =
     (if c_nul \<in> set view \<union> set rest then Inr (takeWhile (\<lambda>c. c \<noteq> c_nul) (view @ rest))
      else Inl OutOfBounds)"

lemma c_string_no_nul:
  assumes "c_nul \<notin> set view"
  shows "c_string view rest =
    (if c_nul \<in> set rest then Inr (view @ takeWhile (\<lambda>c. c \<noteq> c_nul) rest) else Inl OutOfBounds)"
proof -
  have "\<forall>x \<in> set view. x \<noteq> c_nul" using assms by auto
  then show ?thesis using assms by (simp add: c_string_def)
qed

lemma c_string_terminated:
  "c_nul \<notin> set view \<Longrightarrow> c_string view (c_nul # rest) = Inr view"
  by (simp add: c_string_no_nul)

end
