(* ===== verification/Handlers.thy ===== *)
theory Handlers
  imports Http Config
begin

text \<open>
  The handlers that need the request, the library and the file system only: the fixed pages
  (\<^verbatim>\<open>404_handler.cc\<close>, \<^verbatim>\<open>health_handler.cc\<close>, \<^verbatim>\<open>sleep_handler.cc\<close>), \<^verbatim>\<open>EchoHandler\<close> and \<^verbatim>\<open>FileHandler\<close>.
  Trace output is left out.
\<close>

section \<open>Fixed pages\<close>

definition NotFound_handle_request :: "beast \<Rightarrow> response" where
  "NotFound_handle_request b =
     prepare_payload b ((fresh b)\<lparr>result_int := 404, body := ''<h1>404 Not Found</h1>''\<rparr>)"

definition Health_handle_request :: "beast \<Rightarrow> response" where
  "Health_handle_request b =
     prepare_payload b
       ((with_field b content_type ''text/plain'' ((fresh b)\<lparr>result_int := 200\<rparr>))\<lparr>body := ''OK''\<rparr>)"

text \<open>The milliseconds the calling thread sleeps, and the response it then returns.\<close>

definition Sleep_handle_request :: "beast \<Rightarrow> nat \<times> response" where
  "Sleep_handle_request b =
     (let payload = ''I slept for 5 seconds!'';
          response = prepare_payload b
            ((with_field b content_type ''text/plain'' ((fresh b)\<lparr>result_int := 200\<rparr>))\<lparr>body := payload\<rparr>)
      in (5000, response))"

section \<open>Echo\<close>

fun echo_fields :: "beast \<Rightarrow> header \<Rightarrow> string" where
  "echo_fields b [] = []"
| "echo_fields b ((name, v) # fs) =
     field_name b name @ '': '' @ v @ [c_cr, c_nl] @ echo_fields b fs"

definition Echo_handle_request :: "beast \<Rightarrow> request \<Rightarrow> response result" where
  "Echo_handle_request b request =
     and_then (c_string (method_string request) (after_method b request)) (\<lambda>m.
     and_then (c_string (target request) (after_target b request)) (\<lambda>t.
       let response = with_field b content_type ''text/plain'' ((fresh b)\<lparr>result_int := 200\<rparr>);
           payload = m @ '' '' @ t @ '' HTTP/'' @
             (if version request = 11 then ''1.1'' @ [c_cr, c_nl] else ''1.0'' @ [c_cr, c_nl]) @
             echo_fields b (req_header request)
       in Inr (prepare_payload b (response\<lparr>body := payload\<rparr>))))"

section \<open>Files\<close>

record file_handler =
  fh_prefix :: string
  fh_root :: string

text \<open>
  One statement of the constructor's loop. \<^verbatim>\<open>tokens_[0]\<close> of a statement without tokens is read out
  of bounds.
\<close>

definition root_step :: "statement \<Rightarrow> file_handler \<Rightarrow> file_handler result" where
  "root_step s h =
     (case tokens s of
        [] \<Rightarrow> Inl OutOfBounds
      | t # ts \<Rightarrow> Inr (if t = ''root'' \<and> length (t # ts) = 2 then h\<lparr>fh_root := (t # ts) ! 1\<rparr> else h))"

fun root_loop :: "statement list \<Rightarrow> file_handler \<Rightarrow> file_handler result" where
  "root_loop [] h = Inr h"
| "root_loop (s # ss) h = and_then (root_step s h) (root_loop ss)"

definition FileHandler_ctor :: "string \<Rightarrow> config \<Rightarrow> file_handler result" where
  "FileHandler_ctor location_path c =
     root_loop (statements c) \<lparr>fh_prefix = location_path, fh_root = ''/''\<rparr>"

definition mime_type :: "request \<Rightarrow> string" where
  "mime_type request =
     (let tgt = target request in
      if str_find tgt ''.'' 0 = None then ''''
      else if str_find tgt ''.html'' 0 \<noteq> None then ''text/html''
      else if str_find tgt ''.txt'' 0 \<noteq> None then ''text/plain''
      else if str_find tgt ''.jpg'' 0 \<noteq> None \<or> str_find tgt ''.jpeg'' 0 \<noteq> None then ''image/jpeg''
      else if str_find tgt ''.zip'' 0 \<noteq> None then ''application/zip''
      else ''unsupported'')"

definition file_not_found :: "beast \<Rightarrow> response" where
  "file_not_found b =
     prepare_payload b
       ((with_field b content_type ''text/html'' ((fresh b)\<lparr>result_int := 404\<rparr>))
          \<lparr>body := ''<h1>404 Not Found</h1>''\<rparr>)"

definition File_handle_request :: "beast \<Rightarrow> world \<Rightarrow> file_handler \<Rightarrow> request \<Rightarrow> response result" where
  "File_handle_request b w h request =
     (case verb request of
        Verb_get \<Rightarrow>
          let file_start_pos = str_find (target request) ''/'' 1 in
          if file_start_pos = Some (length (target request) - 1) \<or> file_start_pos = None
          then Inr (file_not_found b)
          else
            and_then (substr (target request) file_start_pos None) (\<lambda>file.
            let path = fh_root h @ file in
            if opens w path then
              let payload = content w path;
                  response = (fresh b)\<lparr>result_int := 200\<rparr>;
                  response = response\<lparr>resp_header :=
                    content_length b (length payload) (resp_header response)\<rparr>;
                  response = with_field b content_type (mime_type request) response
              in Inr (response\<lparr>body := payload\<rparr>)
            else Inr (file_not_found b))
      | Verb_other \<Rightarrow> Inr (fresh b))"

section \<open>Finding the second slash\<close>

lemma second_slash:
  "CHR ''/'' \<notin> set seg \<Longrightarrow> str_find (c # seg @ CHR ''/'' # rest) ''/'' 1 = Some (Suc (length seg))"
  using first_index_skip [of seg "\<lambda>x. x = CHR ''/''" 1 "CHR ''/'' # rest"]
  by (auto simp: str_find_def find_from_char)

lemma no_second_slash: "CHR ''/'' \<notin> set (drop 1 t) \<Longrightarrow> str_find t ''/'' 1 = None"
  by (auto simp: str_find_def find_from_char first_index_None)

text \<open>Every target has no second slash or splits at it.\<close>

lemma target_cases:
  obtains (short) "CHR ''/'' \<notin> set (drop 1 t)"
  | (split) c seg rest where "t = c # seg @ CHR ''/'' # rest" "CHR ''/'' \<notin> set seg"
proof (cases "CHR ''/'' \<in> set (drop 1 t)")
  case True
  then obtain seg rest where "drop 1 t = seg @ CHR ''/'' # rest" "CHR ''/'' \<notin> set seg"
    by (meson split_list_first)
  moreover obtain c where "t = c # drop 1 t" using True by (cases t) auto
  ultimately show ?thesis using split by metis
qed (rule short)

lemma File_short:
  assumes "verb request = Verb_get"
    and "CHR ''/'' \<notin> set (drop 1 (target request)) \<or>
      (\<exists>c seg. target request = c # seg @ ''/'' \<and> CHR ''/'' \<notin> set seg)"
  shows "File_handle_request b w h request = Inr (file_not_found b)"
  using assms second_slash [of _ _ "[]"] no_second_slash
  by (auto simp: File_handle_request_def Let_def)

lemma File_split:
  assumes "verb request = Verb_get" and t: "target request = c # seg @ CHR ''/'' # rest"
    and "CHR ''/'' \<notin> set seg" and "rest \<noteq> []"
  defines "path \<equiv> \<lambda>h. fh_root h @ CHR ''/'' # rest"
  shows "File_handle_request b w h request =
    Inr (if opens w (path h)
         then (with_field b content_type (mime_type request)
                ((fresh b)\<lparr>result_int := 200,
                   resp_header := content_length b (length (content w (path h))) (resp_header (fresh b))\<rparr>))
              \<lparr>body := content w (path h)\<rparr>
         else file_not_found b)"
  using assms second_slash [OF assms(3), of c rest]
  by (auto simp: File_handle_request_def Let_def substr_def with_field_def)

section \<open>Properties of the file handler\<close>

text \<open>C29: \<open>FileHandler\<close> answers a GET for \<open>/segment/rest\<close> from the file \<open>root/rest\<close>: its bytes with
status 200 and the type \<open>mime_type\<close> finds, or the 404 page when the file does not open. The location
prefix plays no part.\<close>

theorem File_serves_below_root:
  assumes "beast_ok b" and "verb request = Verb_get"
    and "target request = c # seg @ CHR ''/'' # rest" and "CHR ''/'' \<notin> set seg" and "rest \<noteq> []"
  shows "\<exists>r. File_handle_request b w h request = Inr r \<and>
    (if opens w (fh_root h @ CHR ''/'' # rest)
     then result_int r = 200 \<and> body r = content w (fh_root h @ CHR ''/'' # rest) \<and>
       field_of b content_type r = mime_type request
     else result_int r = 404 \<and> body r = ''<h1>404 Not Found</h1>'')"
  using assms File_split [OF assms(2-5), of b w h]
  by (simp add: file_not_found_def beast_simps)

definition sample_get :: "string \<Rightarrow> request" where
  "sample_get t = \<lparr>verb = Verb_get, method_string = ''GET'', target = t, version = 11, req_header = []\<rparr>"

definition sample_world :: world where
  "sample_world =
     \<lparr>opens = (\<lambda>p. p = ''/srv/a.txt''), content = (\<lambda>p. ''hello''),
      plain_exchange = (\<lambda>n host tgt r. r), tls_exchange = (\<lambda>n host tgt r. r)\<rparr>"

lemma File_serves_below_root_witness:
  "\<exists>r. File_handle_request plain_beast sample_world \<lparr>fh_prefix = ''/static'', fh_root = ''/srv''\<rparr>
        (sample_get ''/static/a.txt'') = Inr r \<and> result_int r = 200 \<and> body r = ''hello''"
  using File_serves_below_root [OF plain_beast_ok, of "sample_get ''/static/a.txt''" "CHR ''/''"
      "''static''" "''a.txt''" sample_world "\<lparr>fh_prefix = ''/static'', fh_root = ''/srv''\<rparr>"]
  by (auto simp: sample_get_def sample_world_def)



section \<open>Media types\<close>

lemma sublist_dot:
  assumes "CHR ''.'' \<notin> set p" and "CHR ''.'' \<notin> set q"
  shows "sublist (CHR ''.'' # e) (p @ CHR ''.'' # q) \<longleftrightarrow> prefix e q"
proof
  assume "sublist (CHR ''.'' # e) (p @ CHR ''.'' # q)"
  then obtain ps ss where "p @ CHR ''.'' # q = ps @ CHR ''.'' # e @ ss"
    by (auto simp: sublist_def)
  with assms have "p = ps \<and> q = e @ ss"
    by (metis append_Cons_eq_iff Un_iff set_append in_set_conv_decomp)
  then show "prefix e q" by simp
next
  assume "prefix e q"
  then show "sublist (CHR ''.'' # e) (p @ CHR ''.'' # q)"
    by (auto simp: prefix_def sublist_def)
qed

text \<open>A target with a single dot gets the media type of the extension behind it, when that is one
of the five the handler knows.\<close>

theorem mime_type_by_extension:
  assumes "target request = p @ CHR ''.'' # ext" and "CHR ''.'' \<notin> set p"
    and "(ext, m) \<in> {(''html'', ''text/html''), (''txt'', ''text/plain''), (''jpg'', ''image/jpeg''),
          (''jpeg'', ''image/jpeg''), (''zip'', ''application/zip'')}"
  shows "mime_type request = m"
proof -
  have "CHR ''.'' \<notin> set ext" using assms(3) by auto
  then have found: "str_find (target request) (CHR ''.'' # e) 0 = None \<longleftrightarrow> \<not> prefix e ext" for e
    using assms(1,2) by (simp add: str_find_None sublist_dot)
  show ?thesis
    using assms(3) unfolding mime_type_def Let_def found
    by (elim insertE emptyE) simp_all
qed

lemma mime_type_by_extension_witness: "mime_type (sample_get ''/static/hell.txt'') = ''text/plain''"
  by (rule mime_type_by_extension [where p = "''/static/hell''" and ext = "''txt''"])
     (simp_all add: sample_get_def)

section \<open>Echo\<close>

text \<open>C31: with a method literal and no zero byte in the target, \<open>EchoHandler\<close> answers 200 with the
request line and the header lines, but everything that stands in memory between the target and the
next zero byte is printed after the target; when there is none the read leaves the buffer.\<close>

theorem Echo_prints_past_target:
  assumes "beast_ok b" and "c_nul \<notin> set (method_string request)" and "c_nul \<notin> set (target request)"
    and "after_method b request = c_nul # rest"
  shows "case Echo_handle_request b request of
      Inl e \<Rightarrow> e = OutOfBounds \<and> c_nul \<notin> set (after_target b request)
    | Inr r \<Rightarrow> c_nul \<in> set (after_target b request) \<and> result_int r = 200 \<and>
        field_of b content_type r = ''text/plain'' \<and>
        body r = method_string request @ '' '' @ target request @
          takeWhile (\<lambda>c. c \<noteq> c_nul) (after_target b request) @ '' HTTP/'' @
          (if version request = 11 then ''1.1'' else ''1.0'') @ [c_cr, c_nl] @
          echo_fields b (req_header request)"
  using assms
  by (auto simp: Echo_handle_request_def c_string_terminated c_string_no_nul beast_simps Let_def)

lemma Echo_prints_past_target_witness:
  "\<exists>r. Echo_handle_request plain_beast (sample_get ''/echo'') = Inr r \<and>
     body r = ''GET /echo HTTP/1.1'' @ [c_cr, c_nl]"
proof -
  have "case Echo_handle_request plain_beast (sample_get ''/echo'') of
      Inl e \<Rightarrow> e = OutOfBounds \<and> c_nul \<notin> set (after_target plain_beast (sample_get ''/echo''))
    | Inr r \<Rightarrow> c_nul \<in> set (after_target plain_beast (sample_get ''/echo'')) \<and> result_int r = 200 \<and>
        field_of plain_beast content_type r = ''text/plain'' \<and>
        body r = method_string (sample_get ''/echo'') @ '' '' @ target (sample_get ''/echo'') @
          takeWhile (\<lambda>c. c \<noteq> c_nul) (after_target plain_beast (sample_get ''/echo'')) @ '' HTTP/'' @
          (if version (sample_get ''/echo'') = 11 then ''1.1'' else ''1.0'') @ [c_cr, c_nl] @
          echo_fields plain_beast (req_header (sample_get ''/echo''))"
    by (rule Echo_prints_past_target [OF plain_beast_ok, where rest = "[]"])
       (simp_all add: sample_get_def plain_beast_def)
  then show ?thesis
    by (cases "Echo_handle_request plain_beast (sample_get ''/echo'')")
       (simp_all add: sample_get_def plain_beast_def)
qed

end
