(* ===== verification/Proxy.thy ===== *)
theory Proxy
  imports Http Config
begin

text \<open>
  \<^verbatim>\<open>proxy_handler.cc\<close>: \<^verbatim>\<open>parse_url\<close>, the constructor, \<^verbatim>\<open>issue_outside_request\<close>, which follows redirections
  by calling itself for as long as the outside answers with one, and \<^verbatim>\<open>handle_request\<close>. The recursion
  has no bound in the source, so it is a partial function whose value is \<open>None\<close> when it never returns;
  its counter is the number of exchanges the request has made so far.
\<close>

section \<open>parse_url\<close>

text \<open>On an empty string \<^verbatim>\<open>s[s.length() - 1]\<close> is a read outside the string.\<close>

function remove_end_slash :: "string \<Rightarrow> string result" where
  "remove_end_slash s =
     (if s = [] then Inl OutOfBounds
      else if last s = CHR ''/'' then remove_end_slash (butlast s)
      else Inr s)"
  by pat_completeness auto
termination
  by (relation "measure length") auto

declare remove_end_slash.simps [simp del]

definition parse_url :: "string \<Rightarrow> (string \<times> string \<times> string) result" where
  "parse_url url =
     and_then (remove_end_slash url) (\<lambda>modified_url.
       (case str_find modified_url ''://'' 0 of
          None \<Rightarrow> Inr ([], [], [])
        | Some host_start \<Rightarrow>
            let pos_after_protocol = host_start + 3;
                pos_after_host = str_find modified_url ''/'' pos_after_protocol in
            and_then (substr modified_url (Some 0) (Some host_start)) (\<lambda>protocol.
            and_then (substr modified_url (Some pos_after_protocol)
                       (span_length pos_after_host (Some pos_after_protocol))) (\<lambda>host.
            and_then (if pos_after_host \<noteq> None then substr modified_url pos_after_host None
                      else Inr ''/'') (\<lambda>path.
            Inr (protocol, host, path))))))"

section \<open>The constructor\<close>

record proxy_handler =
  ph_prefix :: string
  ph_host :: string
  ph_path :: string
  ph_port :: string

definition proxy_step :: "statement \<Rightarrow> proxy_handler \<Rightarrow> proxy_handler result" where
  "proxy_step s h =
     (case tokens s of
        [] \<Rightarrow> Inl OutOfBounds
      | t # ts \<Rightarrow>
          if t = ''host'' \<and> length (t # ts) = 2 then
            and_then (parse_url ((t # ts) ! 1)) (\<lambda>(protocol, host, path).
              if protocol \<noteq> ''http'' \<and> protocol \<noteq> ''https''
              then Inl (ThrowRuntimeError (''bad config file'' @ [c_nl]))
              else Inr (h\<lparr>ph_host := host, ph_path := path\<rparr>))
          else if t = ''port'' \<and> length (t # ts) = 2 then Inr (h\<lparr>ph_port := (t # ts) ! 1\<rparr>)
          else Inr h)"

fun proxy_loop :: "statement list \<Rightarrow> proxy_handler \<Rightarrow> proxy_handler result" where
  "proxy_loop [] h = Inr h"
| "proxy_loop (s # ss) h = and_then (proxy_step s h) (proxy_loop ss)"

definition ProxyHandler_ctor :: "string \<Rightarrow> config \<Rightarrow> proxy_handler result" where
  "ProxyHandler_ctor location_path c =
     proxy_loop (statements c) \<lparr>ph_prefix = location_path, ph_host = [], ph_path = [], ph_port = []\<rparr>"

section \<open>Outside requests\<close>

text \<open>The response object after the \<^verbatim>\<open>try\<close> block; any port but the two leaves it as constructed.\<close>

definition try_block :: "beast \<Rightarrow> world \<Rightarrow> nat \<Rightarrow> string \<Rightarrow> string \<Rightarrow> string \<Rightarrow> response" where
  "try_block b w n host port tgt =
     (if port = ''80'' then plain_exchange w n host tgt (fresh b)
      else if port = ''443'' then tls_exchange w n host tgt (fresh b)
      else fresh b)"

partial_function (option) issue_outside_request ::
  "beast \<Rightarrow> world \<Rightarrow> nat \<Rightarrow> string \<Rightarrow> string \<Rightarrow> string \<Rightarrow> response result option" where
  "issue_outside_request b w n host port tgt =
     (let response = try_block b w n host port tgt in
      if is_redirection b (result_int response) then
        (case parse_url (field_of b location_field response) of
           Inl e \<Rightarrow> Some (Inl e)
         | Inr url_components \<Rightarrow>
             if fst url_components \<noteq> ''http'' \<and> fst url_components \<noteq> ''https''
             then Some (Inr response)
             else if fst url_components = ''https''
             then issue_outside_request b w (n + 1) (fst (snd url_components)) ''443''
                    (snd (snd url_components))
             else issue_outside_request b w (n + 1) (fst (snd url_components)) ''80''
                    (snd (snd url_components)))
      else Some (Inr response))"

definition cut_content_type :: "beast \<Rightarrow> response \<Rightarrow> response result" where
  "cut_content_type b response =
     (let ctype = field_of b content_type response;
          content_type_loc = str_find ctype '';'' 0 in
      if content_type_loc \<noteq> None then
        and_then (substr ctype (Some 0) content_type_loc) (\<lambda>t. Inr (with_field b content_type t response))
      else Inr response)"

definition Proxy_handle_request ::
  "beast \<Rightarrow> world \<Rightarrow> proxy_handler \<Rightarrow> request \<Rightarrow> response result option" where
  "Proxy_handle_request b w h request =
     (case substr (target request) (Some (length (ph_prefix h))) None of
        Inl e \<Rightarrow> Some (Inl e)
      | Inr tgt \<Rightarrow>
          let tgt = (if tgt = [] then ''/'' else tgt) in
          (case issue_outside_request b w 0 (ph_host h) (ph_port h) tgt of
             None \<Rightarrow> None
           | Some response \<Rightarrow> Some (and_then response (cut_content_type b))))"

section \<open>Facts about parse_url\<close>

lemma remove_end_slash_fault: "remove_end_slash s = Inl e \<longleftrightarrow> e = OutOfBounds \<and> set s \<subseteq> {CHR ''/''}"
proof (induction s rule: rev_induct)
  case (snoc c s)
  then show ?case by (auto simp: remove_end_slash.simps [of "s @ [c]"])
qed (auto simp: remove_end_slash.simps)

lemma remove_end_slash_strip:
  assumes "s \<noteq> []" and "last s \<noteq> CHR ''/''"
  shows "remove_end_slash (s @ replicate n (CHR ''/'')) = Inr s"
proof (induction n)
  case 0
  then show ?case using assms by (simp add: remove_end_slash.simps)
next
  case (Suc n)
  have "s @ replicate (Suc n) (CHR ''/'') = (s @ replicate n (CHR ''/'')) @ ''/''"
    by (simp add: replicate_append_same)
  then have "remove_end_slash (s @ replicate (Suc n) (CHR ''/'')) =
      remove_end_slash (s @ replicate n (CHR ''/''))"
    by (subst remove_end_slash.simps) (simp only: butlast_snoc last_snoc append_is_Nil_conv list.simps simp_thms if_True if_False)
  with Suc show ?case by simp
qed


text \<open>C27: \<open>parse_url\<close> takes a URL apart: protocol, host and path (a slash when there is none) come back,
any number of slashes at its end dropped.\<close>

theorem parse_url_roundtrip:
  assumes "CHR '':'' \<notin> set protocol" and "CHR ''/'' \<notin> set host"
    and "path = [] \<or> hd path = CHR ''/''" and "host @ path \<noteq> []" and "last (host @ path) \<noteq> CHR ''/''"
  shows "parse_url (protocol @ ''://'' @ host @ path @ replicate n (CHR ''/'')) =
    Inr (protocol, host, if path = [] then ''/'' else path)"
proof -
  define m where "m = protocol @ ''://'' @ host @ path"
  have "remove_end_slash (m @ replicate n (CHR ''/'')) = Inr m"
    using assms(4,5) by (intro remove_end_slash_strip) (simp_all add: m_def)
  moreover have "str_find m ''://'' 0 = Some (length protocol)"
    using assms(1) find_from_skip [of _ protocol 0] find_from_prefix [of "''://''" "length protocol"]
    by (simp add: str_find_def m_def)
  moreover have "drop (length protocol + 3) m = host @ path"
    by (simp add: m_def)
  moreover have "str_find m ''/'' (length protocol + 3) =
      (if path = [] then None else Some (length protocol + 3 + length host))"
  proof (cases path)
    case Nil
    then show ?thesis
      using assms(2) by (auto simp: str_find_def find_from_char first_index_None m_def)
  next
    case (Cons c cs)
    then have "c = CHR ''/''" using assms(3) by simp
    then show ?thesis
      using Cons assms(2) first_index_skip [of host "\<lambda>x. x = CHR ''/''" "length protocol + 3" path]
      by (auto simp: str_find_def find_from_char m_def)
  qed
  moreover have "drop (length protocol + 3 + length host) m = path"
    and "take (length protocol) m = protocol"
    and "\<not> length m < length protocol + 3 + length host"
    by (simp_all add: m_def numeral_3_eq_3)
  ultimately have "parse_url (m @ replicate n (CHR ''/'')) = Inr (protocol, host, if path = [] then ''/'' else path)"
    by (simp add: parse_url_def substr_def span_length_def)
  then show ?thesis by (simp add: m_def)
qed

lemma parse_url_roundtrip_witness:
  "parse_url ''http://www.example.com/index.html/'' = Inr (''http'', ''www.example.com'', ''/index.html'')"
  using parse_url_roundtrip [of "''http''" "''www.example.com''" "''/index.html''" 1] by simp

lemma parse_url_fault:
  "parse_url url = Inl e \<longleftrightarrow> e = OutOfBounds \<and> set url \<subseteq> {CHR ''/''}"
proof (cases "remove_end_slash url")
  case (Inl e')
  then have "e' = OutOfBounds" "set url \<subseteq> {CHR ''/''}"
    using remove_end_slash_fault [of url e'] by simp_all
  moreover have "parse_url url = Inl e'" by (simp add: parse_url_def Inl)
  ultimately show ?thesis by auto
next
  case (Inr m)
  then have "\<not> set url \<subseteq> {CHR ''/''}"
    using remove_end_slash_fault [of url OutOfBounds] by auto
  moreover have "\<exists>r. parse_url url = Inr r"
    using Inr
    by (auto simp: parse_url_def substr_def Let_def span_length_def split: option.splits dest!: str_find_Some_bound)
  ultimately show ?thesis by auto
qed

text \<open>C28: \<open>parse_url\<close> reads outside its string exactly on the empty string and on strings of slashes,
and never throws.\<close>

theorem parse_url_fault_iff:
  "parse_url url = Inl e \<longleftrightarrow> e = OutOfBounds \<and> set url \<subseteq> {CHR ''/''}"
  by (rule parse_url_fault)

section \<open>Following redirections\<close>

text \<open>From the \<open>N\<close>-th exchange on nobody answers with a redirection.\<close>

definition settles :: "beast \<Rightarrow> world \<Rightarrow> nat \<Rightarrow> bool" where
  "settles b w N \<longleftrightarrow> (\<forall>n \<ge> N. \<forall>host port tgt. \<not> is_redirection b (result_int (try_block b w n host port tgt)))"

lemma issue_settles: "settles b w N \<Longrightarrow> \<exists>r. issue_outside_request b w n host port tgt = Some r"
proof (induction "N - n" arbitrary: n host port tgt)
  case 0
  then show ?case
    by (subst issue_outside_request.simps) (simp add: settles_def)
next
  case (Suc k)
  then have "\<exists>r. issue_outside_request b w (n + 1) host' port' tgt' = Some r" for host' port' tgt'
    by (metis Suc_diff_Suc add_diff_cancel_left' diff_Suc_1 diff_diff_left plus_1_eq_Suc add.commute)
  then show ?case
    by (subst issue_outside_request.simps) (auto simp: Let_def split: sum.splits)
qed

text \<open>C24: when the outside stops answering with redirections after finitely many exchanges, the proxy
handler returns.\<close>

theorem Proxy_returns:
  assumes "settles b w N"
  shows "\<exists>r. Proxy_handle_request b w h request = Some r"
proof -
  consider (fault) e where "substr (target request) (Some (length (ph_prefix h))) None = Inl e"
    | (rest) tgt where "substr (target request) (Some (length (ph_prefix h))) None = Inr tgt"
    by (cases "substr (target request) (Some (length (ph_prefix h))) None")
  then show ?thesis
  proof cases
    case fault
    then show ?thesis by (simp add: Proxy_handle_request_def)
  next
    case rest
    obtain r where "issue_outside_request b w 0 (ph_host h) (ph_port h) (if tgt = [] then ''/'' else tgt) = Some r"
      using issue_settles [OF assms] by blast
    then show ?thesis by (simp only: Proxy_handle_request_def rest sum.case Let_def option.case) simp
  qed
qed

text \<open>An outside whose first answer redirects to its own host and whose later answers do not.\<close>

definition redirecting_response :: "string \<Rightarrow> response" where
  "redirecting_response url = \<lparr>result_int = 302, resp_header = [(location_field, url)], body = []\<rparr>"

definition bounce_world :: world where
  "bounce_world = \<lparr>opens = (\<lambda>p. False), content = (\<lambda>p. []),
     plain_exchange = (\<lambda>n host tgt r. if n = 0 then redirecting_response ''http://h/x''
       else \<lparr>result_int = 200, resp_header = [(content_type, ''text/html; charset=utf-8'')], body = host @ tgt\<rparr>),
     tls_exchange = (\<lambda>n host tgt r. r)\<rparr>"

definition loop_world :: world where
  "loop_world = \<lparr>opens = (\<lambda>p. False), content = (\<lambda>p. []),
     plain_exchange = (\<lambda>n host tgt r. redirecting_response ''http://h/x''),
     tls_exchange = (\<lambda>n host tgt r. r)\<rparr>"

definition sample_proxy :: proxy_handler where
  "sample_proxy = \<lparr>ph_prefix = ''/proxy'', ph_host = ''h'', ph_path = ''/'', ph_port = ''80''\<rparr>"

definition proxy_get :: "string \<Rightarrow> request" where
  "proxy_get t = \<lparr>verb = Verb_get, method_string = ''GET'', target = t, version = 11, req_header = []\<rparr>"

lemma Proxy_returns_witness:
  "\<exists>r. Proxy_handle_request plain_beast bounce_world sample_proxy (proxy_get ''/proxy'') = Some r"
  by (rule Proxy_returns [where N = 1])
     (simp add: settles_def try_block_def bounce_world_def plain_beast_def)

definition always_redirects :: "beast \<Rightarrow> world \<Rightarrow> string \<Rightarrow> string \<Rightarrow> bool" where
  "always_redirects b w hst pth \<longleftrightarrow> (\<forall>n host tgt r.
     is_redirection b (result_int (plain_exchange w n host tgt r)) \<and>
     parse_url (field_of b location_field (plain_exchange w n host tgt r)) = Inr (''http'', hst, pth))"

lemma always_redirects_diverges:
  assumes "issue_outside_request b w n host port tgt = Some y"
  shows "always_redirects b w hst pth \<Longrightarrow> port \<noteq> ''80''"
  using assms
proof (induction b w n host port tgt y rule: issue_outside_request.raw_induct [rotated, consumes 1, case_names step])
  case (step rec b w n host port tgt y)
  show ?case
  proof
    assume "port = ''80''"
    then have "rec b w (n + 1) hst ''80'' pth = Some y"
      using step(2,3) by (simp add: always_redirects_def try_block_def Let_def)
    with step(1,3) show False by blast
  qed
qed

text \<open>C25: when the host keeps answering with redirections to a plain URL, the proxy handler never returns.\<close>

theorem Proxy_redirect_loop_diverges:
  assumes "always_redirects b w hst pth"
    and "ph_port h = ''80''" and "length (ph_prefix h) \<le> length (target request)"
  shows "Proxy_handle_request b w h request = None"
proof -
  have "issue_outside_request b w n host ''80'' tgt = None" for n host tgt
    using always_redirects_diverges [OF _ assms(1), of n host "''80''" tgt]
    by (cases "issue_outside_request b w n host ''80'' tgt") auto
  then show ?thesis
    using assms(2,3) by (simp add: Proxy_handle_request_def Let_def substr_def)
qed

lemma Proxy_redirect_loop_diverges_witness:
  "Proxy_handle_request plain_beast loop_world sample_proxy (proxy_get ''/proxy/a'') = None"
proof -
  have "parse_url ''http://h/x'' = Inr (''http'', ''h'', ''/x'')"
    by code_simp
  then show ?thesis
    by (intro Proxy_redirect_loop_diverges)
       (simp_all add: always_redirects_def loop_world_def redirecting_response_def field_of_def plain_beast_def plain_get_def
         sample_proxy_def proxy_get_def)
qed

lemma issue_final:
  assumes "issue_outside_request b w n host port tgt = Some y"
  shows "y = Inr r \<Longrightarrow> is_redirection b (result_int r) \<Longrightarrow>
     \<exists>u. parse_url (field_of b location_field r) = Inr u \<and> fst u \<notin> {''http'', ''https''}"
  using assms
proof (induction b w n host port tgt y rule: issue_outside_request.raw_induct [rotated, consumes 1, case_names step])
  case (step rec b w n host port tgt y)
  show ?case
  proof (cases "parse_url (field_of b location_field (try_block b w n host port tgt))")
    case (Inl e)
    then show ?thesis using step(2-4) by (auto simp: Let_def split: if_splits)
  next
    case (Inr u)
    then show ?thesis
      using step by (cases "is_redirection b (result_int (try_block b w n host port tgt))";
        cases "fst u = ''https''"; cases "fst u = ''http''") (simp_all add: Let_def)
  qed
qed

text \<open>What the proxy handler passes on is no redirection that \<open>parse_url\<close> understands: a
redirection that comes back has a location that is neither http nor https.\<close>

theorem Proxy_passes_no_http_redirect:
  assumes "issue_outside_request b w n host port tgt = Some (Inr r)" and "is_redirection b (result_int r)"
  shows "\<exists>u. parse_url (field_of b location_field r) = Inr u \<and> fst u \<notin> {''http'', ''https''}"
  using issue_final [OF assms(1) refl assms(2)] .

definition ftp_world :: world where
  "ftp_world = loop_world\<lparr>plain_exchange := (\<lambda>n host tgt r. redirecting_response ''ftp://h/x'')\<rparr>"

lemma Proxy_passes_no_http_redirect_witness:
  "\<exists>u. parse_url ''ftp://h/x'' = Inr u \<and> fst u \<notin> {''http'', ''https''}"
proof -
  let ?r = "redirecting_response ''ftp://h/x''"
  have url: "parse_url ''ftp://h/x'' = Inr (''ftp'', ''h'', ''/x'')"
    by code_simp
  have loc: "field_of plain_beast location_field ?r = ''ftp://h/x''"
    by (simp add: field_of_def plain_beast_def plain_get_def redirecting_response_def)
  have redirect: "is_redirection plain_beast (result_int ?r)"
    by (simp add: plain_beast_def redirecting_response_def)
  moreover have "issue_outside_request plain_beast ftp_world 0 ''h'' ''80'' ''/'' = Some (Inr ?r)"
    using url loc redirect
    by (subst issue_outside_request.simps) (simp add: try_block_def ftp_world_def)
  ultimately show ?thesis
    using Proxy_passes_no_http_redirect loc by metis
qed

text \<open>
  One exchange: the answer \<^verbatim>\<open>issue_outside_request\<close> returns after it, or the request (host, port and target)
  it makes next. \<open>chain\<close> is the request made after \<open>k\<close> redirections, when it comes to that.
\<close>

definition hop ::
  "beast \<Rightarrow> world \<Rightarrow> nat \<Rightarrow> string \<times> string \<times> string \<Rightarrow> (response result + string \<times> string \<times> string)" where
  "hop b w n = (\<lambda>(host, port, tgt).
     let response = try_block b w n host port tgt in
     if \<not> is_redirection b (result_int response) then Inl (Inr response)
     else
       (case parse_url (field_of b location_field response) of
          Inl e \<Rightarrow> Inl (Inl e)
        | Inr (protocol, host', tgt') \<Rightarrow>
            if protocol = ''https'' then Inr (host', ''443'', tgt')
            else if protocol = ''http'' then Inr (host', ''80'', tgt')
            else Inl (Inr response)))"

fun chain ::
  "beast \<Rightarrow> world \<Rightarrow> nat \<Rightarrow> string \<times> string \<times> string \<Rightarrow> nat \<Rightarrow> (string \<times> string \<times> string) option" where
  "chain b w n x 0 = Some x"
| "chain b w n x (Suc k) = (case hop b w n x of Inl _ \<Rightarrow> None | Inr y \<Rightarrow> chain b w (Suc n) y k)"

lemma issue_hop:
  "issue_outside_request b w n host port tgt =
     (case hop b w n (host, port, tgt) of
        Inl r \<Rightarrow> Some r
      | Inr (host', port', tgt') \<Rightarrow> issue_outside_request b w (Suc n) host' port' tgt')"
  by (subst issue_outside_request.simps) (auto simp: hop_def Let_def split: sum.splits)

lemma chain_returns:
  assumes "chain b w n (host, port, tgt) k = Some y" and "hop b w (n + k) y = Inl r"
  shows "issue_outside_request b w n host port tgt = Some r"
  using assms
proof (induction k arbitrary: n host port tgt)
  case 0
  then show ?case by (subst issue_hop) simp
next
  case (Suc k)
  then obtain host' port' tgt' where "hop b w n (host, port, tgt) = Inr (host', port', tgt')"
    "chain b w (Suc n) (host', port', tgt') k = Some y"
    by (auto split: sum.splits)
  then show ?case
    using Suc.IH [of "Suc n" host' port' tgt'] Suc.prems(2) by (subst issue_hop) simp
qed

lemma returns_chain:
  assumes "issue_outside_request b w n host port tgt = Some r"
  shows "\<exists>k y. chain b w n (host, port, tgt) k = Some y \<and> hop b w (n + k) y = Inl r"
  using assms
proof (induction b w n host port tgt r rule: issue_outside_request.raw_induct [rotated, consumes 1, case_names step])
  case (step rec b w n host port tgt r)
  have "(case hop b w n (host, port, tgt) of
        Inl r \<Rightarrow> Some r | Inr (host', port', tgt') \<Rightarrow> rec b w (n + 1) host' port' tgt') = Some r"
    using step(2) by (auto simp: hop_def Let_def split: sum.splits if_splits)
  note now = this
  show ?case
  proof (cases "hop b w n (host, port, tgt)")
    case (Inl r')
    then show ?thesis
      using now by (intro exI [of _ 0]) simp
  next
    case (Inr y)
    obtain host' port' tgt' where y: "y = (host', port', tgt')" by (cases y)
    with Inr now have "rec b w (n + 1) host' port' tgt' = Some r" by simp
    from step(1) [OF this] obtain k z where
      "chain b w (n + 1) (host', port', tgt') k = Some z" "hop b w (n + 1 + k) z = Inl r"
      by blast
    then show ?thesis
      using Inr y by (intro exI [of _ "Suc k"] exI [of _ z]) simp
  qed
qed

lemma chain_last:
  "chain b w n x (Suc k) =
     (case chain b w n x k of None \<Rightarrow> None
      | Some y \<Rightarrow> (case hop b w (n + k) y of Inl _ \<Rightarrow> None | Inr z \<Rightarrow> Some z))"
proof (induction k arbitrary: n x)
  case (Suc k)
  have "chain b w n x (Suc (Suc k)) =
      (case hop b w n x of Inl _ \<Rightarrow> None | Inr y \<Rightarrow> chain b w (Suc n) y (Suc k))"
    by (rule chain.simps(2))
  also have "\<dots> = (case chain b w n x (Suc k) of None \<Rightarrow> None
      | Some y \<Rightarrow> (case hop b w (n + Suc k) y of Inl _ \<Rightarrow> None | Inr z \<Rightarrow> Some z))"
    using Suc.IH [of "Suc n"] unfolding add_Suc_shift [symmetric] by (cases "hop b w n x") simp_all
  finally show ?case .
qed (simp split: sum.splits)

lemma diverges_chain:
  assumes "issue_outside_request b w n host port tgt = None"
  shows "chain b w n (host, port, tgt) k \<noteq> None"
  using assms
proof (induction k arbitrary: n host port tgt)
  case (Suc k)
  then obtain host' port' tgt' where "hop b w n (host, port, tgt) = Inr (host', port', tgt')"
    "issue_outside_request b w (Suc n) host' port' tgt' = None"
    by (subst (asm) issue_hop) (auto split: sum.splits)
  then show ?case
    using Suc.IH by simp
qed simp

text \<open>C19: \<open>issue_outside_request\<close> follows the chain of redirections to its end: it returns exactly when some
exchange of the chain is not a redirection to an http or https URL, with the result of the first such
exchange, and it does not return exactly when the chain has no end.\<close>

theorem redirections_followed:
  "(issue_outside_request b w 0 host port tgt = Some r \<longleftrightarrow>
      (\<exists>k y. chain b w 0 (host, port, tgt) k = Some y \<and> hop b w k y = Inl r)) \<and>
   (issue_outside_request b w 0 host port tgt = None \<longleftrightarrow> (\<forall>k. chain b w 0 (host, port, tgt) k \<noteq> None))"
proof
  show returns: "issue_outside_request b w 0 host port tgt = Some r \<longleftrightarrow>
      (\<exists>k y. chain b w 0 (host, port, tgt) k = Some y \<and> hop b w k y = Inl r)" for r
    using chain_returns [of b w 0 host port tgt _ _ r] returns_chain [of b w 0 host port tgt r] by auto
  show "issue_outside_request b w 0 host port tgt = None \<longleftrightarrow> (\<forall>k. chain b w 0 (host, port, tgt) k \<noteq> None)"
  proof (cases "issue_outside_request b w 0 host port tgt")
    case None
    then show ?thesis using diverges_chain by blast
  next
    case (Some r)
    then obtain k y where "chain b w 0 (host, port, tgt) k = Some y" "hop b w k y = Inl r"
      using returns by blast
    then have "chain b w 0 (host, port, tgt) (Suc k) = None"
      unfolding chain_last by simp
    with Some show ?thesis
      by (auto intro: exI [of _ "Suc k"] simp del: chain.simps)
  qed
qed

section \<open>Handling a request\<close>

lemma cut_content_type_takes:
  "beast_ok b \<Longrightarrow> \<exists>r'. cut_content_type b r = Inr r' \<and> result_int r' = result_int r \<and> body r' = body r \<and>
     field_of b content_type r' = takeWhile (\<lambda>c. c \<noteq> CHR '';'') (field_of b content_type r)"
proof (cases "CHR '';'' \<in> set (field_of b content_type r)")
  case True
  then obtain p s where ps: "field_of b content_type r = p @ CHR '';'' # s" "CHR '';'' \<notin> set p"
    by (meson split_list_first)
  then have "str_find (field_of b content_type r) '';'' 0 = Some (length p)"
    using first_index_skip [of p "\<lambda>x. x = CHR '';''" 0 "CHR '';'' # s"]
    by (auto simp: str_find_def find_from_char)
  moreover have "\<forall>x \<in> set p. x \<noteq> CHR '';''" using ps by auto
  moreover assume "beast_ok b"
  ultimately show ?thesis
    using ps by (simp add: cut_content_type_def substr_def field_of_with_field)
next
  case False
  then have "str_find (field_of b content_type r) '';'' 0 = None"
    by (auto simp: str_find_def find_from_char first_index_None)
  then have "cut_content_type b r = Inr r" by (simp add: cut_content_type_def)
  moreover have "takeWhile (\<lambda>c. c \<noteq> CHR '';'') (field_of b content_type r) = field_of b content_type r"
    using False by (auto simp: takeWhile_eq_all_conv)
  ultimately show ?thesis by metis
qed

lemma issue_fault:
  assumes "issue_outside_request b w n host port tgt = Some y"
  shows "y = Inl e \<Longrightarrow> e = OutOfBounds"
  using assms
proof (induction b w n host port tgt y rule: issue_outside_request.raw_induct [rotated, consumes 1, case_names step])
  case (step rec b w n host port tgt y)
  then show ?case
    by (auto simp: Let_def parse_url_fault split: if_splits sum.splits)
qed

lemma cut_content_type_Inr: "cut_content_type b r \<noteq> Inl e"
  by (auto simp: cut_content_type_def substr_def Let_def split: option.splits)

lemma proxy_fault:
  assumes "Proxy_handle_request b w h req = Some (Inl e)" and "length (ph_prefix h) \<le> length (target req)"
  shows "e = OutOfBounds"
proof -
  have s: "substr (target req) (Some (length (ph_prefix h))) None = Inr (drop (length (ph_prefix h)) (target req))"
    using assms(2) by (simp add: substr_def)
  have "\<exists>t r. issue_outside_request b w 0 (ph_host h) (ph_port h) t = Some r \<and>
      and_then r (cut_content_type b) = Inl e"
    using assms(1) unfolding Proxy_handle_request_def s Let_def
    by (auto split: option.splits)
  then show ?thesis
    using issue_fault cut_content_type_Inr by (fastforce simp: and_then_eq_Inl)
qed

text \<open>C26: for a target below the handler's prefix, when the host's answer is no redirection, the client
gets that answer to the rest of the target (a slash when nothing is left), with the content type cut
at its first semicolon.\<close>

theorem Proxy_forwards:
  assumes "beast_ok b" and "target request = ph_prefix h @ rest"
    and "answer = try_block b w 0 (ph_host h) (ph_port h) (if rest = [] then ''/'' else rest)"
    and "\<not> is_redirection b (result_int answer)"
  shows "\<exists>r. Proxy_handle_request b w h request = Some (Inr r) \<and>
    result_int r = result_int answer \<and> body r = body answer \<and>
    field_of b content_type r = takeWhile (\<lambda>c. c \<noteq> CHR '';'') (field_of b content_type answer)"
proof -
  have "issue_outside_request b w 0 (ph_host h) (ph_port h) (if rest = [] then ''/'' else rest) = Some (Inr answer)"
    using assms(3,4) by (subst issue_outside_request.simps) (simp add: Let_def)
  then have "Proxy_handle_request b w h request = Some (cut_content_type b answer)"
    using assms(2) by (simp only: Proxy_handle_request_def substr_def option.case if_False sum.case Let_def
        append_eq_conv_conj length_append le_add1 not_less drop_append and_then_simps simp_thms) simp
  then show ?thesis using cut_content_type_takes [OF assms(1)] by simp
qed

definition html_world :: world where
  "html_world = loop_world\<lparr>plain_exchange := (\<lambda>n host tgt r.
     \<lparr>result_int = 200, resp_header = [(content_type, ''text/html; charset=utf-8'')], body = host @ tgt\<rparr>)\<rparr>"

lemma Proxy_forwards_witness:
  "\<exists>r. Proxy_handle_request plain_beast html_world sample_proxy (proxy_get ''/proxy/a'') = Some (Inr r) \<and>
     body r = ''h/a'' \<and> field_of plain_beast content_type r = ''text/html''"
proof -
  let ?answer = "try_block plain_beast html_world 0 ''h'' ''80'' ''/a''"
  have "\<not> is_redirection plain_beast (result_int ?answer)" "body ?answer = ''h/a''"
    and type: "takeWhile (\<lambda>c. c \<noteq> CHR '';'') (field_of plain_beast content_type ?answer) = ''text/html''"
    by (simp_all add: html_world_def try_block_def plain_beast_def field_of_def plain_get_def)
  then show ?thesis
    using Proxy_forwards [OF plain_beast_ok, of "proxy_get ''/proxy/a''" sample_proxy "''/a''" ?answer html_world]
    unfolding type by (auto simp: proxy_get_def sample_proxy_def)
qed

end
