(* ===== verification/Dispatcher.thy ===== *)
theory Dispatcher
  imports Std_Map Handlers Proxy
begin

text \<open>
  \<^verbatim>\<open>dispatcher.cc\<close>: the table from location paths to handlers that \<^verbatim>\<open>init_handlers\<close> builds from a
  configuration, the static table \<^verbatim>\<open>handler_info\<close> of handler names that every dispatcher of the
  process writes (it is passed in and handed back), and \<^verbatim>\<open>get_request_handler\<close>. A handler object is
  never changed after construction, so the pointer the table holds is the object itself, and
  \<^verbatim>\<open>nullptr\<close> is \<open>None\<close>. The loop for the longest prefix also runs in \<^verbatim>\<open>session.cc\<close> over the other
  table; both are instances of the locale \<open>prefix_match\<close>.
\<close>

section \<open>State\<close>

datatype handler =
    FileHandler file_handler
  | EchoHandler
  | NotFoundHandler
  | StatusHandler
  | ProxyHandler proxy_handler
  | SleepHandler
  | HealthHandler

type_synonym handler_table = "(string, handler) std_map"
type_synonym info_table = "(string, string) std_map"

record dispatcher =
  handlers :: handler_table
  regnum :: nat

section \<open>Building the table\<close>

definition register ::
  "string \<Rightarrow> handler \<Rightarrow> string \<Rightarrow> handler_table \<times> info_table \<Rightarrow> bool \<times> handler_table \<times> info_table" where
  "register path h handler_name st = (True, map_put path h (fst st), map_put path handler_name (snd st))"

definition add_handler ::
  "config \<Rightarrow> string \<Rightarrow> string \<Rightarrow> handler_table \<times> info_table \<Rightarrow> (bool \<times> handler_table \<times> info_table) result" where
  "add_handler c path handler_type st =
     (let path = pop_slashes path in
      if map_of (fst st) path \<noteq> None then Inr (False, st)
      else if handler_type = ''FileHandler'' then
        and_then (FileHandler_ctor path c) (\<lambda>h. Inr (register path (FileHandler h) ''FileHandler'' st))
      else if handler_type = ''EchoHandler'' then Inr (register path EchoHandler ''EchoHandler'' st)
      else if handler_type = ''404Handler'' then Inr (register path NotFoundHandler ''404Handler'' st)
      else if handler_type = ''StatusHandler'' then Inr (register path StatusHandler ''StatusHandler'' st)
      else if handler_type = ''ProxyHandler'' then
        and_then (ProxyHandler_ctor path c) (\<lambda>h. Inr (register path (ProxyHandler h) ''ProxyHandler'' st))
      else if handler_type = ''SleepHandler'' then Inr (register path SleepHandler ''SleepHandler'' st)
      else if handler_type = ''HealthHandler'' then Inr (register path HealthHandler ''HealthHandler'' st)
      else Inr (False, st))"

text \<open>
  One round of the loop of \<^verbatim>\<open>init_handlers\<close>. A statement without tokens is read out of bounds, and
  \<^verbatim>\<open>*(stmt->child_block_)\<close> of a statement without a block dereferences a null pointer.
\<close>

definition init_step ::
  "statement \<Rightarrow> nat \<times> handler_table \<times> info_table \<Rightarrow> (nat \<times> handler_table \<times> info_table) result" where
  "init_step s acc =
     (case tokens s of
        [] \<Rightarrow> Inl OutOfBounds
      | t # ts \<Rightarrow>
          if length (t # ts) < 3 \<and> t \<noteq> ''listen'' then Inr acc
          else if t \<noteq> ''location'' then Inr acc
          else
            (case child_block s of
               None \<Rightarrow> Inl NullDereference
             | Some c \<Rightarrow>
                 and_then (add_handler c ((t # ts) ! 1) ((t # ts) ! 2) (snd acc)) (\<lambda>(added, st).
                 Inr (if added then fst acc + 1 else fst acc, st))))"

fun init_loop ::
  "statement list \<Rightarrow> nat \<times> handler_table \<times> info_table \<Rightarrow> (nat \<times> handler_table \<times> info_table) result" where
  "init_loop [] acc = Inr acc"
| "init_loop (s # ss) acc = and_then (init_step s acc) (init_loop ss)"

definition init_handlers ::
  "config \<Rightarrow> handler_table \<times> info_table \<Rightarrow> (nat \<times> handler_table \<times> info_table) result" where
  "init_handlers c st =
     init_loop (statements c)
       (1, map_put ''/'' NotFoundHandler (fst st), map_put ''/'' ''404Handler'' (snd st))"

definition Dispatcher_ctor :: "config \<Rightarrow> info_table \<Rightarrow> (dispatcher \<times> info_table) result" where
  "Dispatcher_ctor c info =
     and_then (init_handlers c ([], info)) (\<lambda>(reg_num, hs, info').
     Inr (\<lparr>handlers = hs, regnum = reg_num\<rparr>, info'))"

definition get_regnum :: "dispatcher \<Rightarrow> nat" where
  "get_regnum d = regnum d"

section \<open>Looking a handler up\<close>

definition match_step :: "string \<Rightarrow> string \<times> handler \<Rightarrow> string \<times> handler option \<Rightarrow> string \<times> handler option" where
  "match_step path it acc =
     (if take (length (fst it)) path = fst it then
        if length (fst it) > length (fst acc) then (fst it, Some (snd it)) else acc
      else acc)"

definition get_request_handler :: "dispatcher \<Rightarrow> string \<Rightarrow> handler option" where
  "get_request_handler d uri = snd (fold (match_step (pop_slashes uri)) (handlers d) ([], None))"

section \<open>The longest prefix\<close>

text \<open>\<open>best\<close> is the longest key that is a non-empty prefix of the path, or empty when there is none.\<close>

definition best_match :: "string \<Rightarrow> string set \<Rightarrow> string \<Rightarrow> bool" where
  "best_match path ks best \<longleftrightarrow>
     (best = [] \<or> best \<in> ks \<and> prefix best path) \<and> (\<forall>k \<in> ks. prefix k path \<longrightarrow> length k \<le> length best)"

lemma best_match_unique:
  assumes "best_match path ks a" and "best_match path ks b"
  shows "a = b"
proof -
  have *: "length u \<le> length v" if "best_match path ks u" "best_match path ks v" for u v
    using that by (auto simp: best_match_def)
  then have "length a = length b" using assms by (meson le_antisym)
  moreover have "prefix a path" "prefix b path"
    using assms by (auto simp: best_match_def)
  ultimately show ?thesis by (rule prefix_same_length [rotated 2])
qed

locale prefix_match =
  fixes step :: "string \<Rightarrow> string \<times> 'v \<Rightarrow> string \<times> 'r \<Rightarrow> string \<times> 'r"
    and result :: "'v \<Rightarrow> 'r"
    and missing :: 'r
  assumes step: "step path (k, v) acc =
    (if take (length k) path = k \<and> length (fst acc) < length k then (k, result v) else acc)"
begin

lemma fold_best:
  assumes "fold (step path) m ([], missing) = (best, r)"
  shows "best_match path (fst ` set m) best \<and>
    (if best = [] then r = missing else \<exists>v. (best, v) \<in> set m \<and> r = result v)"
  using assms
proof (induction m arbitrary: best r rule: rev_induct)
  case Nil
  then show ?case by (simp add: best_match_def)
next
  case (snoc e m)
  obtain k v where e: "e = (k, v)" by (cases e)
  obtain b0 r0 where f: "fold (step path) m ([], missing) = (b0, r0)" by force
  note IH = snoc.IH [OF f]
  have last: "step path (k, v) (b0, r0) = (best, r)"
    using snoc.prems by (simp add: f e)
  show ?case
  proof (cases "prefix k path \<and> length b0 < length k")
    case True
    then have "best = k" "r = result v"
      using last by (auto simp: step take_eq_prefix)
    with IH True show ?thesis
      by (auto simp: best_match_def e intro: order.strict_implies_order order.strict_trans1)
  next
    case False
    then have "best = b0" "r = r0"
      using last by (auto simp: step take_eq_prefix split: if_splits)
    with IH False show ?thesis
      by (auto simp: best_match_def e split: if_splits)
  qed
qed

lemma fold_lookup:
  assumes "distinct (map fst m)" and "best_match path (fst ` set m) best"
  shows "snd (fold (step path) m ([], missing)) =
    (if best = [] then missing else result (the (map_of m best)))"
proof -
  obtain b r where f: "fold (step path) m ([], missing) = (b, r)" by force
  have "b = best" using fold_best [OF f] assms(2) best_match_unique by blast
  then show ?thesis
    using fold_best [OF f] f assms(1) by (auto split: if_splits)
qed

lemma best_exists: "\<exists>best. best_match path (fst ` set (m :: (string \<times> 'v) list)) best"
  using fold_best [of path m] by (metis prod.exhaust)

end

interpretation dispatch: prefix_match match_step Some None
  by unfold_locales (simp add: match_step_def)

section \<open>What the table holds\<close>

text \<open>
  The abstract table: the entries of the location statements in file order, of which a lookup finds the
  first.
\<close>

fun handler_name :: "handler \<Rightarrow> string" where
  "handler_name (FileHandler _) = ''FileHandler''"
| "handler_name EchoHandler = ''EchoHandler''"
| "handler_name NotFoundHandler = ''404Handler''"
| "handler_name StatusHandler = ''StatusHandler''"
| "handler_name (ProxyHandler _) = ''ProxyHandler''"
| "handler_name SleepHandler = ''SleepHandler''"
| "handler_name HealthHandler = ''HealthHandler''"

definition built :: "'a result \<Rightarrow> ('a \<Rightarrow> handler) \<Rightarrow> handler option" where
  "built r f = (case r of Inl _ \<Rightarrow> None | Inr x \<Rightarrow> Some (f x))"

definition make_handler :: "string \<Rightarrow> string \<Rightarrow> config \<Rightarrow> handler option" where
  "make_handler handler_type path c =
     (case map_of
        [(''FileHandler'', built (FileHandler_ctor path c) FileHandler),
         (''EchoHandler'', Some EchoHandler), (''404Handler'', Some NotFoundHandler),
         (''StatusHandler'', Some StatusHandler),
         (''ProxyHandler'', built (ProxyHandler_ctor path c) ProxyHandler),
         (''SleepHandler'', Some SleepHandler), (''HealthHandler'', Some HealthHandler)] handler_type of
        None \<Rightarrow> None | Some h \<Rightarrow> h)"

definition location_entry :: "statement \<Rightarrow> (string \<times> handler) option" where
  "location_entry s =
     (case tokens s of
        kw # path # handler_type # _ \<Rightarrow>
          if kw = ''location'' then
            (case child_block s of
               None \<Rightarrow> None
             | Some c \<Rightarrow> map_option (Pair (pop_slashes path)) (make_handler handler_type (pop_slashes path) c))
          else None
      | _ \<Rightarrow> None)"

fun registrations :: "statement list \<Rightarrow> (string \<times> handler) list" where
  "registrations [] = []"
| "registrations (s # ss) =
     (case location_entry s of None \<Rightarrow> registrations ss | Some e \<Rightarrow> e # registrations ss)"

lemma add_handler_result:
  assumes "add_handler c path handler_type (hs, info) = Inr (added, hs', info')"
  shows "if added then map_of hs (pop_slashes path) = None \<and>
      (\<exists>h. make_handler handler_type (pop_slashes path) c = Some h \<and>
        hs' = map_put (pop_slashes path) h hs \<and> info' = map_put (pop_slashes path) (handler_name h) info)
    else hs' = hs \<and> info' = info \<and>
      (map_of hs (pop_slashes path) \<noteq> None \<or> make_handler handler_type (pop_slashes path) c = None)"
proof (cases "map_of hs (pop_slashes path)")
  case None
  show ?thesis
    using assms None
    unfolding add_handler_def make_handler_def Let_def
    by (auto simp: register_def built_def and_then_eq_Inr simp del: not_None_eq split: if_splits)
next
  case (Some h)
  then show ?thesis using assms by (auto simp: add_handler_def Let_def)
qed

text \<open>One round leaves the table or adds the entry of its statement under a new normalised key.\<close>

lemma init_step_result:
  assumes "init_step s (n, hs, info) = Inr (n', hs', info')"
  shows "(n' = n \<and> hs' = hs \<and> info' = info \<and>
      (\<forall>k h. location_entry s = Some (k, h) \<longrightarrow> map_of hs k \<noteq> None)) \<or>
    (\<exists>k h. location_entry s = Some (k, h) \<and> map_of hs k = None \<and> pop_slashes k = k \<and>
      n' = n + 1 \<and> hs' = map_put k h hs \<and> info' = map_put k (handler_name h) info)"
proof (cases "tokens s")
  case Nil
  then show ?thesis using assms by (simp add: init_step_def)
next
  case (Cons t ts)
  show ?thesis
  proof (cases "t = ''location'' \<and> \<not> length (t # ts) < 3")
    case False
    then have "location_entry s = None"
      by (auto simp: location_entry_def Cons split: list.splits)
    moreover have "n' = n \<and> hs' = hs \<and> info' = info"
      using assms False by (auto simp: init_step_def Cons split: if_splits)
    ultimately show ?thesis by simp
  next
    case True
    then obtain path ty ts' where ts: "ts = path # ty # ts'" "t = ''location''"
      by (auto simp: neq_Nil_conv not_less Suc_le_length_iff numeral_2_eq_2)
    then obtain c where c: "child_block s = Some c"
      using assms by (auto simp: init_step_def Cons split: option.splits)
    obtain added st where a: "add_handler c path ty (hs, info) = Inr (added, st)"
      and n: "n' = (if added then n + 1 else n)" "st = (hs', info')"
      using assms by (auto simp: init_step_def Cons ts c and_then_eq_Inr)
    have "location_entry s = map_option (Pair (pop_slashes path)) (make_handler ty (pop_slashes path) c)"
      by (simp add: location_entry_def Cons ts c)
    with add_handler_result [OF a [unfolded n(2)]] n(1) show ?thesis
      by (cases added) auto
  qed
qed

definition table_ok :: "handler_table \<Rightarrow> bool" where
  "table_ok hs \<longleftrightarrow> map_ok hs \<and> (\<forall>k \<in> fst ` set hs. pop_slashes k = k) \<and>
     map_of hs ''/'' = Some NotFoundHandler"

definition info_ok :: "info_table \<Rightarrow> handler_table \<Rightarrow> info_table \<Rightarrow> bool" where
  "info_ok info0 hs info \<longleftrightarrow> map_ok info \<and>
     (\<forall>k. map_of info k =
        (case map_of hs k of Some h \<Rightarrow> Some (handler_name h) | None \<Rightarrow> map_of info0 k))"

lemma map_put_length: "map_ok m \<Longrightarrow> map_of m k = None \<Longrightarrow> length (map_put k v m) = Suc (length m)"
  by (induction k v m rule: map_put.induct) (auto simp: map_ok_def split: if_splits)

lemma keys_put: "fst ` set (map_put k v m) = insert k (fst ` set m)"
  using map_put_keys [of k v m] by simp

lemma init_step_ok:
  assumes "init_step s (n, hs, info) = Inr (n', hs', info')" and "table_ok hs" and "info_ok info0 hs info"
  shows "table_ok hs'" and "info_ok info0 hs' info'" and "n' + length hs = n + length hs'"
    and "map_of hs' = map_of (hs @ registrations [s])"
proof -
  consider "n' = n" "hs' = hs" "info' = info" "\<And>k h. location_entry s = Some (k, h) \<Longrightarrow> map_of hs k \<noteq> None"
    | k h where "location_entry s = Some (k, h)" "map_of hs k = None" "pop_slashes k = k"
      "n' = n + 1" "hs' = map_put k h hs" "info' = map_put k (handler_name h) info"
    using init_step_result [OF assms(1)] by blast
  then have "table_ok hs' \<and> info_ok info0 hs' info' \<and> n' + length hs = n + length hs' \<and>
      map_of hs' = map_of (hs @ registrations [s])"
  proof cases
    case 1
    have "map_of hs = map_of (hs @ registrations [s])"
      using 1(4) by (auto simp: map_add_def fun_eq_iff split: option.splits)
    with assms(2,3) show ?thesis
      unfolding 1(1-3) by (intro conjI refl)
  next
    case 2
    have "k \<noteq> ''/''" using 2(2) assms(2) by (auto simp: table_ok_def)
    moreover have ok: "map_ok hs" "map_ok info"
      using assms(2,3) by (simp_all add: table_ok_def info_ok_def)
    moreover have "map_of hs' = map_of (hs @ registrations [s])"
      using 2 ok by (simp add: fun_eq_iff map_of_put map_add_def split: option.split)
    moreover have "table_ok hs'" "info_ok info0 hs' info'" "n' + length hs = n + length hs'"
      using 2 assms(2,3) calculation(1-3)
      by (simp_all add: table_ok_def info_ok_def map_ok_put map_of_put keys_put map_put_length)
    ultimately show ?thesis by (intro conjI)
  qed
  then show "table_ok hs'" and "info_ok info0 hs' info'" and "n' + length hs = n + length hs'"
    and "map_of hs' = map_of (hs @ registrations [s])"
    by blast+
qed

lemma registrations_Cons: "registrations (s # ss) = registrations [s] @ registrations ss"
  by (auto split: option.splits)

lemma init_loop_ok:
  assumes "init_loop ss (n, hs, info) = Inr (n', hs', info')" and "table_ok hs" and "info_ok info0 hs info"
  shows "table_ok hs' \<and> info_ok info0 hs' info' \<and> n' + length hs = n + length hs' \<and>
    map_of hs' = map_of (hs @ registrations ss)"
  using assms
proof (induction ss arbitrary: n hs info)
  case (Cons s ss)
  obtain n1 hs1 info1 where s: "init_step s (n, hs, info) = Inr (n1, hs1, info1)"
    and ss: "init_loop ss (n1, hs1, info1) = Inr (n', hs', info')"
    using Cons.prems(1) by (auto simp: and_then_eq_Inr)
  note one = init_step_ok [OF s Cons.prems(2,3)]
  have "map_of (hs1 @ registrations ss) = map_of (hs @ registrations (s # ss))"
    by (simp only: registrations_Cons [of s ss] map_of_append one(4) map_add_assoc)
  moreover have "n' + length hs = n + length hs'"
    using Cons.IH [OF ss one(1,2)] one(3) by linarith
  ultimately show ?case using Cons.IH [OF ss one(1,2)] by (simp del: registrations.simps)
qed simp

lemma Dispatcher_ctor_ok:
  assumes "Dispatcher_ctor c info0 = Inr (d, info)" and "map_ok info0"
  shows "table_ok (handlers d)" and "info_ok info0 (handlers d) info"
    and "regnum d = length (handlers d)"
    and "map_of (handlers d) = map_of ((''/'', NotFoundHandler) # registrations (statements c))"
proof -
  have "table_ok [(''/'', NotFoundHandler)]"
    by (simp add: table_ok_def map_ok_def pop_slashes_fixed)
  moreover have "info_ok info0 [(''/'', NotFoundHandler)] (map_put ''/'' ''404Handler'' info0)"
    using assms(2) by (simp add: info_ok_def map_ok_put map_of_put)
  moreover have "init_loop (statements c)
      (1, [(''/'', NotFoundHandler)], map_put ''/'' ''404Handler'' info0) = Inr (regnum d, handlers d, info)"
    using assms(1) by (auto simp: Dispatcher_ctor_def init_handlers_def and_then_eq_Inr)
  ultimately have "table_ok (handlers d) \<and> info_ok info0 (handlers d) info \<and>
      regnum d + length [(''/'', NotFoundHandler)] = 1 + length (handlers d) \<and>
      map_of (handlers d) = map_of ([(''/'', NotFoundHandler)] @ registrations (statements c))"
    by (intro init_loop_ok)
  then show "table_ok (handlers d)" and "info_ok info0 (handlers d) info"
    and "regnum d = length (handlers d)"
    and "map_of (handlers d) = map_of ((''/'', NotFoundHandler) # registrations (statements c))"
    by simp_all
qed

section \<open>Properties of the dispatcher\<close>

text \<open>C16: the table of a constructed dispatcher sends each path, trailing slashes dropped, to the handler
of the first location statement that names it (\<open>/\<close> always to the 404 handler), and \<open>regnum_\<close> is the
number of its entries.\<close>

theorem Dispatcher_first_registration:
  assumes "Dispatcher_ctor c info0 = Inr (d, info)" and "map_ok info0"
  shows "map_of (handlers d) = map_of ((''/'', NotFoundHandler) # registrations (statements c)) \<and>
    get_regnum d = card (dom (map_of (handlers d)))"
proof -
  have "distinct (map fst (handlers d))"
    using Dispatcher_ctor_ok(1) [OF assms] by (simp add: table_ok_def std.distinct_keys)
  then have "card (dom (map_of (handlers d))) = length (handlers d)"
    by (metis dom_map_of_conv_image_fst list.set_map distinct_card length_map)
  then show ?thesis
    using Dispatcher_ctor_ok(3,4) [OF assms] by (simp add: get_regnum_def)
qed

text \<open>\<open>listen 80; location /a/ EchoHandler {} location /a HealthHandler {} location /a/b StatusHandler {}\<close>\<close>

definition sample_config :: config where
  "sample_config = Config
     [Statement [''listen'', ''80''] None,
      Statement [''location'', ''/a/'', ''EchoHandler''] (Some (Config [])),
      Statement [''location'', ''/a'', ''HealthHandler''] (Some (Config [])),
      Statement [''location'', ''/a/b'', ''StatusHandler''] (Some (Config []))]"

definition sample_dispatcher :: dispatcher where
  "sample_dispatcher =
     \<lparr>handlers = [(''/'', NotFoundHandler), (''/a'', EchoHandler), (''/a/b'', StatusHandler)], regnum = 3\<rparr>"

lemma sample_ctor:
  "Dispatcher_ctor sample_config [] = Inr (sample_dispatcher,
     [(''/'', ''404Handler''), (''/a'', ''EchoHandler''), (''/a/b'', ''StatusHandler'')])"
  by code_simp

lemma Dispatcher_first_registration_witness:
  "map_of ((''/'', NotFoundHandler) # registrations (statements sample_config)) ''/a'' = Some EchoHandler"
proof -
  have "map_of (handlers sample_dispatcher) =
      map_of ((''/'', NotFoundHandler) # registrations (statements sample_config))"
    using Dispatcher_first_registration [OF sample_ctor std.ok_empty] by blast
  moreover have "map_of (handlers sample_dispatcher) ''/a'' = Some EchoHandler"
    by (simp add: sample_dispatcher_def)
  ultimately show ?thesis by simp
qed

lemma lookup_by_best:
  assumes "map_ok (handlers d)" and "best_match (pop_slashes uri) (fst ` set (handlers d)) k"
  shows "get_request_handler d uri = (if k = [] then None else map_of (handlers d) k)"
proof -
  have "distinct (map fst (handlers d))"
    using assms(1) by (rule std.distinct_keys)
  moreover have "k \<noteq> [] \<Longrightarrow> map_of (handlers d) k \<noteq> None"
    using assms(2) by (auto simp: best_match_def map_of_eq_None_iff)
  ultimately show ?thesis
    using dispatch.fold_lookup [OF _ assms(2)] by (auto simp: get_request_handler_def)
qed

lemma get_request_handler_slash:
  assumes "Dispatcher_ctor c info0 = Inr (d, info)" and "map_ok info0" and "uri = CHR ''/'' # rest"
  shows "\<exists>k h. get_request_handler d uri = Some h \<and> map_of (handlers d) k = Some h \<and>
    prefix k (pop_slashes uri) \<and>
    (\<forall>k' \<in> dom (map_of (handlers d)). prefix k' (pop_slashes uri) \<longrightarrow> length k' \<le> length k)"
proof -
  have ok: "table_ok (handlers d)" by (rule Dispatcher_ctor_ok(1) [OF assms(1,2)])
  obtain k where k: "best_match (pop_slashes uri) (fst ` set (handlers d)) k"
    using dispatch.best_exists by blast
  have "''/'' \<in> fst ` set (handlers d)"
    using ok by (metis table_ok_def dom_map_of_conv_image_fst domI)
  moreover have "prefix ''/'' (pop_slashes uri)"
    using hd_pop_slashes [of uri] pop_slashes_eq_Nil [of uri] assms(3)
    by (cases "pop_slashes uri") auto
  ultimately have "k \<noteq> []"
    using k by (fastforce simp: best_match_def)
  then have "k \<in> dom (map_of (handlers d))" "prefix k (pop_slashes uri)"
    using k by (auto simp: best_match_def dom_map_of_conv_image_fst)
  moreover have "get_request_handler d uri = map_of (handlers d) k"
    using lookup_by_best [OF _ k] ok \<open>k \<noteq> []\<close> by (simp add: table_ok_def)
  moreover have "\<forall>k' \<in> dom (map_of (handlers d)). prefix k' (pop_slashes uri) \<longrightarrow> length k' \<le> length k"
    using k by (simp add: best_match_def dom_map_of_conv_image_fst)
  ultimately show ?thesis by (metis domD)
qed

text \<open>C14: a request whose path starts with a slash always gets a handler, the one registered under the
longest path that is a prefix of it (the 404 handler of \<open>/\<close> when nothing else matches).\<close>

theorem get_request_handler_longest:
  assumes "Dispatcher_ctor c info0 = Inr (d, info)" and "map_ok info0" and "uri = CHR ''/'' # rest"
  shows "\<exists>k h. get_request_handler d uri = Some h \<and> map_of (handlers d) k = Some h \<and>
    prefix k (pop_slashes uri) \<and>
    (\<forall>k' \<in> dom (map_of (handlers d)). prefix k' (pop_slashes uri) \<longrightarrow> length k' \<le> length k)"
  using assms by (rule get_request_handler_slash)

lemma get_request_handler_longest_witness:
  "\<exists>k h. get_request_handler sample_dispatcher ''/a/bc/'' = Some h \<and> prefix k (pop_slashes ''/a/bc/'') \<and>
     map_of (handlers sample_dispatcher) k = Some h"
  using get_request_handler_longest [OF sample_ctor std.ok_empty refl] by blast

lemma get_request_handler_None:
  assumes "Dispatcher_ctor c info0 = Inr (d, info)" and "map_ok info0"
  shows "get_request_handler d uri = None \<longleftrightarrow>
    (\<forall>k \<in> dom (map_of (handlers d)). k \<noteq> [] \<longrightarrow> \<not> prefix k (pop_slashes uri))"
proof -
  have ok: "map_ok (handlers d)"
    using Dispatcher_ctor_ok(1) [OF assms] by (simp add: table_ok_def)
  obtain k where k: "best_match (pop_slashes uri) (fst ` set (handlers d)) k"
    using dispatch.best_exists by blast
  have "get_request_handler d uri = None \<longleftrightarrow> k = []"
    using lookup_by_best [OF ok k] k
    by (auto simp: best_match_def map_of_eq_None_iff)
  also have "\<dots> \<longleftrightarrow> (\<forall>k \<in> dom (map_of (handlers d)). k \<noteq> [] \<longrightarrow> \<not> prefix k (pop_slashes uri))"
    using k by (auto simp: best_match_def dom_map_of_conv_image_fst)
  finally show ?thesis .
qed

text \<open>The dispatcher returns a null pointer exactly when no non-empty registered path is a prefix of
the request's path, which is the case for every target that does not start with a slash (\<open>*\<close>, an
absolute URL) as soon as all locations do.\<close>

theorem get_request_handler_null:
  assumes "Dispatcher_ctor c info0 = Inr (d, info)" and "map_ok info0"
  shows "get_request_handler d uri = None \<longleftrightarrow>
    (\<forall>k \<in> dom (map_of (handlers d)). k \<noteq> [] \<longrightarrow> \<not> prefix k (pop_slashes uri))"
  using assms by (rule get_request_handler_None)

lemma get_request_handler_null_witness: "get_request_handler sample_dispatcher ''*'' = None"
  unfolding get_request_handler_null [OF sample_ctor std.ok_empty]
  by (simp add: sample_dispatcher_def pop_slashes_fixed)

text \<open>A configuration with a location statement that has no block never yields a dispatcher.\<close>

theorem Dispatcher_needs_blocks:
  assumes "s \<in> set (statements c)" and "tokens s = ''location'' # path # handler_type # ts"
    and "child_block s = None"
  shows "\<exists>e. Dispatcher_ctor c info = Inl e"
proof -
  have "init_step s acc = Inl NullDereference" for acc
    using assms(2,3) by (simp add: init_step_def)
  then have "\<exists>e. init_loop ss acc = Inl e" if "s \<in> set ss" for ss acc
    using that
  proof (induction ss arbitrary: acc)
    case (Cons s' ss)
    then show ?case
      using \<open>\<And>acc. init_step s acc = Inl NullDereference\<close>
      by (cases "s' = s"; cases "init_step s' acc") auto
  qed simp
  then show ?thesis
    using assms(1) by (auto simp: Dispatcher_ctor_def init_handlers_def and_then_eq_Inl)
qed

lemma Dispatcher_needs_blocks_witness:
  "\<exists>e. Dispatcher_ctor (Config [Statement [''location'', ''/a'', ''EchoHandler''] None]) [] = Inl e"
  by (rule Dispatcher_needs_blocks [of "Statement [''location'', ''/a'', ''EchoHandler''] None"]) simp_all

end
