(* ===== verification/Logger.thy ===== *)
theory Logger
  imports Prelude
begin

text \<open>
  \<^verbatim>\<open>logger.cc\<close>: what the constructor of \<^verbatim>\<open>Logger\<close> sets up in the logging core of the process. The core is
  shared: every \<^verbatim>\<open>Logger\<close> adds its two sinks to those that are there, and every record goes to all of
  them. The text of the records is not modelled.
\<close>

section \<open>The logging core\<close>

record file_sink =
  file_name :: string
  rotation_size :: nat
  rotation_time :: "nat \<times> nat \<times> nat"
  auto_flush :: bool
  file_format :: string

datatype log_sink = File_log file_sink | Console_log string

record log_core =
  formatters :: "string set"
  sinks :: "log_sink list"
  common_attributes :: bool

definition no_logging :: log_core where
  "no_logging = \<lparr>formatters = {}, sinks = [], common_attributes = False\<rparr>"

section \<open>Logger::init\<close>

definition log_format :: string where
  "log_format = ''[%TimeStamp%] [%ThreadID%] [%Severity%]: %Message%''"

definition server_log :: file_sink where
  "server_log =
     \<lparr>file_name = ''server_%N.log'', rotation_size = 10 * 1024 * 1024, rotation_time = (0, 0, 0),
      auto_flush = True, file_format = log_format\<rparr>"

definition Logger_init :: "log_core \<Rightarrow> log_core" where
  "Logger_init core =
     (let core = core\<lparr>formatters := insert ''Severity'' (formatters core)\<rparr>;
          core = core\<lparr>sinks := sinks core @ [File_log server_log]\<rparr>;
          core = core\<lparr>sinks := sinks core @ [Console_log log_format]\<rparr>
      in core\<lparr>common_attributes := True\<rparr>)"

definition Logger_ctor :: "log_core \<Rightarrow> log_core" where
  "Logger_ctor core = Logger_init core"

lemma sinks_Logger [simp]: "sinks (Logger_ctor core) = sinks core @ [File_log server_log, Console_log log_format]"
  by (simp add: Logger_ctor_def Logger_init_def Let_def)

end
