(* ===== verification/Status.thy ===== *)
theory Status
  imports Dispatcher Logger "HOL-Library.Multiset"
begin

text \<open>
  The static members the sessions and the status page share, and \<^verbatim>\<open>status_handler.cc\<close>: \<^verbatim>\<open>condense\<close>
  tallies the log of response codes (its \<^verbatim>\<open>int\<close> counts stay below \<open>request_count\<close>, which has not
  overflowed), \<^verbatim>\<open>split\<close> takes a row apart again, \<^verbatim>\<open>handle_request\<close> prints
  the page.
\<close>

section \<open>State shared by the process\<close>

text \<open>
  \<^verbatim>\<open>session::request_count\<close>, \<^verbatim>\<open>session::handled_requests\<close>, \<^verbatim>\<open>Dispatcher::handler_info\<close> and the core of the
  logging library.
\<close>

type_synonym request_log = "(string, nat list) std_map"

record statics =
  request_count :: nat
  handled_requests :: request_log
  handler_info :: info_table
  logging :: log_core

section \<open>The status page\<close>

definition row_key :: "string \<Rightarrow> nat \<Rightarrow> string" where
  "row_key uri code = uri @ '' '' @ to_string code"

definition condense :: "request_log \<Rightarrow> (string, nat) std_map" where
  "condense log =
     fold (\<lambda>it condense_codes. fold (\<lambda>code. map_count (row_key (fst it) code)) (snd it) condense_codes) log []"

fun split_loop :: "string \<Rightarrow> char \<Rightarrow> string \<Rightarrow> string list \<Rightarrow> string list" where
  "split_loop [] c buff v = (if buff \<noteq> [] then v @ [buff] else v)"
| "split_loop (n # ns) c buff v =
     (if n \<noteq> c then split_loop ns c (buff @ [n]) v
      else if n = c \<and> buff \<noteq> [] then split_loop ns c [] (v @ [buff])
      else split_loop ns c buff v)"

definition split_on :: "string \<Rightarrow> char \<Rightarrow> string list" where
  "split_on s c = split_loop s c [] []"

definition token_at :: "string list \<Rightarrow> nat \<Rightarrow> string result" where
  "token_at v i = (if i < length v then Inr (v ! i) else Inl OutOfBounds)"

definition request_row :: "string \<times> nat \<Rightarrow> string result" where
  "request_row it =
     (let row = fst it @ '' '' @ to_string (snd it);
          toks = split_on row c_space in
      and_then (token_at toks 0) (\<lambda>t0.
      and_then (token_at toks 1) (\<lambda>t1.
      and_then (token_at toks 2) (\<lambda>t2.
      Inr (''<tr><td>'' @ t0 @ ''</td><td>'' @ t1 @ ''</td><td>'' @ t2 @ ''</td></tr>'')))))"

fun request_rows :: "(string \<times> nat) list \<Rightarrow> string \<Rightarrow> string result" where
  "request_rows [] request_info = Inr request_info"
| "request_rows (it # its) request_info =
     and_then (request_row it) (\<lambda>row. request_rows its (request_info @ row))"

definition info_row :: "string \<times> string \<Rightarrow> string" where
  "info_row it = ''<tr><td>'' @ fst it @ ''</td><td>'' @ snd it @ ''</td></tr>''"

definition status_page :: "nat \<Rightarrow> string \<Rightarrow> string \<Rightarrow> string" where
  "status_page n request_info info =
     ''<h1>Total number of requests: '' @ to_string n @ ''</h1>'' @
     ''<h2>Detail Request Status</h2>'' @
     ''<table>'' @
     ''<tr><th>URL Requested</th><th>Return Code</th><th>Count</th></tr>'' @ request_info @ ''</table>'' @
     ''<h2>Request Handlers</h2>'' @
     ''<table>'' @
     ''<tr><th>URL Prefix</th><th>Handler</th></tr>'' @ info @ ''</table>''"

definition Status_handle_request :: "beast \<Rightarrow> statics \<Rightarrow> response result" where
  "Status_handle_request b st =
     and_then (request_rows (condense (handled_requests st)) []) (\<lambda>request_info.
       let info = concat (map info_row (handler_info st));
           display_content = status_page (request_count st) request_info info
       in Inr (prepare_payload b ((fresh b)\<lparr>result_int := 200, body := display_content\<rparr>)))"

section \<open>Splitting\<close>

fun join_with :: "char \<Rightarrow> string list \<Rightarrow> string" where
  "join_with c [] = []"
| "join_with c [t] = t"
| "join_with c (t # ts) = t @ c # join_with c ts"

lemma split_loop_word:
  "c \<notin> set t \<Longrightarrow> split_loop (t @ s) c buff v = split_loop s c (buff @ t) v"
  by (induction t arbitrary: buff) auto

lemma split_loop_join:
  "\<forall>t \<in> set ts. t \<noteq> [] \<and> c \<notin> set t \<Longrightarrow> split_loop (join_with c ts) c [] v = v @ ts"
proof (induction c ts arbitrary: v rule: join_with.induct)
  case (2 c t)
  then show ?case using split_loop_word [of c t "[]"] by simp
next
  case (3 c t u ts)
  then show ?case using split_loop_word [of c t "c # join_with c (u # ts)"] by simp
qed simp

text \<open>\<open>split\<close> undoes joining non-empty words with the delimiter.\<close>

theorem split_join:
  assumes "\<forall>t \<in> set ts. t \<noteq> [] \<and> c \<notin> set t"
  shows "split_on (join_with c ts) c = ts"
  using split_loop_join [OF assms] by (simp add: split_on_def)

lemma split_join_witness: "split_on ''/a 200 3'' c_space = [''/a'', ''200'', ''3'']"
  using split_join [of "[''/a'', ''200'', ''3'']" c_space] by simp

lemma split_row:
  assumes "uri \<noteq> []" and "c_space \<notin> set uri"
  shows "split_on (row_key uri code @ '' '' @ to_string n) c_space = [uri, to_string code, to_string n]"
proof -
  have sp: "c_space \<notin> set (to_string k)" for k
    using to_string_digits [of c_space k] by (auto simp: is_digit_def)
  have "row_key uri code @ '' '' @ to_string n = join_with c_space [uri, to_string code, to_string n]"
    by (simp add: row_key_def)
  then show ?thesis
    using assms sp by (simp only: split_on_def) (subst split_loop_join; simp)
qed

section \<open>The tally\<close>

definition logged_keys :: "request_log \<Rightarrow> string list" where
  "logged_keys log = concat (map (\<lambda>it. map (row_key (fst it)) (snd it)) log)"

lemma condense_tally: "condense log = fold map_count (logged_keys log) []"
proof -
  have "fold (\<lambda>it m. fold (\<lambda>code. map_count (row_key (fst it) code)) (snd it) m) log m =
      fold map_count (logged_keys log) m" for m
    by (induction log arbitrary: m) (auto simp: logged_keys_def fold_map o_def)
  then show ?thesis by (simp add: condense_def)
qed

lemma length_logged_keys: "length (logged_keys log) = sum_list (map (\<lambda>it. length (snd it)) log)"
  by (simp add: logged_keys_def length_concat o_def)

lemma logged_keys_put:
  "map_ok log \<Longrightarrow> mset (logged_keys (map_put u v log)) +
     mset (map (row_key u) (case map_of log u of None \<Rightarrow> [] | Some codes \<Rightarrow> codes)) =
     mset (logged_keys log) + mset (map (row_key u) v)"
proof (induction u v log rule: map_put.induct)
  case (2 u v u' v' log)
  have "map_of log u = None" if "u \<le> u'"
    using 2(2) that by (force simp: map_ok_def map_of_eq_None_iff)
  moreover have "map_ok log" using 2(2) by (simp add: map_ok_def)
  ultimately show ?case
    using 2(1) by (cases u u' rule: linorder_cases) (auto simp: logged_keys_def)
qed (simp add: logged_keys_def)

lemma logged_keys_push:
  "map_ok log \<Longrightarrow> mset (logged_keys (map_push u code log)) = add_mset (row_key u code) (mset (logged_keys log))"
  using logged_keys_put [of log u "(case map_of log u of None \<Rightarrow> [] | Some codes \<Rightarrow> codes) @ [code]"]
  by (auto simp: map_push_def split: option.splits)

text \<open>The tally depends on what was logged, not on the order.\<close>

lemma condense_cong:
  assumes "mset (logged_keys log) = mset (logged_keys log')"
  shows "condense log = condense log'"
proof -
  have "map_of (condense log) k = map_of (condense log') k" for k
    unfolding condense_tally counter.lookup_tally
    using assms by (metis count_mset set_mset_mset)
  then show ?thesis
    by (intro std.entries_ext) (simp_all add: condense_tally counter.ok_tally)
qed

lemma condense_sum: "sum_list (map snd (condense log)) = sum_list (map (\<lambda>it. length (snd it)) log)"
  by (simp add: condense_tally counter.sum_tally length_logged_keys)

lemma row_key_inject: "row_key u c = row_key u' c' \<longleftrightarrow> u = u' \<and> c = c'"
proof
  assume eq: "row_key u c = row_key u' c'"
  have sp: "c_space \<notin> set (to_string k)" for k
    using to_string_digits [of c_space k] by (auto simp: is_digit_def)
  have "rev (to_string c) @ c_space # rev u = rev (to_string c') @ c_space # rev u'"
    using arg_cong [OF eq, of rev] by (simp add: row_key_def)
  moreover have "takeWhile (\<lambda>x. x \<noteq> c_space) (rev (to_string k) @ c_space # r) = rev (to_string k)" for k r
    using sp [of k] by (subst takeWhile_append2) auto
  ultimately have "rev (to_string c) = rev (to_string c')" by metis
  with eq show "u = u' \<and> c = c'" by (simp add: row_key_def)
qed simp

lemma count_row_keys: "count_list (map (row_key u) cs) (row_key u' c) = (if u = u' then count_list cs c else 0)"
  by (induction cs) (auto simp: row_key_inject)

lemma count_logged:
  "distinct (map fst log) \<Longrightarrow> count_list (logged_keys log) (row_key uri code) =
     (case map_of log uri of None \<Rightarrow> 0 | Some codes \<Rightarrow> count_list codes code)"
proof (induction log)
  case (Cons it log)
  have "map_of log (fst it) = None"
    using Cons.prems by (simp add: map_of_eq_None_iff)
  with Cons show ?case
    by (auto simp: logged_keys_def count_list_append count_row_keys)
qed (simp add: logged_keys_def)

lemma condense_lookup:
  assumes "map_ok log"
  shows "map_of (condense log) (row_key uri code) =
    (case map_of log uri of
       None \<Rightarrow> None
     | Some codes \<Rightarrow> if code \<in> set codes then Some (count_list codes code) else None)"
proof -
  have count: "count_list (logged_keys log) (row_key uri code) =
      (case map_of log uri of None \<Rightarrow> 0 | Some codes \<Rightarrow> count_list codes code)"
    using count_logged std.distinct_keys [OF assms] .
  have "row_key uri code \<in> set (logged_keys log) \<longleftrightarrow> count_list (logged_keys log) (row_key uri code) \<noteq> 0"
    by (simp add: count_list_0_iff)
  then show ?thesis
    unfolding condense_tally counter.lookup_tally
    using count by (auto simp: count_list_0_iff split: option.splits)
qed

lemma condense_ok: "map_ok (condense log)"
  by (simp add: condense_tally counter.ok_tally)

lemma condense_entry:
  assumes "map_ok log"
  shows "(row_key uri code, n) \<in> set (condense log) \<longleftrightarrow>
    (\<exists>codes. map_of log uri = Some codes \<and> code \<in> set codes \<and> n = count_list codes code)"
  using condense_lookup [OF assms, of uri code]
  by (auto simp: std.entries_lookup [OF condense_ok] split: option.splits if_splits)

lemma condense_keys:
  assumes "(k, n) \<in> set (condense log)"
  shows "\<exists>uri code. k = row_key uri code"
proof -
  have "map_of (condense log) k = Some n"
    using assms by (simp add: std.entries_lookup [OF condense_ok])
  then have "k \<in> set (logged_keys log)"
    unfolding condense_tally counter.lookup_tally by (simp split: if_splits)
  then show ?thesis by (auto simp: logged_keys_def)
qed

text \<open>The abstract table: its rows as triples of path, code and count.\<close>

definition row_html :: "string \<times> nat \<times> nat \<Rightarrow> string" where
  "row_html = (\<lambda>(uri, code, n). ''<tr><td>'' @ uri @ ''</td><td>'' @ to_string code @ ''</td><td>'' @
     to_string n @ ''</td></tr>'')"

lemma condense_rows:
  assumes "map_ok log"
  obtains rows where "condense log = map (\<lambda>(uri, code, n). (row_key uri code, n)) rows" "distinct rows"
    "set rows = {(uri, code, n). \<exists>codes. map_of log uri = Some codes \<and> code \<in> set codes \<and>
       n = count_list codes code}"
proof -
  let ?f = "\<lambda>(uri, code, n::nat). (row_key uri code, n)"
  have "\<forall>e \<in> set (condense log). \<exists>x. e = ?f x"
    using condense_keys by (fastforce simp: split_paired_Ex)
  then obtain rows where rows: "condense log = map ?f rows"
    unfolding ex_map_conv [symmetric] by blast
  have inj: "inj ?f" by (auto simp: inj_def row_key_inject)
  have "distinct (condense log)"
    using std.distinct_keys [OF condense_ok] distinct_map by blast
  then have "distinct rows" using rows by (simp add: distinct_map)
  moreover have "(u, c, n) \<in> set rows \<longleftrightarrow> (row_key u c, n) \<in> set (condense log)" for u c n
    unfolding rows using inj_image_mem_iff [OF inj, of "(u, c, n)" "set rows"] by simp
  ultimately show thesis
    using that [OF rows] condense_entry [OF assms] by auto
qed

lemma request_rows_html:
  "\<forall>r \<in> set rows. fst r \<noteq> [] \<and> c_space \<notin> set (fst r) \<Longrightarrow>
    request_rows (map (\<lambda>(uri, code, n). (row_key uri code, n)) rows) info =
      Inr (info @ concat (map row_html rows))"
proof (induction rows arbitrary: info)
  case (Cons r rows)
  obtain u c n where r: "r = (u, c, n)" by (cases r)
  then have "request_row (row_key u c, n) = Inr (row_html r)"
    using Cons.prems split_row [of u c n]
    by (simp add: request_row_def token_at_def row_html_def)
  with Cons show ?case by (simp add: r)
qed simp

lemma sum_rows: "sum_list (map snd (map (\<lambda>(uri, code, n). (row_key uri code, n)) rows)) = sum_list (map (snd \<circ> snd) rows)"
  by (induction rows) auto

lemma Status_rows:
  assumes "map_ok (handled_requests st)"
    and "\<forall>uri \<in> dom (map_of (handled_requests st)). uri \<noteq> [] \<and> c_space \<notin> set uri"
  shows "\<exists>rows. distinct rows \<and>
    set rows = {(uri, code, n). \<exists>codes. map_of (handled_requests st) uri = Some codes \<and>
      code \<in> set codes \<and> n = count_list codes code} \<and>
    sum_list (map (snd \<circ> snd) rows) = sum_list (map (\<lambda>it. length (snd it)) (handled_requests st)) \<and>
    request_rows (condense (handled_requests st)) [] = Inr (concat (map row_html rows))"
proof (rule condense_rows [OF assms(1)])
  fix rows
  assume rows: "condense (handled_requests st) = map (\<lambda>(uri, code, n). (row_key uri code, n)) rows"
    "distinct rows" "set rows = {(uri, code, n). \<exists>codes. map_of (handled_requests st) uri = Some codes \<and>
       code \<in> set codes \<and> n = count_list codes code}"
  then have "\<forall>r \<in> set rows. fst r \<noteq> [] \<and> c_space \<notin> set (fst r)"
    using assms(2) by auto
  with rows show ?thesis
    using request_rows_html [of rows "[]"] condense_sum [of "handled_requests st"] sum_rows [of rows] by auto
qed

text \<open>
  When the logged paths are non-empty and hold no space, \<open>StatusHandler\<close> answers 200 with a page that has
  exactly one row for each logged path and code, with the number of times it was logged, and one row for
  each entry of the handler table. Nothing logged is lost: the counts add up to the length of the log.
\<close>

theorem Status_page_counts:
  assumes "beast_ok b" and "map_ok (handled_requests st)"
    and "\<forall>uri \<in> dom (map_of (handled_requests st)). uri \<noteq> [] \<and> c_space \<notin> set uri"
  shows "\<exists>r rows. Status_handle_request b st = Inr r \<and> result_int r = 200 \<and> distinct rows \<and>
    set rows = {(uri, code, n). \<exists>codes. map_of (handled_requests st) uri = Some codes \<and>
      code \<in> set codes \<and> n = count_list codes code} \<and>
    sum_list (map (snd \<circ> snd) rows) = sum_list (map (\<lambda>it. length (snd it)) (handled_requests st)) \<and>
    body r = status_page (request_count st) (concat (map row_html rows))
      (concat (map info_row (handler_info st)))"
proof -
  obtain rows where rows: "distinct rows"
    "set rows = {(uri, code, n). \<exists>codes. map_of (handled_requests st) uri = Some codes \<and>
      code \<in> set codes \<and> n = count_list codes code}"
    "sum_list (map (snd \<circ> snd) rows) = sum_list (map (\<lambda>it. length (snd it)) (handled_requests st))"
    "request_rows (condense (handled_requests st)) [] = Inr (concat (map row_html rows))"
    using Status_rows [OF assms(2,3)] by blast
  have page: "\<exists>r. Status_handle_request b st = Inr r \<and> result_int r = 200 \<and>
      body r = status_page (request_count st) (concat (map row_html rows))
        (concat (map info_row (handler_info st)))"
    using rows(4) assms(1) by (simp add: Status_handle_request_def beast_simps Let_def)
  show ?thesis
    using page rows(1-3) by blast
qed

lemma Status_page_sample:
  "\<exists>r. Status_handle_request plain_beast
     \<lparr>request_count = 3, handled_requests = [(''/a'', [200, 404, 200])], handler_info = [], logging = no_logging\<rparr> = Inr r"
  using Status_page_counts [OF plain_beast_ok,
      of "\<lparr>request_count = 3, handled_requests = [(''/a'', [200, 404, 200])], handler_info = [], logging = no_logging\<rparr>"]
  by (auto simp: map_ok_def)

end
