(* ===== verification/Session.thy ===== *)
theory Session
  imports Status
begin

text \<open>
  \<^verbatim>\<open>session.cc\<close>: a session as the state of one connection object, with the asynchronous operation it
  has outstanding, and its handlers as functions. \<^verbatim>\<open>data_\<close> is an array of \<open>max_length\<close> bytes; the
  model keeps the part in front of its all-zero rest. Each handler runs as one step; the race two threads
  can have inside a handler is the subject of \<open>Races\<close>.
\<close>

section \<open>State\<close>

text \<open>
  The operation the I/O service will call back for: a handshake, a read to the given offset of
  \<^verbatim>\<open>data_\<close>, the write of \<^verbatim>\<open>buffer_\<close>, or none.
\<close>

datatype pending = Idle | Accepting | Handshaking | Reading nat | Writing

record session =
  s_version :: string
  data :: string
  buffer :: response
  pending_op :: pending
  socket_open :: bool
  deleted :: bool

definition max_length :: nat where
  "max_length = 1024000"

definition Session_ctor_http :: "beast \<Rightarrow> session" where
  "Session_ctor_http b =
     \<lparr>s_version = ''http'', data = [], buffer = fresh b, pending_op = Idle, socket_open = False, deleted = False\<rparr>"

definition Session_ctor_https :: "beast \<Rightarrow> session" where
  "Session_ctor_https b =
     \<lparr>s_version = ''https'', data = [], buffer = fresh b, pending_op = Idle, socket_open = False, deleted = False\<rparr>"

text \<open>
  What \<^verbatim>\<open>socket\<close> and \<^verbatim>\<open>sslsocket\<close> hand out: the plain socket, which every session has, and the lowest layer
  of the TLS stream behind \<^verbatim>\<open>sslsocket_ptr_\<close>, a pointer only the constructor with a TLS context sets.
\<close>

datatype socket_ref = Plain_socket | Tls_socket

definition socket :: "session \<Rightarrow> socket_ref" where
  "socket s = Plain_socket"

definition sslsocket :: "session \<Rightarrow> socket_ref result" where
  "sslsocket s = (if s_version s = ''https'' then Inr Tls_socket else Inl NullDereference)"

section \<open>The buffer\<close>

text \<open>
  The bytes of \<^verbatim>\<open>data_\<close> read as a C string, and their number. A full array without a zero byte is read
  past its end.
\<close>

definition c_data :: "string \<Rightarrow> string result" where
  "c_data d =
     (if c_nul \<in> set d \<or> length d < max_length then Inr (takeWhile (\<lambda>c. c \<noteq> c_nul) d)
      else Inl OutOfBounds)"

definition strlen :: "string \<Rightarrow> nat result" where
  "strlen d = and_then (c_data d) (\<lambda>s. Inr (length s))"

text \<open>
  The bytes a read stores at an offset: \<^verbatim>\<open>async_read_some\<close> was given room for \<open>max_length\<close> bytes there,
  whatever the offset, so that a long read leaves the array.
\<close>

definition store_bytes :: "nat \<Rightarrow> string \<Rightarrow> string \<Rightarrow> string result" where
  "store_bytes off bs d =
     (if off + length bs \<le> max_length
      then Inr (take off d @ replicate (off - length d) c_nul @ bs @ drop (off + length bs) d)
      else Inl OutOfBounds)"

definition fill_data_with :: "string \<Rightarrow> session \<Rightarrow> session result" where
  "fill_data_with msg s =
     and_then (store_bytes 0 (takeWhile (\<lambda>c. c \<noteq> c_nul) msg @
         replicate (length msg - length (takeWhile (\<lambda>c. c \<noteq> c_nul) msg)) c_nul) (data s))
       (\<lambda>d. Inr (s\<lparr>data := d\<rparr>))"

definition get_data :: "session \<Rightarrow> string result" where
  "get_data s = c_data (data s)"

definition end_of_request :: "session \<Rightarrow> bool result" where
  "end_of_request s =
     and_then (c_data (data s)) (\<lambda>request.
     Inr (str_find request [c_cr, c_nl, c_cr, c_nl] 0 \<noteq> None \<or> str_find request [c_nl, c_nl] 0 \<noteq> None))"

section \<open>Handlers\<close>

definition start :: "session \<Rightarrow> session" where
  "start s =
     (if s_version s = ''https'' then s\<lparr>pending_op := Handshaking\<rparr>
      else if s_version s = ''http'' then s\<lparr>data := [], pending_op := Reading 0\<rparr>
      else s)"

text \<open>The error code of a callback, as far as the sources look at it.\<close>

definition handle_handshake :: "bool \<Rightarrow> session \<Rightarrow> session" where
  "handle_handshake error s =
     (if \<not> error then s\<lparr>data := [], pending_op := Reading 0\<rparr> else s\<lparr>deleted := True\<rparr>)"

definition append_data :: "session \<Rightarrow> session result" where
  "append_data s =
     and_then (strlen (data s)) (\<lambda>n.
     if s_version s = ''https'' then Inr (s\<lparr>pending_op := Reading n\<rparr>)
     else if s_version s = ''http'' then Inr (s\<lparr>pending_op := Reading n\<rparr>)
     else Inr s)"

definition async_write :: "session \<Rightarrow> session" where
  "async_write s =
     (if s_version s = ''https'' then s\<lparr>pending_op := Writing\<rparr>
      else if s_version s = ''http'' then s\<lparr>pending_op := Writing\<rparr>
      else s)"

definition name_step :: "string \<Rightarrow> string \<times> string \<Rightarrow> string \<times> string \<Rightarrow> string \<times> string" where
  "name_step path it acc =
     (if take (length (fst it)) path = fst it then
        if length (fst it) > length (fst acc) then (fst it, snd it) else acc
      else acc)"

definition get_handler_name :: "info_table \<Rightarrow> string \<Rightarrow> string" where
  "get_handler_name info uri = snd (fold (name_step (pop_slashes uri)) info ([], []))"

text \<open>
  The virtual call \<^verbatim>\<open>handler->handle_request(req)\<close>; \<open>None\<close> when a proxied request never returns.
\<close>

fun handle_request ::
  "beast \<Rightarrow> world \<Rightarrow> statics \<Rightarrow> handler \<Rightarrow> request \<Rightarrow> response result option" where
  "handle_request b w st (FileHandler h) req = Some (File_handle_request b w h req)"
| "handle_request b w st EchoHandler req = Some (Echo_handle_request b req)"
| "handle_request b w st NotFoundHandler req = Some (Inr (NotFound_handle_request b))"
| "handle_request b w st StatusHandler req = Some (Status_handle_request b st)"
| "handle_request b w st (ProxyHandler h) req = Proxy_handle_request b w h req"
| "handle_request b w st SleepHandler req = Some (Inr (snd (Sleep_handle_request b)))"
| "handle_request b w st HealthHandler req = Some (Inr (Health_handle_request b))"

definition bad_request :: "beast \<Rightarrow> response" where
  "bad_request b =
     prepare_payload b ((fresh b)\<lparr>result_int := 400, body := ''<h1>400 Bad Request</h1>''\<rparr>)"

text \<open>
  \<^verbatim>\<open>request_count++; handled_requests[uri].push_back(buffer_.result_int());\<close>
\<close>

definition log_request :: "string \<Rightarrow> nat \<Rightarrow> statics \<Rightarrow> statics result" where
  "log_request uri code st =
     (if request_count st = int_max then Inl SignedOverflow
      else Inr (st\<lparr>request_count := request_count st + 1,
                   handled_requests := map_push uri code (handled_requests st)\<rparr>))"

text \<open>
  The last part of \<^verbatim>\<open>send_response\<close>: the peer's address is asked for, which throws when the peer has
  gone (\<open>peer\<close> tells whether it is there), and the write of the buffer starts.
\<close>

definition write_response :: "bool \<Rightarrow> session \<Rightarrow> session result" where
  "write_response peer s =
     (if s_version s = ''https'' \<or> s_version s = ''http'' then
        if peer then Inr (async_write s) else Inl ThrowSystemError
      else Inr s)"

definition send_response ::
  "beast \<Rightarrow> world \<Rightarrow> dispatcher \<Rightarrow> bool \<Rightarrow> session \<times> statics \<Rightarrow> (session \<times> statics) result option" where
  "send_response b w d peer = (\<lambda>(s, st).
     (case c_data (data s) of
        Inl e \<Rightarrow> Some (Inl e)
      | Inr text \<Rightarrow>
          (case parse_request b text of
             None \<Rightarrow> Some (Inr (async_write (s\<lparr>buffer := bad_request b\<rparr>), st))
           | Some req \<Rightarrow>
               (case get_request_handler d (target req) of
                  None \<Rightarrow> Some (Inl NullDereference)
                | Some handler \<Rightarrow>
                    map_option
                      (\<lambda>res. and_then res (\<lambda>r.
                        and_then (log_request (target req) (result_int r) st) (\<lambda>st'.
                        and_then (write_response peer (s\<lparr>buffer := r\<rparr>)) (\<lambda>s'. Inr (s', st')))))
                      (handle_request b w st handler req)))))"

definition handle_read ::
  "beast \<Rightarrow> world \<Rightarrow> dispatcher \<Rightarrow> bool \<Rightarrow> bool \<Rightarrow> session \<times> statics \<Rightarrow> (session \<times> statics) result option" where
  "handle_read b w d error peer = (\<lambda>(s, st).
     if \<not> error then
       (case end_of_request s of
          Inl e \<Rightarrow> Some (Inl e)
        | Inr complete \<Rightarrow>
            if \<not> complete then Some (and_then (append_data s) (\<lambda>s'. Inr (s', st)))
            else send_response b w d peer (s, st))
     else Some (Inr (s\<lparr>deleted := True\<rparr>, st)))"

definition handle_write :: "bool \<Rightarrow> session \<Rightarrow> session" where
  "handle_write error s =
     (if \<not> error then
        let s = s\<lparr>data := []\<rparr> in
        if s_version s = ''https'' then s\<lparr>socket_open := False\<rparr>
        else if s_version s = ''http'' then s\<lparr>socket_open := False\<rparr>
        else s
      else s\<lparr>deleted := True\<rparr>)"

section \<open>Callbacks\<close>

text \<open>
  What the I/O service reports to a session: the end of a handshake, bytes read (with whether the peer
  is still there when it is asked for), a failed read, the end of a write. The service stores the bytes
  and takes the operation off before it calls the handler.
\<close>

datatype callback =
    Handshake_done bool
  | Bytes_read string bool
  | Read_failed
  | Write_done bool

definition receive ::
  "beast \<Rightarrow> world \<Rightarrow> dispatcher \<Rightarrow> nat \<Rightarrow> string \<Rightarrow> bool \<Rightarrow> session \<times> statics \<Rightarrow>
   (session \<times> statics) result option" where
  "receive b w d off bs peer = (\<lambda>(s, st).
     (case store_bytes off bs (data s) of
        Inl e \<Rightarrow> Some (Inl e)
      | Inr new \<Rightarrow> handle_read b w d False peer (s\<lparr>data := new, pending_op := Idle\<rparr>, st)))"

fun on_callback ::
  "beast \<Rightarrow> world \<Rightarrow> dispatcher \<Rightarrow> callback \<Rightarrow> session \<times> statics \<Rightarrow> (session \<times> statics) result option" where
  "on_callback b w d (Handshake_done error) (s, st) =
     Some (Inr (handle_handshake error (s\<lparr>pending_op := Idle\<rparr>), st))"
| "on_callback b w d (Bytes_read bs peer) (s, st) =
     (case pending_op s of
        Reading off \<Rightarrow> receive b w d off bs peer (s, st)
      | _ \<Rightarrow> Some (Inr (s, st)))"
| "on_callback b w d Read_failed (s, st) =
     handle_read b w d True False (s\<lparr>pending_op := Idle\<rparr>, st)"
| "on_callback b w d (Write_done error) (s, st) =
     Some (Inr (handle_write error (s\<lparr>pending_op := Idle\<rparr>), st))"

text \<open>The callbacks an outstanding operation can end in.\<close>

fun awaits :: "pending \<Rightarrow> callback \<Rightarrow> bool" where
  "awaits Handshaking (Handshake_done _) = True"
| "awaits (Reading _) (Bytes_read _ _) = True"
| "awaits (Reading _) Read_failed = True"
| "awaits Writing (Write_done _) = True"
| "awaits _ _ = False"

lemma awaits_iff:
  "awaits p (Handshake_done e) \<longleftrightarrow> p = Handshaking"
  "awaits p (Bytes_read bs peer) \<longleftrightarrow> (\<exists>off. p = Reading off)"
  "awaits p Read_failed \<longleftrightarrow> (\<exists>off. p = Reading off)"
  "awaits p (Write_done e) \<longleftrightarrow> p = Writing"
  by (cases p; simp)+

section \<open>Handler names\<close>

interpretation names: prefix_match name_step "\<lambda>v. v" "[]"
  by unfold_locales (simp add: name_step_def)

lemma name_of_handler:
  assumes hs: "map_ok (handlers d)" and info: "map_ok info"
    and agree: "\<And>k. map_of info k = map_option handler_name (map_of (handlers d) k)"
  shows "get_handler_name info uri =
    (case get_request_handler d uri of None \<Rightarrow> [] | Some h \<Rightarrow> handler_name h)"
proof -
  have "dom (map_of info) = dom (map_of (handlers d))"
    using agree by (auto simp: dom_def)
  then have keys: "fst ` set info = fst ` set (handlers d)"
    by (simp add: dom_map_of_conv_image_fst)
  obtain k where k: "best_match (pop_slashes uri) (fst ` set (handlers d)) k"
    using dispatch.best_exists by blast
  have "get_handler_name info uri = (if k = [] then [] else the (map_of info k))"
    using names.fold_lookup [OF std.distinct_keys [OF info], of "pop_slashes uri" k] k keys
    by (simp add: get_handler_name_def)
  moreover have "k \<noteq> [] \<Longrightarrow> map_of (handlers d) k \<noteq> None"
    using k by (auto simp: best_match_def map_of_eq_None_iff)
  ultimately show ?thesis
    using lookup_by_best [OF hs k] agree [of k] by auto
qed

text \<open>C23: \<open>session::get_handler_name\<close> names the handler \<open>Dispatcher::get_request_handler\<close> picks, for the
first dispatcher of the process and for a second one built from the same configuration.\<close>

theorem get_handler_name_agrees:
  assumes "Dispatcher_ctor c [] = Inr (d, info)" and "Dispatcher_ctor c info = Inr (d', info')"
  shows "get_handler_name info' uri =
    (case get_request_handler d' uri of None \<Rightarrow> [] | Some h \<Rightarrow> handler_name h) \<and>
    get_handler_name info uri =
    (case get_request_handler d uri of None \<Rightarrow> [] | Some h \<Rightarrow> handler_name h)"
proof -
  have "map_ok ([] :: info_table)" by (rule std.ok_empty)
  note one = Dispatcher_ctor_ok [OF assms(1) this]
  then have "map_ok info" by (simp add: info_ok_def)
  note two = Dispatcher_ctor_ok [OF assms(2) this]
  have a: "map_of info k = map_option handler_name (map_of (handlers d) k)" for k
    using one(2) by (simp add: info_ok_def split: option.splits)
  have "map_of (handlers d') = map_of (handlers d)"
    using one(4) two(4) by simp
  then have "map_of info' k = map_option handler_name (map_of (handlers d') k)" for k
    using two(2) a [of k] by (auto simp: info_ok_def split: option.splits)
  then show ?thesis
    using name_of_handler [of d' info'] name_of_handler [of d info] one(1,2) two(1,2) a
    by (auto simp: table_ok_def info_ok_def)
qed

lemma get_handler_name_agrees_witness:
  "get_handler_name [(''/'', ''404Handler''), (''/a'', ''EchoHandler''), (''/a/b'', ''StatusHandler'')] ''/zz'' =
   (case get_request_handler sample_dispatcher ''/zz'' of None \<Rightarrow> [] | Some h \<Rightarrow> handler_name h)"
proof -
  have "Dispatcher_ctor sample_config
      [(''/'', ''404Handler''), (''/a'', ''EchoHandler''), (''/a/b'', ''StatusHandler'')] =
    Inr (sample_dispatcher, [(''/'', ''404Handler''), (''/a'', ''EchoHandler''), (''/a/b'', ''StatusHandler'')])"
    by code_simp
  then show ?thesis
    using get_handler_name_agrees [OF sample_ctor] by blast
qed

section \<open>Requests in pieces\<close>

definition request_complete :: "string \<Rightarrow> bool" where
  "request_complete t \<longleftrightarrow> sublist [c_cr, c_nl, c_cr, c_nl] t \<or> sublist [c_nl, c_nl] t"

lemma c_data_plain:
  assumes "c_nul \<notin> set d" and "length d < max_length"
  shows "c_data d = Inr d"
proof -
  have "\<forall>x \<in> set d. x \<noteq> c_nul" using assms(1) by auto
  then show ?thesis using assms(2) by (simp add: c_data_def takeWhile_eq_all_conv)
qed

lemma end_of_request_plain:
  assumes "c_nul \<notin> set (data s)" and "length (data s) < max_length"
  shows "end_of_request s = Inr (request_complete (data s))"
  using assms by (simp only: end_of_request_def c_data_plain and_then_simps request_complete_def str_find_None simp_thms)

lemma store_bytes_append:
  "length d + length bs \<le> max_length \<Longrightarrow> store_bytes (length d) bs d = Inr (d @ bs)"
  by (simp add: store_bytes_def)

lemma request_complete_mono: "request_complete t \<Longrightarrow> request_complete (t @ u)"
  unfolding request_complete_def by (meson sublist_append_rightI sublist_order.order.trans)

fun feed ::
  "beast \<Rightarrow> world \<Rightarrow> dispatcher \<Rightarrow> bool \<Rightarrow> string list \<Rightarrow> session \<times> statics \<Rightarrow> (session \<times> statics) result option" where
  "feed b w d peer [] x = Some (Inr x)"
| "feed b w d peer (bs # cs) x =
     (case on_callback b w d (Bytes_read bs peer) x of
        None \<Rightarrow> None
      | Some (Inl e) \<Rightarrow> Some (Inl e)
      | Some (Inr x') \<Rightarrow> feed b w d peer cs x')"

definition version_ok :: "string \<Rightarrow> bool" where
  "version_ok v \<longleftrightarrow> v = ''http'' \<or> v = ''https''"

lemma receive_incomplete:
  assumes "pending_op s = Reading (length (data s))" and "version_ok (s_version s)"
    and "c_nul \<notin> set (data s @ bs)" and "length (data s @ bs) < max_length"
    and "\<not> request_complete (data s @ bs)"
  shows "on_callback b w d (Bytes_read bs peer) (s, st) =
    Some (Inr (s\<lparr>data := data s @ bs, pending_op := Reading (length (data s @ bs))\<rparr>, st))"
proof -
  have "store_bytes (length (data s)) bs (data s) = Inr (data s @ bs)"
    using assms(4) by (intro store_bytes_append) simp
  then show ?thesis
    using assms end_of_request_plain [of "s\<lparr>data := data s @ bs, pending_op := Idle\<rparr>"]
      c_data_plain [of "data s @ bs"]
    by (auto simp: receive_def handle_read_def append_data_def strlen_def version_ok_def)
qed

lemma feed_incomplete:
  assumes "pending_op s = Reading (length (data s))" and "version_ok (s_version s)"
    and "c_nul \<notin> set (data s @ concat cs)" and "length (data s @ concat cs) < max_length"
    and "\<not> request_complete (data s @ concat cs)"
  shows "feed b w d peer (cs @ ds) (s, st) =
    feed b w d peer ds
      (s\<lparr>data := data s @ concat cs, pending_op := Reading (length (data s @ concat cs))\<rparr>, st)"
  using assms
proof (induction cs arbitrary: s)
  case Nil
  then show ?case by (cases s) simp
next
  case (Cons bs cs)
  have "\<not> request_complete (data s @ bs)"
    using Cons.prems(5) request_complete_mono [of "data s @ bs" "concat cs"] by auto
  then have "on_callback b w d (Bytes_read bs peer) (s, st) =
      Some (Inr (s\<lparr>data := data s @ bs, pending_op := Reading (length (data s @ bs))\<rparr>, st))"
    using Cons.prems by (intro receive_incomplete) auto
  then show ?case
    using Cons.prems Cons.IH [of "s\<lparr>data := data s @ bs, pending_op := Reading (length (data s @ bs))\<rparr>"]
    by (simp del: on_callback.simps)
qed

lemma last_piece:
  assumes "pending_op s = Reading (length (data s))" and "version_ok (s_version s)"
    and "c_nul \<notin> set (data s @ bs)" and "length (data s @ bs) < max_length"
    and "request_complete (data s @ bs)"
  shows "on_callback b w d (Bytes_read bs peer) (s, st) =
    send_response b w d peer (s\<lparr>data := data s @ bs, pending_op := Idle\<rparr>, st)"
proof -
  have "store_bytes (length (data s)) bs (data s) = Inr (data s @ bs)"
    using assms(4) by (intro store_bytes_append) simp
  then show ?thesis
    using assms end_of_request_plain [of "s\<lparr>data := data s @ bs, pending_op := Idle\<rparr>"]
    by (simp add: receive_def handle_read_def)
qed

lemma feed_request:
  assumes "pending_op s = Reading 0" and "data s = []" and "version_ok (s_version s)"
    and "c_nul \<notin> set (concat cs @ bs)" and "length (concat cs @ bs) < max_length"
    and "\<not> request_complete (concat cs)" and "request_complete (concat cs @ bs)"
  shows "feed b w d peer (cs @ [bs]) (s, st) =
    send_response b w d peer (s\<lparr>data := concat cs @ bs, pending_op := Idle\<rparr>, st)"
proof -
  let ?s = "s\<lparr>data := concat cs, pending_op := Reading (length (concat cs))\<rparr>"
  have "feed b w d peer (cs @ [bs]) (s, st) = feed b w d peer [bs] (?s, st)"
    using assms feed_incomplete [of s cs b w d peer "[bs]" st] by simp
  moreover have "on_callback b w d (Bytes_read bs peer) (?s, st) =
      send_response b w d peer (s\<lparr>data := concat cs @ bs, pending_op := Idle\<rparr>, st)"
    using assms last_piece [of ?s bs b w d peer st] by simp
  ultimately show ?thesis
    by (simp del: on_callback.simps split: option.splits sum.splits)
qed

text \<open>C15: a request that arrives in pieces is answered as if it had arrived at once: while the end of the
request has not come the session appends and reads on, and the piece that brings it hands the whole text
to \<open>send_response\<close>. The request holds no zero byte and stays below the size of the buffer.\<close>

theorem request_in_pieces:
  assumes "pending_op s = Reading 0" and "data s = []" and "version_ok (s_version s)"
    and "c_nul \<notin> set (concat cs @ bs)" and "length (concat cs @ bs) < max_length"
    and "\<not> request_complete (concat cs)" and "request_complete (concat cs @ bs)"
  shows "feed b w d peer (cs @ [bs]) (s, st) = feed b w d peer [concat cs @ bs] (s, st) \<and>
    on_callback b w d (Bytes_read (concat cs @ bs) peer) (s, st) =
      send_response b w d peer (s\<lparr>data := concat cs @ bs, pending_op := Idle\<rparr>, st)"
proof -
  have "on_callback b w d (Bytes_read (concat cs @ bs) peer) (s, st) =
      send_response b w d peer (s\<lparr>data := concat cs @ bs, pending_op := Idle\<rparr>, st)"
    using assms last_piece [of s "concat cs @ bs" b w d peer st] by simp
  then show ?thesis
    using feed_request [OF assms, of b w d peer st]
    by (simp del: on_callback.simps split: option.splits sum.splits)
qed

definition sample_session :: session where
  "sample_session = start (Session_ctor_http plain_beast)"

lemma sample_session_simps [simp]:
  "pending_op sample_session = Reading 0" "data sample_session = []"
  "s_version sample_session = ''http''"
  by (simp_all add: sample_session_def start_def Session_ctor_http_def)

definition no_requests :: statics where
  "no_requests = \<lparr>request_count = 0, handled_requests = [], handler_info = [], logging = no_logging\<rparr>"

lemma request_in_pieces_witness:
  "feed plain_beast sample_world sample_dispatcher True
      [''GET / HTTP/1.1'' @ [c_cr], [c_nl, c_cr], [c_nl]] (sample_session, no_requests) =
   feed plain_beast sample_world sample_dispatcher True
      [''GET / HTTP/1.1'' @ [c_cr, c_nl, c_cr, c_nl]] (sample_session, no_requests)"
  using request_in_pieces [of sample_session "[''GET / HTTP/1.1'' @ [c_cr], [c_nl, c_cr]]" "[c_nl]"
      plain_beast sample_world sample_dispatcher True no_requests]
  by (simp add: version_ok_def max_length_def request_complete_def sublist_Cons_right)

text \<open>C39: a request that fills the buffer before its end has come makes the session access memory behind
the array (\<open>append_data\<close> offers the service room for \<open>max_length\<close> bytes at every offset).\<close>

theorem long_request_leaves_buffer:
  assumes "pending_op s = Reading 0" and "data s = []" and "version_ok (s_version s)"
    and "c_nul \<notin> set (concat cs @ bs)" and "length (concat cs) < max_length"
    and "\<not> request_complete (concat cs)" and "max_length \<le> length (concat cs @ bs)"
  shows "feed b w d peer (cs @ [bs]) (s, st) = Some (Inl OutOfBounds)"
proof -
  have "feed b w d peer (cs @ [bs]) (s, st) =
      feed b w d peer [bs] (s\<lparr>data := data s @ concat cs, pending_op := Reading (length (data s @ concat cs))\<rparr>, st)"
    using assms by (intro feed_incomplete) auto
  moreover have "store_bytes (length (concat cs)) bs (concat cs) = Inl OutOfBounds \<or>
      store_bytes (length (concat cs)) bs (concat cs) = Inr (concat cs @ bs)"
    using assms(7) by (auto simp: store_bytes_def)
  moreover have "c_data (concat cs @ bs) = Inl OutOfBounds"
    using assms(4,7) by (simp add: c_data_def)
  ultimately show ?thesis
    using assms(2) by (auto simp: receive_def handle_read_def end_of_request_def)
qed

lemma long_request_leaves_buffer_witness:
  "feed plain_beast sample_world sample_dispatcher True
      [replicate 1023999 (CHR ''a''), ''aa''] (sample_session, no_requests) = Some (Inl OutOfBounds)"
proof -
  have "\<not> request_complete (replicate n (CHR ''a''))" for n
    by (auto simp: request_complete_def dest!: set_mono_sublist)
  then show ?thesis
    using long_request_leaves_buffer [of sample_session "[replicate 1023999 (CHR ''a'')]" "''aa''"
        plain_beast sample_world sample_dispatcher True no_requests]
    by (simp add: version_ok_def max_length_def)
qed

section \<open>The log of responses\<close>

definition logged_total :: "request_log \<Rightarrow> nat" where
  "logged_total log = sum_list (map (\<lambda>it. length (snd it)) log)"

text \<open>
  The invariant of the static members: the counter is the number of codes in the log, it fits an
  \<^verbatim>\<open>int\<close>, and the logged paths are not empty and hold no space.
\<close>

definition statics_ok :: "statics \<Rightarrow> bool" where
  "statics_ok st \<longleftrightarrow> map_ok (handled_requests st) \<and>
     request_count st = logged_total (handled_requests st) \<and> request_count st \<le> int_max \<and>
     (\<forall>uri \<in> dom (map_of (handled_requests st)). uri \<noteq> [] \<and> c_space \<notin> set uri)"

text \<open>Documented behaviour of the parser: a request target holds no space.\<close>

definition targets_ok :: "beast \<Rightarrow> bool" where
  "targets_ok b \<longleftrightarrow> (\<forall>t req. parse_request b t = Some req \<longrightarrow> c_space \<notin> set (target req))"

lemma plain_targets_ok: "targets_ok plain_beast"
  by (auto simp: targets_ok_def plain_beast_def dest: set_takeWhileD)

lemma logged_total_push:
  assumes "map_ok log"
  shows "logged_total (map_push k x log) = logged_total log + 1"
  using arg_cong [OF logged_keys_push [OF assms, of k x], of size]
  by (simp add: length_logged_keys logged_total_def)

lemma log_request_ok:
  assumes "log_request uri code st = Inr st'" and "statics_ok st" and "uri \<noteq> []" and "c_space \<notin> set uri"
  shows "statics_ok st'"
  using assms log.lookup_push [of "handled_requests st" uri code] logged_total_push log.ok_push
  by (auto simp: statics_ok_def log_request_def split: if_splits)

lemma handler_needs_path:
  assumes "map_ok (handlers d)" and "get_request_handler d uri = Some h"
  shows "uri \<noteq> []"
proof -
  obtain k where k: "best_match (pop_slashes uri) (fst ` set (handlers d)) k"
    using dispatch.best_exists by blast
  then have "k \<noteq> []" "prefix k (pop_slashes uri)"
    using assms lookup_by_best [OF assms(1) k] by (auto simp: best_match_def split: if_splits)
  then show ?thesis by (auto simp: pop_slashes_fixed)
qed

lemma send_response_statics:
  assumes "send_response b w d peer (s, st) = Some (Inr (s', st'))"
    and "statics_ok st" and "map_ok (handlers d)" and "targets_ok b"
  shows "statics_ok st'"
proof (cases "c_data (data s)")
  case (Inl e)
  then show ?thesis using assms(1) by (simp add: send_response_def)
next
  case data: (Inr t)
  show ?thesis
  proof (cases "parse_request b t")
    case None
    then show ?thesis using assms(1,2) data by (simp add: send_response_def)
  next
    case (Some req)
    then obtain h where h: "get_request_handler d (target req) = Some h"
      using assms(1) data by (auto simp: send_response_def split: option.splits)
    then obtain r :: response where "log_request (target req) (result_int r) st = Inr st'"
      using assms(1) data Some by (auto simp: send_response_def and_then_eq_Inr)
    then show ?thesis
      using log_request_ok assms(2,4) Some handler_needs_path [OF assms(3) h]
      by (auto simp: targets_ok_def)
  qed
qed

lemma on_callback_statics:
  assumes "on_callback b w d cb (s, st) = Some (Inr (s', st'))"
    and "statics_ok st" and "map_ok (handlers d)" and "targets_ok b"
  shows "statics_ok st'"
proof (cases cb)
  case (Bytes_read bs peer)
  show ?thesis
  proof (cases "pending_op s")
    case (Reading off)
    then show ?thesis
      using assms send_response_statics [OF _ assms(2-4)]
      by (auto simp: Bytes_read receive_def handle_read_def and_then_eq_Inr split: sum.splits if_splits)
  qed (use assms in \<open>simp_all add: Bytes_read\<close>)
qed (use assms in \<open>simp_all add: handle_read_def\<close>)

text \<open>The table of handlers and the logging core are not touched after the start.\<close>

lemma log_request_frame:
  "log_request uri code st = Inr st' \<Longrightarrow> handler_info st' = handler_info st \<and> logging st' = logging st"
  by (auto simp: log_request_def split: if_splits)

lemma send_response_frame:
  assumes "send_response b w d peer (s, st) = Some (Inr (s', st'))"
  shows "handler_info st' = handler_info st \<and> logging st' = logging st"
  using assms log_request_frame
  by (force simp: send_response_def and_then_eq_Inr split: sum.splits option.splits)

lemma on_callback_frame:
  assumes "on_callback b w d cb (s, st) = Some (Inr (s', st'))"
  shows "handler_info st' = handler_info st \<and> logging st' = logging st"
proof (cases cb)
  case (Bytes_read bs peer)
  then show ?thesis
    using assms send_response_frame
    by (auto simp: receive_def handle_read_def and_then_eq_Inr split: pending.splits sum.splits if_splits)
qed (use assms in \<open>simp_all add: handle_read_def\<close>)

section \<open>Outcomes of a request\<close>

text \<open>Text the parser rejects is answered with status 400, and neither counted nor logged.\<close>

lemma malformed_gets_400:
  assumes "beast_ok b" and "c_data (data s) = Inr t" and "parse_request b t = None"
    and "version_ok (s_version s)"
  shows "send_response b w d peer (s, st) =
      Some (Inr (s\<lparr>buffer := bad_request b, pending_op := Writing\<rparr>, st)) \<and>
    result_int (bad_request b) = 400 \<and> body (bad_request b) = ''<h1>400 Bad Request</h1>''"
  using assms
  by (auto simp: send_response_def bad_request_def async_write_def version_ok_def beast_simps)

text \<open>A request for which the dispatcher has no handler dereferences a null pointer.\<close>

lemma unrouted_request_faults:
  assumes "c_data (data s) = Inr t" and "parse_request b t = Some req"
    and "get_request_handler d (target req) = None"
  shows "send_response b w d peer (s, st) = Some (Inl NullDereference)"
  using assms by (simp add: send_response_def)

lemma send_response_answers:
  assumes "request_count st < int_max" and "version_ok (s_version s)"
    and "c_data (data s) = Inr t" and "parse_request b t = Some req"
    and "get_request_handler d (target req) = Some h" and "handle_request b w st h req = Some (Inr r)"
  shows "send_response b w d peer (s, st) =
    (if peer then Some (Inr (s\<lparr>buffer := r, pending_op := Writing\<rparr>,
       st\<lparr>request_count := request_count st + 1,
          handled_requests := map_push (target req) (result_int r) (handled_requests st)\<rparr>))
     else Some (Inl ThrowSystemError))"
  using assms
  by (auto simp: send_response_def log_request_def write_response_def async_write_def version_ok_def)

text \<open>C20: a routed request whose handler returns is counted, its code is appended to the log of its path
and to no other, and its response is what the session starts to write; when the peer has gone by then,
the exception of \<open>remote_endpoint\<close> leaves the handler instead.\<close>

theorem answered_request_logged:
  assumes "map_ok (handled_requests st)" and "request_count st < int_max" and "version_ok (s_version s)"
    and "c_data (data s) = Inr t" and "parse_request b t = Some req"
    and "get_request_handler d (target req) = Some h" and "handle_request b w st h req = Some (Inr r)"
  shows "\<exists>st'. send_response b w d True (s, st) =
      Some (Inr (s\<lparr>buffer := r, pending_op := Writing\<rparr>, st')) \<and>
    request_count st' = request_count st + 1 \<and> handler_info st' = handler_info st \<and>
    (\<forall>uri. map_of (handled_requests st') uri =
       (if uri = target req
        then Some ((case map_of (handled_requests st) uri of None \<Rightarrow> [] | Some codes \<Rightarrow> codes) @ [result_int r])
        else map_of (handled_requests st) uri)) \<and>
    send_response b w d False (s, st) = Some (Inl ThrowSystemError)"
  using send_response_answers [OF assms(2-7)] log.lookup_push [OF assms(1), of "target req" "result_int r"]
  by auto

lemma answered_request_logged_witness:
  "\<exists>s' st'. send_response plain_beast sample_world sample_dispatcher True
     (sample_session\<lparr>data := ''GET /zz HTTP/1.1''\<rparr>, no_requests) = Some (Inr (s', st')) \<and>
     request_count st' = 1 \<and> map_of (handled_requests st') ''/zz'' = Some [404]"
proof -
  let ?s = "sample_session\<lparr>data := ''GET /zz HTTP/1.1''\<rparr>"
  have "get_request_handler sample_dispatcher ''/zz'' = Some NotFoundHandler"
    by (simp add: get_request_handler_def sample_dispatcher_def match_step_def pop_slashes_fixed)
  then have "\<exists>st'. send_response plain_beast sample_world sample_dispatcher True (?s, no_requests) =
      Some (Inr (?s\<lparr>buffer := NotFound_handle_request plain_beast, pending_op := Writing\<rparr>, st')) \<and>
    request_count st' = request_count no_requests + 1 \<and> handler_info st' = handler_info no_requests \<and>
    (\<forall>uri. map_of (handled_requests st') uri =
       (if uri = target (sample_get ''/zz'')
        then Some ((case map_of (handled_requests no_requests) uri of None \<Rightarrow> [] | Some codes \<Rightarrow> codes) @
          [result_int (NotFound_handle_request plain_beast)])
        else map_of (handled_requests no_requests) uri)) \<and>
    send_response plain_beast sample_world sample_dispatcher False (?s, no_requests) = Some (Inl ThrowSystemError)"
    by (intro answered_request_logged [where t = "''GET /zz HTTP/1.1''" and h = NotFoundHandler])
       (simp_all add: no_requests_def std.ok_empty int_max_def version_ok_def c_data_def max_length_def
         plain_beast_def sample_get_def)
  then show ?thesis
    by (auto simp: no_requests_def NotFound_handle_request_def sample_get_def beast_simps [OF plain_beast_ok])
qed

end
