(* ===== verification/Config_Query.thy ===== *)
theory Config_Query
  imports Config "HOL-Library.Word"
begin

text \<open>
  The parts of \<^verbatim>\<open>NginxConfigParser\<close> that read a parsed configuration for the server:
  \<^verbatim>\<open>GetPortNumber\<close> with its \<^verbatim>\<open>short\<close> out-parameter as a 16-bit word, and \<^verbatim>\<open>GetKeyPath\<close> with the two
  members it sets. Both search the printed form of each top-level statement.
\<close>

section \<open>The value after a keyword\<close>

definition value_start :: "string \<Rightarrow> nat \<Rightarrow> nat option" where
  "value_start text pos = find_first_not_of text [c_space, c_tab, c_nl, c_cr] (Some pos)"

definition value_end :: "string \<Rightarrow> nat option \<Rightarrow> nat option" where
  "value_end text start = find_first_of text [c_space, c_tab, CHR '';''] start"

definition value_text :: "string \<Rightarrow> nat \<Rightarrow> string result" where
  "value_text text pos =
     (let s = value_start text pos in substr text s (span_length (value_end text s) s))"

section \<open>GetPortNumber\<close>

text \<open>
  The keyword searched for. For any other port type the source reads a position it has not set.
\<close>

definition port_keyword :: "string \<Rightarrow> string result" where
  "port_keyword port_type =
     (if port_type = ''HTTP'' then Inr ''listen''
      else if port_type = ''HTTPS'' then Inr ''ssl-port''
      else Inl UninitialisedRead)"

definition port_of_text :: "string \<Rightarrow> nat \<Rightarrow> 16 word \<Rightarrow> (bool \<times> 16 word) result" where
  "port_of_text text pos port_number =
     (if value_end text (value_start text pos) = value_start text pos then Inr (False, port_number)
      else
        and_then (value_text text pos) (\<lambda>port.
        if find_first_not_of port ''0123456789'' (Some 0) \<noteq> None then Inr (False, port_number)
        else
          and_then (stoi port) (\<lambda>int_port.
          if int_port > 65535 then Inr (False, port_number)
          else Inr (True, word_of_nat int_port))))"

fun port_loop :: "string \<Rightarrow> statement list \<Rightarrow> 16 word \<Rightarrow> (bool \<times> 16 word) result" where
  "port_loop port_type [] port_number = Inr (False, port_number)"
| "port_loop port_type (s # ss) port_number =
     and_then (port_keyword port_type) (\<lambda>keyword.
       (case str_find (statement_ToString 0 s) keyword 0 of
          Some pos \<Rightarrow> port_of_text (statement_ToString 0 s) (pos + length keyword) port_number
        | None \<Rightarrow> port_loop port_type ss port_number))"

definition GetPortNumber :: "config \<Rightarrow> string \<Rightarrow> 16 word \<Rightarrow> (bool \<times> 16 word) result" where
  "GetPortNumber out_config port_type port_number =
     port_loop port_type (statements out_config) port_number"

section \<open>GetKeyPath\<close>

record key_paths =
  ssl_private_path :: string
  ssl_public_path :: string

definition key_step :: "string \<Rightarrow> key_paths \<Rightarrow> key_paths result" where
  "key_step key_statement ps =
     and_then
       (case str_find key_statement ''private_key_root'' 0 of
          None \<Rightarrow> Inr ps
        | Some pos \<Rightarrow>
            and_then (value_text key_statement (pos + 16)) (\<lambda>v. Inr (ps\<lparr>ssl_private_path := v\<rparr>)))
       (\<lambda>ps'.
          case str_find key_statement ''public_key_root'' 0 of
            None \<Rightarrow> Inr ps'
          | Some pos \<Rightarrow>
              and_then (value_text key_statement (pos + 15)) (\<lambda>v. Inr (ps'\<lparr>ssl_public_path := v\<rparr>)))"

fun key_loop :: "statement list \<Rightarrow> key_paths \<Rightarrow> key_paths result" where
  "key_loop [] ps = Inr ps"
| "key_loop (s # ss) ps = and_then (key_step (statement_ToString 0 s) ps) (key_loop ss)"

definition GetKeyPath :: "config \<Rightarrow> key_paths \<Rightarrow> (bool \<times> key_paths) result" where
  "GetKeyPath out_config ps =
     and_then (key_loop (statements out_config) ps) (\<lambda>ps'.
       Inr (\<not> (ssl_public_path ps' = [] \<or> ssl_private_path ps' = []), ps'))"

definition GetSSLPrivateKeyPath :: "key_paths \<Rightarrow> string" where
  "GetSSLPrivateKeyPath ps = ssl_private_path ps"

definition GetSSLPublicKeyPath :: "key_paths \<Rightarrow> string" where
  "GetSSLPublicKeyPath ps = ssl_public_path ps"

section \<open>Reading a simple statement\<close>

text \<open>A value that the search takes whole: no blank and no semicolon in it.\<close>

definition simple_value :: "string \<Rightarrow> bool" where
  "simple_value v \<longleftrightarrow> v \<noteq> [] \<and> set v \<inter> {c_space, c_tab, c_nl, c_cr, CHR '';''} = {}"

lemma value_span:
  assumes "simple_value v"
  shows "value_start (kw @ c_space # v @ CHR '';'' # r) (length kw) = Some (Suc (length kw))"
    and "value_end (kw @ c_space # v @ CHR '';'' # r) (Some (Suc (length kw))) =
           Some (Suc (length kw) + length v)"
    and "value_text (kw @ c_space # v @ CHR '';'' # r) (length kw) = Inr v"
proof -
  obtain x xs where v: "v = x # xs" "x \<notin> {c_space, c_tab, c_nl, c_cr, CHR '';''}"
    using assms by (cases v) (auto simp: simple_value_def)
  show s: "value_start (kw @ c_space # v @ CHR '';'' # r) (length kw) = Some (Suc (length kw))"
    using v by (simp add: value_start_def find_first_not_of_def)
  have "\<forall>c \<in> set v. c \<notin> set [c_space, c_tab, CHR '';'']"
    using assms by (auto simp: simple_value_def)
  then show e: "value_end (kw @ c_space # v @ CHR '';'' # r) (Some (Suc (length kw))) =
      Some (Suc (length kw) + length v)"
    by (simp add: value_end_def find_first_of_def first_index_skip)
  show "value_text (kw @ c_space # v @ CHR '';'' # r) (length kw) = Inr v"
    using s e by (simp add: value_text_def substr_def span_length_def)
qed

lemma simple_value_to_string: "simple_value (to_string n)"
  using to_string_digits [of _ n] by (auto simp: simple_value_def is_digit_def)

lemma str_find_prefix: "needle \<noteq> [] \<Longrightarrow> str_find (needle @ r) needle 0 = Some 0"
  by (simp add: str_find_def find_from_prefix)

lemma statement_text: "statement_ToString 0 (Statement [kw, v] None) = kw @ c_space # v @ CHR '';'' # [c_nl]"
  by (simp add: indent_def)

lemma digits_only: "find_first_not_of (to_string n) ''0123456789'' (Some 0) = None"
  using to_string_digits [of _ n]
  by (auto simp: find_first_not_of_def first_index_None is_digit_def)

lemma port_of_simple_text:
  "port_of_text (kw @ c_space # to_string n @ CHR '';'' # [c_nl]) (length kw) p =
     (if n \<le> 65535 then Inr (True, word_of_nat n)
      else if n \<le> int_max then Inr (False, p)
      else Inl ThrowOutOfRange)"
proof -
  have st: "stoi (to_string n) = (if n \<le> int_max then Inr n else Inl ThrowOutOfRange)"
    by (simp add: stoi_def takeWhile_digits to_string_digits)
  have "value_end (kw @ c_space # to_string n @ CHR '';'' # [c_nl])
      (value_start (kw @ c_space # to_string n @ CHR '';'' # [c_nl]) (length kw)) \<noteq>
      value_start (kw @ c_space # to_string n @ CHR '';'' # [c_nl]) (length kw)"
    unfolding value_span [OF simple_value_to_string] by simp
  then show ?thesis
    using value_span(3) [OF simple_value_to_string, of kw n "[c_nl]"]
    by (simp add: port_of_text_def digits_only st int_max_def)
qed

lemma port_loop_skip:
  assumes "port_keyword ty = Inr kw" and "\<forall>s \<in> set pre. \<not> sublist kw (statement_ToString 0 s)"
  shows "port_loop ty (pre @ ss) p = port_loop ty ss p"
  using assms(2) by (induction pre) (auto simp: assms(1) str_find_None [symmetric])

lemma port_keyword_nonempty: "port_keyword ty = Inr kw \<Longrightarrow> kw \<noteq> []"
  by (auto simp: port_keyword_def split: if_splits)

lemma GetPortNumber_reads:
  assumes "port_keyword ty = Inr kw" and "\<forall>s \<in> set pre. \<not> sublist kw (statement_ToString 0 s)"
  shows "GetPortNumber (Config (pre @ Statement [kw, to_string n] None # post)) ty p =
     (if n \<le> 65535 then Inr (True, word_of_nat n)
      else if n \<le> int_max then Inr (False, p)
      else Inl ThrowOutOfRange)"
proof -
  have "str_find (kw @ c_space # to_string n @ CHR '';'' # [c_nl]) kw 0 = Some 0"
    by (rule str_find_prefix [OF port_keyword_nonempty [OF assms(1)]])
  then show ?thesis
    using port_of_simple_text [of kw n p]
    by (simp add: GetPortNumber_def port_loop_skip [OF assms] assms(1) statement_text del: statement_ToString.simps)
qed

text \<open>
  C32: Reading the port. The first top-level statement whose text contains the keyword (\<^verbatim>\<open>listen\<close>
  for HTTP, \<^verbatim>\<open>ssl-port\<close> for HTTPS) decides. When it is the keyword and a decimal number, the call
  returns true exactly for numbers up to 65535, and the 16 bits of the \<^verbatim>\<open>short\<close> out-parameter, read
  as the unsigned port the acceptor is given, are that number; a larger \<^verbatim>\<open>int\<close> is refused with the
  out-parameter untouched, and a number above \<^verbatim>\<open>INT_MAX\<close> leaves as \<^verbatim>\<open>std::out_of_range\<close>.
\<close>

theorem GetPortNumber_reads_port:
  assumes "port_keyword ty = Inr kw" and "\<forall>s \<in> set pre. \<not> sublist kw (statement_ToString 0 s)"
  shows "GetPortNumber (Config (pre @ Statement [kw, to_string n] None # post)) ty p =
     (if n \<le> 65535 then Inr (True, word_of_nat n)
      else if n \<le> int_max then Inr (False, p)
      else Inl ThrowOutOfRange) \<and>
     (n \<le> 65535 \<longrightarrow> unat (word_of_nat n :: 16 word) = n)"
  using GetPortNumber_reads [OF assms, of n post p]
  by (simp add: unat_of_nat take_bit_nat_eq_self)

theorem GetPortNumber_reads_port_witness:
  "GetPortNumber (Config ([Statement [''root''] None] @ Statement [''listen'', to_string 50000] None # [])) ''HTTP'' 0 =
     Inr (True, word_of_nat 50000) \<and> unat (word_of_nat 50000 :: 16 word) = 50000"
proof -
  have kw: "port_keyword ''HTTP'' = Inr ''listen''" by (simp add: port_keyword_def)
  have pre: "\<forall>s \<in> set [Statement [''root''] None]. \<not> sublist ''listen'' (statement_ToString 0 s)"
    by code_simp
  show ?thesis
    using GetPortNumber_reads_port [OF kw pre, of 50000 "[]" 0] by (simp del: statement_ToString.simps)
qed

section \<open>All results of GetPortNumber\<close>

lemma value_end_after: "value_end text (Some i) = Some j \<Longrightarrow> i \<le> j \<and> j \<le> length text"
  by (auto simp: value_end_def find_first_of_def dest!: first_index_Some)

lemma value_start_bound: "value_start text pos = Some i \<Longrightarrow> pos \<le> i \<and> i < length text"
  by (auto simp: value_start_def find_first_not_of_def dest!: first_index_Some)

lemma value_text_nonempty:
  assumes "value_end text (value_start text pos) \<noteq> value_start text pos"
  obtains v where "value_text text pos = Inr v" and "v \<noteq> []" and "sublist v text"
proof -
  obtain i where i: "value_start text pos = Some i"
    using assms by (cases "value_start text pos") (auto simp: value_end_def find_first_of_def)
  then have len: "i < length text" by (auto dest: value_start_bound)
  show thesis
  proof (cases "value_end text (Some i)")
    case None
    with i len have "value_text text pos = Inr (drop i text)"
      by (simp add: value_text_def substr_def span_length_def)
    with len that show thesis by (metis drop_eq_Nil leD sublist_drop)
  next
    case (Some j)
    with assms i have "i < j" "j \<le> length text"
      using value_end_after by (auto simp: le_less)
    with i len Some have "value_text text pos = Inr (take (j - i) (drop i text))"
      by (simp add: value_text_def substr_def span_length_def)
    with \<open>i < j\<close> len that show thesis
      by (metis diff_is_0_eq drop_eq_Nil leD substr_Inr take_eq_Nil value_text_def)
  qed
qed

lemma all_digits_iff: "find_first_not_of v ''0123456789'' (Some 0) = None \<longleftrightarrow> (\<forall>c \<in> set v. is_digit c)"
  by (auto simp: find_first_not_of_def first_index_None is_digit_def)

lemma stoi_digits: "v \<noteq> [] \<Longrightarrow> \<forall>c \<in> set v. is_digit c \<Longrightarrow>
    stoi v = (if int_max < digits_value v then Inl ThrowOutOfRange else Inr (digits_value v))"
  by (simp add: stoi_def takeWhile_digits Let_def)

text \<open>A number that stands in the text of a statement.\<close>

definition number_in :: "statement list \<Rightarrow> nat \<Rightarrow> bool" where
  "number_in ss n \<longleftrightarrow>
     (\<exists>s \<in> set ss. \<exists>v. sublist v (statement_ToString 0 s) \<and> v \<noteq> [] \<and> (\<forall>c \<in> set v. is_digit c) \<and>
        digits_value v = n)"

fun port_result_ok :: "statement list \<Rightarrow> 16 word \<Rightarrow> (bool \<times> 16 word) result \<Rightarrow> bool" where
  "port_result_ok ss p (Inl e) = (e = ThrowOutOfRange \<and> (\<exists>n > int_max. number_in ss n))"
| "port_result_ok ss p (Inr (found, w)) = (if found then number_in ss (unat w) else w = p)"

lemma number_in_mono: "number_in ss n \<Longrightarrow> set ss \<subseteq> set ss' \<Longrightarrow> number_in ss' n"
  by (auto simp: number_in_def)

lemma port_of_text_ok:
  assumes "s \<in> set ss"
  shows "port_result_ok ss p (port_of_text (statement_ToString 0 s) pos p)"
proof (cases "value_end (statement_ToString 0 s) (value_start (statement_ToString 0 s) pos) =
    value_start (statement_ToString 0 s) pos")
  case False
  then obtain v where v: "value_text (statement_ToString 0 s) pos = Inr v" "v \<noteq> []"
    "sublist v (statement_ToString 0 s)" by (rule value_text_nonempty)
  show ?thesis
  proof (cases "\<forall>c \<in> set v. is_digit c")
    case True
    with assms v have "number_in ss (digits_value v)" by (auto simp: number_in_def)
    moreover have "unat (word_of_nat (digits_value v) :: 16 word) = digits_value v"
      if "digits_value v \<le> 65535" using that by (simp add: unat_of_nat take_bit_nat_eq_self)
    ultimately show ?thesis
      using True False v by (auto simp: port_of_text_def all_digits_iff stoi_digits)
  next
    case nodigits: False
    with False v show ?thesis by (simp add: port_of_text_def all_digits_iff)
  qed
qed (simp add: port_of_text_def)

lemma port_loop_ok:
  assumes "port_keyword ty = Inr kw"
  shows "set ss \<subseteq> set all \<Longrightarrow> port_result_ok all p (port_loop ty ss p)"
proof (induction ss)
  case (Cons s ss)
  then show ?case
    using port_of_text_ok [of s all p] by (auto simp: assms split: option.splits)
qed simp



section \<open>GetKeyPath\<close>

lemma statement_text_end:
  "\<exists>t e. statement_ToString 0 s = t @ [e, c_nl] \<and> e \<in> {CHR '';'', CHR ''}''}"
  by (cases s) (auto split: option.splits)

lemma value_text_after_keyword:
  assumes "str_find (statement_ToString 0 s) kw 0 = Some pos"
    and "kw \<noteq> []" and "last kw \<notin> {CHR '';'', CHR ''}'', c_nl}"
  shows "\<exists>v. value_text (statement_ToString 0 s) (pos + length kw) = Inr v"
proof -
  let ?t = "statement_ToString 0 s"
  obtain t e where t: "?t = t @ [e, c_nl]" and e: "e \<in> {CHR '';'', CHR ''}''}"
    using statement_text_end by blast
  have pre: "prefix kw (drop pos ?t)" and len: "pos + length kw \<le> length ?t"
    using str_find_Some_prefix [OF assms(1)] str_find_Some_bound [OF assms(1)] by auto
  have "?t ! (pos + length kw - 1) = last kw"
    using pre assms(2) len by (auto simp: prefix_def last_conv_nth nth_append)
      (metis One_nat_def add_diff_assoc diff_less length_greater_0_conv length_0_conv less_one
        linorder_not_less nth_append nth_drop trans_le_add1 add_leD1)
  then have le: "pos + length kw \<le> length t"
    using assms(2,3) len e t
    by (cases "pos + length kw = length t + 1 \<or> pos + length kw = length t + 2") (auto simp: nth_append)
  then have mem: "e \<in> set (drop (pos + length kw) ?t)" using t by simp
  have "e \<notin> set [c_space, c_tab, c_nl, c_cr]" using e by auto
  with mem have "value_start ?t (pos + length kw) \<noteq> None"
    unfolding value_start_def find_first_not_of_def option.case first_index_None by blast
  then obtain i where i: "value_start ?t (pos + length kw) = Some i" by blast
  with value_start_bound [OF i] show ?thesis
    by (simp add: value_text_def substr_def Let_def)
qed

lemma keyword_lengths: "length ''private_key_root'' = 16" "length ''public_key_root'' = 15"
  by simp_all

lemma key_step_total: "\<exists>ps'. key_step (statement_ToString 0 s) ps = Inr ps'"
proof -
  let ?t = "statement_ToString 0 s"
  have 1: "\<exists>v. value_text ?t (pos + 16) = Inr v" if "str_find ?t ''private_key_root'' 0 = Some pos" for pos
    using value_text_after_keyword [OF that] unfolding keyword_lengths by simp
  have 2: "\<exists>v. value_text ?t (pos + 15) = Inr v" if "str_find ?t ''public_key_root'' 0 = Some pos" for pos
    using value_text_after_keyword [OF that] unfolding keyword_lengths by simp
  show ?thesis
    using 1 2 unfolding key_step_def
    by (cases "str_find ?t ''private_key_root'' 0"; cases "str_find ?t ''public_key_root'' 0") fastforce+
qed

lemma key_loop_total: "\<exists>ps'. key_loop ss ps = Inr ps'"
proof (induction ss arbitrary: ps)
  case (Cons s ss)
  then show ?case using key_step_total [of s ps] by auto
qed simp

text \<open>
  GetKeyPath never throws. The position after a keyword found in the text of a statement is
  always followed by the closing semicolon or brace, so neither \<^verbatim>\<open>substr\<close> can start past the end:
  for every configuration the call returns, and it returns true exactly when both members are
  non-empty afterwards.
\<close>

theorem GetKeyPath_total:
  "\<exists>ps'. GetKeyPath c ps = Inr (ssl_public_path ps' \<noteq> [] \<and> ssl_private_path ps' \<noteq> [], ps')"
  using key_loop_total [of "statements c" ps] by (auto simp: GetKeyPath_def)

lemma key_loop_skip:
  assumes "\<forall>s \<in> set pre. \<not> sublist ''private_key_root'' (statement_ToString 0 s) \<and>
      \<not> sublist ''public_key_root'' (statement_ToString 0 s)"
  shows "key_loop (pre @ ss) ps = key_loop ss ps"
  using assms by (induction pre arbitrary: ps) (auto simp: key_step_def str_find_None [symmetric])

text \<open>
  C34: The key paths are read. When exactly one top-level statement names the private key and a
  later one the public key, each as the keyword and a value without blanks and semicolons, and no
  other text contains a keyword, GetKeyPath returns true with those two values.
\<close>

theorem GetKeyPath_reads_paths:
  assumes "\<forall>s \<in> set (xs @ ys @ zs). \<not> sublist ''private_key_root'' (statement_ToString 0 s) \<and>
      \<not> sublist ''public_key_root'' (statement_ToString 0 s)"
    and "simple_value k" and "simple_value q"
    and "\<not> sublist ''public_key_root'' (statement_ToString 0 (Statement [''private_key_root'', k] None))"
    and "\<not> sublist ''private_key_root'' (statement_ToString 0 (Statement [''public_key_root'', q] None))"
  shows "GetKeyPath (Config (xs @ Statement [''private_key_root'', k] None # ys @
      Statement [''public_key_root'', q] None # zs)) ps =
    Inr (True, \<lparr>ssl_private_path = k, ssl_public_path = q\<rparr>)"
proof -
  let ?priv = "statement_ToString 0 (Statement [''private_key_root'', k] None)"
  let ?pub = "statement_ToString 0 (Statement [''public_key_root'', q] None)"
  have "str_find ?priv ''private_key_root'' 0 = Some 0" "str_find ?pub ''public_key_root'' 0 = Some 0"
    unfolding statement_text by (rule str_find_prefix; simp)+
  moreover have "value_text ?priv 16 = Inr k" "value_text ?pub 15 = Inr q"
    using value_span(3) [OF assms(2), of "''private_key_root''" "[c_nl]"]
      value_span(3) [OF assms(3), of "''public_key_root''" "[c_nl]"]
    unfolding statement_text keyword_lengths by blast+
  ultimately have step: "key_step ?priv a = Inr (a\<lparr>ssl_private_path := k\<rparr>)"
    "key_step ?pub a = Inr (a\<lparr>ssl_public_path := q\<rparr>)" for a
    using assms(4,5) by (simp_all add: key_step_def str_find_None [symmetric] del: statement_ToString.simps)
  have "key_loop (xs @ Statement [''private_key_root'', k] None # ys @
      Statement [''public_key_root'', q] None # zs) ps =
    key_loop zs (ps\<lparr>ssl_private_path := k, ssl_public_path := q\<rparr>)"
    using assms(1) step by (simp add: key_loop_skip del: statement_ToString.simps)
  also have "\<dots> = Inr (ps\<lparr>ssl_private_path := k, ssl_public_path := q\<rparr>)"
    using key_loop_skip [of zs "[]"] assms(1) by simp
  finally show ?thesis
    using assms(2,3) by (simp add: GetKeyPath_def simple_value_def)
qed

theorem GetKeyPath_reads_paths_witness:
  "GetKeyPath (Config ([Statement [''listen'', ''80''] None] @ Statement [''private_key_root'', ''privroot''] None # [] @
      Statement [''public_key_root'', ''pubroot''] None # [])) \<lparr>ssl_private_path = [], ssl_public_path = []\<rparr> =
    Inr (True, \<lparr>ssl_private_path = ''privroot'', ssl_public_path = ''pubroot''\<rparr>)"
  by (rule GetKeyPath_reads_paths) (simp_all add: simple_value_def, code_simp+)

end
