(* ===== verification/Server.thy ===== *)
theory Server
  imports Session Parser Config_Query
begin

text \<open>
  \<^verbatim>\<open>server.cc\<close> and the two programs \<^verbatim>\<open>server_main.cc\<close> and \<^verbatim>\<open>config_parser_main.cc\<close>: the server
  constructors, \<^verbatim>\<open>start_accept\<close> and \<^verbatim>\<open>handle_accept\<close>, and the process of two servers over the same
  static members as a step relation. A server holds the sessions it created, in the order of their
  creation; a pointer to a session is its index.
\<close>

section \<open>State\<close>

record server =
  srv_version :: string
  srv_dispatcher :: dispatcher
  sessions :: "session list"
  accepting :: "nat option"

text \<open>
  The platform: whether a port can be bound, \<^verbatim>\<open>filename()\<close> of a path, whether the certificate chain, key and
  Diffie-Hellman files load. A failure of the first or the last throws \<^verbatim>\<open>boost::system::system_error\<close>.
\<close>

record platform =
  binds :: "16 word \<Rightarrow> bool"
  filename :: "string \<Rightarrow> string"
  tls_loads :: "string \<Rightarrow> string \<Rightarrow> string \<Rightarrow> bool"

definition get_password :: string where
  "get_password = ''test''"

section \<open>Accepting\<close>

text \<open>
  \<^verbatim>\<open>start_accept(session*)\<close>: the socket of the session is taken before the accept starts. A session made for
  plain connections has no TLS socket to accept on.
\<close>

definition start_accept_session :: "session \<Rightarrow> server \<Rightarrow> server result" where
  "start_accept_session new_session srv =
     (if srv_version srv = ''https'' then
        and_then (sslsocket new_session) (\<lambda>_.
        Inr (srv\<lparr>sessions := sessions srv @ [new_session\<lparr>pending_op := Accepting\<rparr>],
                 accepting := Some (length (sessions srv))\<rparr>))
      else if srv_version srv = ''http'' then
        Inr (srv\<lparr>sessions := sessions srv @ [new_session\<lparr>pending_op := Accepting\<rparr>],
                 accepting := Some (length (sessions srv))\<rparr>)
      else Inr srv)"

definition start_accept :: "beast \<Rightarrow> server \<Rightarrow> server result" where
  "start_accept b srv =
     (if srv_version srv = ''https'' then start_accept_session (Session_ctor_https b) srv
      else if srv_version srv = ''http'' then start_accept_session (Session_ctor_http b) srv
      else Inr srv)"

text \<open>
  The body of the thread \<^verbatim>\<open>start_session\<close> up to the point where it joins the I/O service.
\<close>

definition start_session :: "nat \<Rightarrow> server \<Rightarrow> server" where
  "start_session i srv =
     srv\<lparr>sessions := (sessions srv)[i := start ((sessions srv ! i)\<lparr>pending_op := Idle, socket_open := True\<rparr>)]\<rparr>"

definition handle_accept :: "beast \<Rightarrow> nat \<Rightarrow> bool \<Rightarrow> server \<Rightarrow> server result" where
  "handle_accept b i error srv =
     start_accept b
       ((if \<not> error then start_session i srv
         else srv\<lparr>sessions := (sessions srv)[i := (sessions srv ! i)\<lparr>pending_op := Idle, deleted := True\<rparr>]\<rparr>)
          \<lparr>accepting := None\<rparr>)"

section \<open>Constructors\<close>

text \<open>
  What all four do first in their bodies: a dispatcher, which writes \<^verbatim>\<open>handler_info\<close>, and a logger, which adds to
  the logging core.
\<close>

definition new_dispatcher :: "config \<Rightarrow> statics \<Rightarrow> (dispatcher \<times> statics) result" where
  "new_dispatcher c st =
     and_then (Dispatcher_ctor c (handler_info st)) (\<lambda>(d, info).
     Inr (d, st\<lparr>handler_info := info, logging := Logger_ctor (logging st)\<rparr>))"

text \<open>The constructors for a port and a configuration, without and with a version.\<close>

definition new_server :: "string \<Rightarrow> dispatcher \<Rightarrow> server" where
  "new_server v d = \<lparr>srv_version = v, srv_dispatcher = d, sessions = [], accepting = None\<rparr>"

definition Server_ctor ::
  "beast \<Rightarrow> platform \<Rightarrow> 16 word \<Rightarrow> config \<Rightarrow> statics \<Rightarrow> (server \<times> statics) result" where
  "Server_ctor b p port c st =
     (if \<not> binds p port then Inl ThrowSystemError
      else
        and_then (new_dispatcher c st) (\<lambda>(d, st').
        and_then (start_accept b (new_server ''http'' d)) (\<lambda>srv. Inr (srv, st'))))"

definition tls_context :: "platform \<Rightarrow> config \<Rightarrow> unit result" where
  "tls_context p c =
     and_then (GetKeyPath c \<lparr>ssl_private_path = [], ssl_public_path = []\<rparr>) (\<lambda>(found, new_parser).
       if tls_loads p (filename p (GetSSLPublicKeyPath new_parser)) (filename p (GetSSLPrivateKeyPath new_parser))
            ''dhparam4096.pem''
       then Inr () else Inl ThrowSystemError)"

definition Server_ctor_version ::
  "beast \<Rightarrow> platform \<Rightarrow> 16 word \<Rightarrow> config \<Rightarrow> string \<Rightarrow> statics \<Rightarrow> (server \<times> statics) result" where
  "Server_ctor_version b p port c v st =
     (if \<not> binds p port then Inl ThrowSystemError
      else
        and_then (if v = ''https'' then tls_context p c else Inr ()) (\<lambda>_.
        and_then (new_dispatcher c st) (\<lambda>(d, st').
        and_then (start_accept b (new_server v d)) (\<lambda>srv. Inr (srv, st')))))"

text \<open>The constructors that are handed a first session.\<close>

definition Server_ctor_session ::
  "session \<Rightarrow> platform \<Rightarrow> 16 word \<Rightarrow> config \<Rightarrow> statics \<Rightarrow> (server \<times> statics) result" where
  "Server_ctor_session s p port c st =
     (if \<not> binds p port then Inl ThrowSystemError
      else
        and_then (new_dispatcher c st) (\<lambda>(d, st').
        and_then (start_accept_session s (new_server ''http'' d)) (\<lambda>srv. Inr (srv, st'))))"

definition Server_ctor_session_version ::
  "session \<Rightarrow> platform \<Rightarrow> 16 word \<Rightarrow> config \<Rightarrow> string \<Rightarrow> statics \<Rightarrow> (server \<times> statics) result" where
  "Server_ctor_session_version s p port c v st =
     (if \<not> binds p port then Inl ThrowSystemError
      else
        and_then (new_dispatcher c st) (\<lambda>(d, st').
        and_then (start_accept_session s (new_server v d)) (\<lambda>srv. Inr (srv, st'))))"

section \<open>The programs\<close>

datatype outcome = Exit nat | Serving server server statics

fun thrown :: "fault \<Rightarrow> bool" where
  "thrown ThrowOutOfRange = True"
| "thrown ThrowInvalidArgument = True"
| "thrown (ThrowRuntimeError _) = True"
| "thrown ThrowSystemError = True"
| "thrown _ = False"

text \<open>
  \<^verbatim>\<open>catch (std::exception& e)\<close> around the body of \<^verbatim>\<open>main\<close>: it prints the message, and \<^verbatim>\<open>main\<close> returns 0.
  Undefined behaviour is not caught.
\<close>

definition caught :: "outcome result \<Rightarrow> outcome result" where
  "caught r = (case r of Inl e \<Rightarrow> if thrown e then Inr (Exit 0) else Inl e | Inr x \<Rightarrow> Inr x)"

text \<open>The static members before \<^verbatim>\<open>main\<close>.\<close>

definition program_start :: statics where
  "program_start = \<lparr>request_count = 0, handled_requests = [], handler_info = [], logging = no_logging\<rparr>"

text \<open>
  The two servers. \<^verbatim>\<open>ssl_port_number\<close> is set when \<^verbatim>\<open>GetPortNumber\<close> returned true and read in any case.
\<close>

definition build_servers ::
  "beast \<Rightarrow> platform \<Rightarrow> config \<Rightarrow> 16 word \<Rightarrow> (bool \<times> 16 word) \<Rightarrow> outcome result" where
  "build_servers b p out_config port_number ssl =
     and_then (Server_ctor b p port_number out_config program_start) (\<lambda>(s, st).
     if \<not> fst ssl then Inl UninitialisedRead
     else
       and_then (Server_ctor_version b p (snd ssl) out_config ''https'' st) (\<lambda>(https_s, st').
       Inr (Serving s https_s st')))"

definition main_body ::
  "beast \<Rightarrow> platform \<Rightarrow> (string \<Rightarrow> string option) \<Rightarrow> string list \<Rightarrow> outcome result" where
  "main_body b p fs argv =
     (if length argv \<noteq> 2 then Inr (Exit 1)
      else
        and_then (Parse_file fs (argv ! 1) (Config [])) (\<lambda>(parsed, out_config, printed).
        if \<not> parsed then Inr (Exit 1)
        else
          and_then (GetPortNumber out_config ''HTTP'' 0) (\<lambda>(http_found, port_number).
          if \<not> http_found then Inr (Exit 1)
          else
            and_then (GetPortNumber out_config ''HTTPS'' 0) (\<lambda>ssl.
            and_then (if fst ssl
                      then GetKeyPath out_config \<lparr>ssl_private_path = [], ssl_public_path = []\<rparr>
                      else Inr (False, \<lparr>ssl_private_path = [], ssl_public_path = []\<rparr>)) (\<lambda>_.
            build_servers b p out_config port_number ssl)))))"

definition main ::
  "beast \<Rightarrow> platform \<Rightarrow> (string \<Rightarrow> string option) \<Rightarrow> string list \<Rightarrow> outcome result" where
  "main b p fs argv = caught (main_body b p fs argv)"

text \<open>\<^verbatim>\<open>config_parser_main.cc\<close>: the exit code and the lines printed.\<close>

definition config_parser_main ::
  "(string \<Rightarrow> string option) \<Rightarrow> string list \<Rightarrow> (nat \<times> string list) result" where
  "config_parser_main fs argv =
     (if length argv \<noteq> 2 then Inr (1, [''Usage: ./config_parser <path to config file>'' @ [c_nl]])
      else
        and_then (Parse_file fs (argv ! 1) (Config [])) (\<lambda>(parsed, config, printed).
        Inr (0, printed @ [ToString 0 config])))"

section \<open>Steps\<close>

text \<open>
  One callback of the I/O service of a server: the accept ends, or an operation of a session does.
\<close>

inductive server_step :: "beast \<Rightarrow> world \<Rightarrow> server \<times> statics \<Rightarrow> server \<times> statics \<Rightarrow> bool"
  for b :: beast and w :: world where
  accept_ends: "accepting srv = Some i \<Longrightarrow> handle_accept b i error srv = Inr srv' \<Longrightarrow>
    server_step b w (srv, st) (srv', st)"
| session_calls: "i < length (sessions srv) \<Longrightarrow> awaits (pending_op (sessions srv ! i)) cb \<Longrightarrow>
    on_callback b w (srv_dispatcher srv) cb (sessions srv ! i, st) = Some (Inr (s', st')) \<Longrightarrow>
    server_step b w (srv, st) (srv\<lparr>sessions := (sessions srv)[i := s']\<rparr>, st')"

record process =
  http_server :: server
  https_server :: server
  shared :: statics

inductive process_step :: "beast \<Rightarrow> process \<Rightarrow> process \<Rightarrow> bool" for b :: beast where
  http_step: "server_step b w (http_server p, shared p) (srv, st) \<Longrightarrow>
    process_step b p (p\<lparr>http_server := srv, shared := st\<rparr>)"
| https_step: "server_step b w (https_server p, shared p) (srv, st) \<Longrightarrow>
    process_step b p (p\<lparr>https_server := srv, shared := st\<rparr>)"

inductive_cases server_stepE: "server_step b w (srv, st) (srv', st')"

section \<open>The invariant of a server\<close>

text \<open>
  Exactly the last session is being accepted on, every session has the server's kind of socket, and an
  object that was deleted has no operation outstanding that would call it.
\<close>

definition server_ok :: "server \<Rightarrow> bool" where
  "server_ok srv \<longleftrightarrow> version_ok (srv_version srv) \<and> map_ok (handlers (srv_dispatcher srv)) \<and>
     sessions srv \<noteq> [] \<and> accepting srv = Some (length (sessions srv) - 1) \<and>
     (\<forall>i < length (sessions srv).
        s_version (sessions srv ! i) = srv_version srv \<and>
        (pending_op (sessions srv ! i) = Accepting \<longleftrightarrow> i = length (sessions srv) - 1) \<and>
        (deleted (sessions srv ! i) \<longrightarrow> pending_op (sessions srv ! i) = Idle))"

lemma server_okD:
  assumes "server_ok srv" and "i < length (sessions srv)"
  shows "s_version (sessions srv ! i) = srv_version srv"
    and "pending_op (sessions srv ! i) = Accepting \<longleftrightarrow> i = length (sessions srv) - 1"
    and "deleted (sessions srv ! i) \<longrightarrow> pending_op (sessions srv ! i) = Idle"
  using assms unfolding server_ok_def by blast+

lemma start_accept_result:
  assumes "version_ok (srv_version srv)"
  shows "\<exists>s. start_accept b srv = Inr (srv\<lparr>sessions := sessions srv @ [s], accepting := Some (length (sessions srv))\<rparr>) \<and>
    s_version s = srv_version srv \<and> pending_op s = Accepting \<and> \<not> deleted s"
  using assms
  by (auto simp: start_accept_def start_accept_session_def sslsocket_def version_ok_def Session_ctor_http_def
      Session_ctor_https_def)

lemma start_facts:
  "version_ok (s_version s) \<Longrightarrow> s_version (start s) = s_version s \<and> pending_op (start s) \<noteq> Accepting \<and>
     pending_op (start s) \<noteq> Idle \<and> deleted (start s) = deleted s"
  by (auto simp: start_def version_ok_def)

text \<open>What an accept leaves behind: the old sessions but the accepted one, and a new one at the end.\<close>

lemma handle_accept_result:
  assumes "server_ok srv" and "accepting srv = Some i" and "handle_accept b i error srv = Inr srv'"
  shows "\<exists>s n. sessions srv' = (sessions srv)[i := s] @ [n] \<and> i = length (sessions srv) - 1 \<and>
    accepting srv' = Some (length (sessions srv)) \<and> srv_version srv' = srv_version srv \<and>
    srv_dispatcher srv' = srv_dispatcher srv \<and>
    s_version s = srv_version srv \<and> pending_op s \<noteq> Accepting \<and> (deleted s \<longrightarrow> pending_op s = Idle) \<and>
    s_version n = srv_version srv \<and> pending_op n = Accepting \<and> \<not> deleted n"
proof -
  let ?old = "sessions srv ! i"
  have i: "i = length (sessions srv) - 1" "i < length (sessions srv)"
    using assms(1,2) by (auto simp: server_ok_def)
  have "s_version ?old = srv_version srv \<and> pending_op ?old = Accepting \<and>
      (deleted ?old \<longrightarrow> pending_op ?old = Idle) \<and> version_ok (srv_version srv)"
    using server_okD [OF assms(1) i(2)] i(1) assms(1) by (simp add: server_ok_def)
  then have old: "s_version ?old = srv_version srv" "\<not> deleted ?old" "version_ok (srv_version srv)"
    by auto
  define mid where "mid = (if \<not> error then start_session i srv
    else srv\<lparr>sessions := (sessions srv)[i := ?old\<lparr>pending_op := Idle, deleted := True\<rparr>]\<rparr>)\<lparr>accepting := None\<rparr>"
  define s where "s = (if \<not> error then start (?old\<lparr>pending_op := Idle, socket_open := True\<rparr>)
    else ?old\<lparr>pending_op := Idle, deleted := True\<rparr>)"
  have mid: "sessions mid = (sessions srv)[i := s]" "srv_version mid = srv_version srv"
    "srv_dispatcher mid = srv_dispatcher srv"
    by (simp_all add: mid_def s_def start_session_def)
  have s: "s_version s = srv_version srv" "pending_op s \<noteq> Accepting" "deleted s \<longrightarrow> pending_op s = Idle"
    using old start_facts [of "?old\<lparr>pending_op := Idle, socket_open := True\<rparr>"] by (auto simp: s_def)
  have "version_ok (srv_version mid)" using mid old by simp
  from start_accept_result [OF this, of b] obtain n where
    n: "start_accept b mid = Inr (mid\<lparr>sessions := sessions mid @ [n], accepting := Some (length (sessions mid))\<rparr>)"
    "s_version n = srv_version mid" "pending_op n = Accepting" "\<not> deleted n"
    by blast
  have "start_accept b mid = Inr srv'"
    using assms(3) by (simp add: handle_accept_def mid_def)
  then have "srv' = mid\<lparr>sessions := sessions mid @ [n], accepting := Some (length (sessions mid))\<rparr>"
    using n(1) by simp
  then show ?thesis
    using mid s n(2-4) i(1) by (intro exI [of _ s] exI [of _ n]) simp
qed

lemma handle_accept_ok:
  assumes "server_ok srv" and "accepting srv = Some i" and "handle_accept b i error srv = Inr srv'"
  shows "server_ok srv'"
proof -
  obtain s n where r: "sessions srv' = (sessions srv)[i := s] @ [n]" "i = length (sessions srv) - 1"
    "accepting srv' = Some (length (sessions srv))" "srv_version srv' = srv_version srv"
    "srv_dispatcher srv' = srv_dispatcher srv"
    "s_version s = srv_version srv" "pending_op s \<noteq> Accepting" "deleted s \<longrightarrow> pending_op s = Idle"
    "s_version n = srv_version srv" "pending_op n = Accepting" "\<not> deleted n"
    using handle_accept_result [OF assms] by blast
  then show ?thesis
    using assms(1) by (auto simp: server_ok_def nth_append nth_list_update)
qed

text \<open>What a callback leaves of a session.\<close>

lemma async_write_facts:
  "s_version (async_write s) = s_version s" "deleted (async_write s) = deleted s"
  "pending_op s = Idle \<Longrightarrow> pending_op (async_write s) \<in> {Idle, Writing}"
  by (auto simp: async_write_def)

lemma send_response_session:
  assumes "send_response b w d peer (s, st) = Some (Inr (s', st'))" and "pending_op s = Idle"
  shows "s_version s' = s_version s" and "deleted s' = deleted s" and "pending_op s' \<in> {Idle, Writing}"
proof -
  obtain r where "s' = async_write (s\<lparr>buffer := r\<rparr>) \<or> s' = s\<lparr>buffer := r\<rparr>"
    using assms(1)
    by (auto simp: send_response_def and_then_eq_Inr write_response_def split: sum.splits option.splits if_splits)
  then show "s_version s' = s_version s" and "deleted s' = deleted s" and "pending_op s' \<in> {Idle, Writing}"
    using assms(2) async_write_facts [of "s\<lparr>buffer := r\<rparr>"] by auto
qed

lemma on_callback_session:
  assumes "on_callback b w d cb (s, st) = Some (Inr (s', st'))" and "awaits (pending_op s) cb"
    and "\<not> deleted s"
  shows "s_version s' = s_version s \<and> pending_op s' \<noteq> Accepting \<and> (deleted s' \<longrightarrow> pending_op s' = Idle)"
proof (cases cb)
  case (Bytes_read bs peer)
  then obtain off where off: "pending_op s = Reading off"
    using assms(2) by (auto simp: awaits_iff)
  obtain new where new: "store_bytes off bs (data s) = Inr new"
    "handle_read b w d False peer (s\<lparr>data := new, pending_op := Idle\<rparr>, st) = Some (Inr (s', st'))"
    using assms(1) off by (auto simp: Bytes_read receive_def split: sum.splits)
  let ?s = "s\<lparr>data := new, pending_op := Idle\<rparr>"
  consider "append_data ?s = Inr s'" | "send_response b w d peer (?s, st) = Some (Inr (s', st'))"
    using new(2) by (auto simp: handle_read_def and_then_eq_Inr split: sum.splits if_splits)
  then show ?thesis
  proof cases
    case 1
    then show ?thesis
      using assms(3) by (auto simp: append_data_def and_then_eq_Inr split: if_splits)
  next
    case 2
    then show ?thesis
      using send_response_session [OF 2] assms(3) by auto
  qed
next
  case (Handshake_done e)
  then show ?thesis using assms by (cases e) (auto simp: handle_handshake_def)
next
  case Read_failed
  then show ?thesis using assms by (auto simp: handle_read_def)
next
  case (Write_done e)
  then show ?thesis using assms by (cases e) (auto simp: handle_write_def Let_def split: if_splits)
qed

lemma awaits_live: "awaits p cb \<Longrightarrow> p \<noteq> Idle \<and> p \<noteq> Accepting"
  by (cases p; cases cb) auto

lemma server_step_ok:
  assumes "server_step b w (srv, st) (srv', st')" and "server_ok srv" and "statics_ok st" and "targets_ok b"
  shows "server_ok srv' \<and> statics_ok st'"
proof (rule server_stepE [OF assms(1)])
  fix i error
  assume "st' = st" and "accepting srv = Some i" and "handle_accept b i error srv = Inr srv'"
  then show ?thesis using handle_accept_ok assms(2,3) by blast
next
  fix i cb s'
  assume srv': "srv' = srv\<lparr>sessions := (sessions srv)[i := s']\<rparr>" and i: "i < length (sessions srv)"
    and cb: "awaits (pending_op (sessions srv ! i)) cb"
    and call: "on_callback b w (srv_dispatcher srv) cb (sessions srv ! i, st) = Some (Inr (s', st'))"
  let ?s = "sessions srv ! i"
  have "map_ok (handlers (srv_dispatcher srv))"
    using assms(2) by (simp add: server_ok_def)
  moreover have live: "\<not> deleted ?s" "i \<noteq> length (sessions srv) - 1"
    using assms(2) i awaits_live [OF cb] unfolding server_ok_def by auto
  moreover have "s_version s' = s_version ?s \<and> pending_op s' \<noteq> Accepting \<and> (deleted s' \<longrightarrow> pending_op s' = Idle)"
    by (rule on_callback_session [OF call cb live(1)])
  ultimately show ?thesis
    using assms(2) srv' i on_callback_statics [OF call assms(3) _ assms(4)]
    by (auto simp: server_ok_def nth_list_update)
qed

section \<open>Reachable states of the process\<close>

definition process_ok :: "process \<Rightarrow> bool" where
  "process_ok p \<longleftrightarrow> server_ok (http_server p) \<and> server_ok (https_server p) \<and> statics_ok (shared p)"

lemma process_step_ok:
  assumes "process_step b p p'" and "process_ok p" and "targets_ok b"
  shows "process_ok p'"
  using assms(1)
proof cases
  case (http_step w srv st)
  then show ?thesis
    using server_step_ok [OF http_step(2)] assms(2,3) by (simp add: process_ok_def)
next
  case (https_step w srv st)
  then show ?thesis
    using server_step_ok [OF https_step(2)] assms(2,3) by (simp add: process_ok_def)
qed

lemma reachable_ok:
  assumes "(process_step b)\<^sup>*\<^sup>* p p'" and "process_ok p" and "targets_ok b"
  shows "process_ok p'"
  using assms(1,2) by (induction rule: rtranclp_induct) (auto intro: process_step_ok [OF _ _ assms(3)])

lemma fresh_server_ok:
  assumes "start_accept b (new_server v d) = Inr srv" and "version_ok v" and "map_ok (handlers d)"
  shows "server_ok srv"
proof -
  have "version_ok (srv_version (new_server v d))" using assms(2) by (simp add: new_server_def)
  from start_accept_result [OF this, of b] show ?thesis
    using assms by (auto simp: server_ok_def new_server_def)
qed

text \<open>The state \<^verbatim>\<open>main\<close> enters the I/O services in.\<close>

definition started :: "server \<Rightarrow> server \<Rightarrow> statics \<Rightarrow> process" where
  "started s https_s st = \<lparr>http_server = s, https_server = https_s, shared = st\<rparr>"

lemma build_servers_ok:
  assumes "build_servers b p c port ssl = Inr (Serving s https_s st)"
  shows "process_ok (started s https_s st)"
proof -
  obtain info d d' where
    d: "Dispatcher_ctor c [] = Inr (d, info)" "start_accept b (new_server ''http'' d) = Inr s" and
    d': "Dispatcher_ctor c info = Inr (d', handler_info st)"
      "start_accept b (new_server ''https'' d') = Inr https_s" and
    st: "request_count st = 0" "handled_requests st = []"
    using assms
    by (auto simp: build_servers_def Server_ctor_def Server_ctor_version_def new_dispatcher_def program_start_def
        and_then_eq_Inr split: if_splits)
  note one = Dispatcher_ctor_ok [OF d(1) std.ok_empty]
  then have "map_ok info" by (simp add: info_ok_def)
  note two = Dispatcher_ctor_ok [OF d'(1) this]
  have "server_ok s" "server_ok https_s"
    using fresh_server_ok [OF d(2)] fresh_server_ok [OF d'(2)] one(1) two(1)
    by (simp_all add: version_ok_def table_ok_def)
  moreover have "statics_ok st"
    using st by (simp add: statics_ok_def std.ok_empty logged_total_def)
  ultimately show ?thesis by (simp add: process_ok_def started_def)
qed

section \<open>A small run\<close>

definition sample_text :: string where
  "sample_text = ''listen 80; ssl-port 443; private_key_root k.pem; public_key_root c.pem;'' @
     '' location /e EchoHandler { } location /s StatusHandler { }''"

definition sample_files :: "string \<Rightarrow> string option" where
  "sample_files f = (if f = ''conf'' then Some sample_text else if f = ''plain'' then Some ''listen 80;'' else None)"

definition open_platform :: platform where
  "open_platform = \<lparr>binds = (\<lambda>_. True), filename = (\<lambda>f. f), tls_loads = (\<lambda>_ _ _. True)\<rparr>"

definition served_config :: config where
  "served_config = Config
     [Statement [''listen'', ''80''] None, Statement [''ssl-port'', ''443''] None,
      Statement [''private_key_root'', ''k.pem''] None, Statement [''public_key_root'', ''c.pem''] None,
      Statement [''location'', ''/e'', ''EchoHandler''] (Some (Config [])),
      Statement [''location'', ''/s'', ''StatusHandler''] (Some (Config []))]"

definition served_dispatcher :: dispatcher where
  "served_dispatcher =
     \<lparr>handlers = [(''/'', NotFoundHandler), (''/e'', EchoHandler), (''/s'', StatusHandler)], regnum = 3\<rparr>"

definition served_info :: info_table where
  "served_info = [(''/'', ''404Handler''), (''/e'', ''EchoHandler''), (''/s'', ''StatusHandler'')]"

lemma sample_parse: "\<exists>out. Parse_file sample_files ''conf'' (Config []) = Inr (True, served_config, out)"
proof -
  have "(case Parse_file sample_files ''conf'' (Config []) of Inl _ \<Rightarrow> False
      | Inr (ok, c, out) \<Rightarrow> ok \<and> c = served_config)"
    by code_simp
  then show ?thesis by (auto split: sum.splits)
qed

lemma sample_ports:
  "GetPortNumber served_config ''HTTP'' 0 = Inr (True, 80)"
  "GetPortNumber served_config ''HTTPS'' 0 = Inr (True, 443)"
proof -
  have n: "to_string 80 = ''80''" "to_string 443 = ''443''" by code_simp+
  have kw: "port_keyword ''HTTP'' = Inr ''listen''" "port_keyword ''HTTPS'' = Inr ''ssl-port''"
    by (simp_all add: port_keyword_def)
  have first: "\<forall>s \<in> set [Statement [''listen'', ''80''] None]. \<not> sublist ''ssl-port'' (statement_ToString 0 s)"
    by code_simp
  show "GetPortNumber served_config ''HTTP'' 0 = Inr (True, 80)"
    using GetPortNumber_reads [OF kw(1), of "[]" 80] by (simp add: served_config_def n)
  show "GetPortNumber served_config ''HTTPS'' 0 = Inr (True, 443)"
    using GetPortNumber_reads [OF kw(2) first, of 443] by (simp add: served_config_def n)
qed

lemma sample_keys:
  "GetKeyPath served_config \<lparr>ssl_private_path = [], ssl_public_path = []\<rparr> =
     Inr (True, \<lparr>ssl_private_path = ''k.pem'', ssl_public_path = ''c.pem''\<rparr>)"
  by code_simp

lemma sample_dispatchers:
  "Dispatcher_ctor served_config [] = Inr (served_dispatcher, served_info)"
  "Dispatcher_ctor served_config served_info = Inr (served_dispatcher, served_info)"
  by code_simp+

definition served_server :: "string \<Rightarrow> session \<Rightarrow> server" where
  "served_server v s = \<lparr>srv_version = v, srv_dispatcher = served_dispatcher,
     sessions = [s\<lparr>pending_op := Accepting\<rparr>], accepting = Some 0\<rparr>"

definition served_statics :: statics where
  "served_statics = \<lparr>request_count = 0, handled_requests = [], handler_info = served_info,
     logging = Logger_ctor (Logger_ctor no_logging)\<rparr>"

lemma sample_build:
  "build_servers plain_beast open_platform served_config 80 (True, 443) =
     Inr (Serving (served_server ''http'' (Session_ctor_http plain_beast))
       (served_server ''https'' (Session_ctor_https plain_beast)) served_statics)"
  by (simp add: build_servers_def Server_ctor_def Server_ctor_version_def tls_context_def GetSSLPrivateKeyPath_def
      GetSSLPublicKeyPath_def sample_keys
      new_dispatcher_def program_start_def sample_dispatchers start_accept_def start_accept_session_def sslsocket_def
      new_server_def Session_ctor_http_def
      Session_ctor_https_def open_platform_def served_server_def served_statics_def)

lemma sample_main:
  "main plain_beast open_platform sample_files [''server'', ''conf''] =
     Inr (Serving (served_server ''http'' (Session_ctor_http plain_beast))
       (served_server ''https'' (Session_ctor_https plain_beast)) served_statics)"
proof -
  obtain out where "Parse_file sample_files ''conf'' (Config []) = Inr (True, served_config, out)"
    using sample_parse by blast
  then show ?thesis
    by (simp add: main_def main_body_def caught_def sample_ports sample_keys sample_build)
qed

section \<open>Properties of main\<close>

lemma main_serving:
  assumes "main b p fs argv = Inr (Serving s https_s st)"
  obtains c out port ssl_port where "length argv = 2"
    "Parse_file fs (argv ! 1) (Config []) = Inr (True, c, out)"
    "GetPortNumber c ''HTTP'' 0 = Inr (True, port)" "GetPortNumber c ''HTTPS'' 0 = Inr (True, ssl_port)"
    "build_servers b p c port (True, ssl_port) = Inr (Serving s https_s st)"
proof -
  have "main_body b p fs argv = Inr (Serving s https_s st)"
    using assms by (auto simp: main_def caught_def split: sum.splits if_splits)
  then obtain c out port ssl where
    m: "length argv = 2" "Parse_file fs (argv ! 1) (Config []) = Inr (True, c, out)"
    "GetPortNumber c ''HTTP'' 0 = Inr (True, port)" "GetPortNumber c ''HTTPS'' 0 = Inr ssl"
    "build_servers b p c port ssl = Inr (Serving s https_s st)"
    by (auto simp: main_body_def and_then_eq_Inr split: if_splits)
  then have "fst ssl"
    by (auto simp: build_servers_def and_then_eq_Inr split: if_splits)
  then show thesis
    using that m by (cases ssl) auto
qed

text \<open>C35: \<^verbatim>\<open>main\<close> gets as far as serving only with one argument, a file the parser accepts and two valid
port numbers that can be bound; the servers are one for plain and one for TLS connections, whose
dispatchers hold the same handlers, and each waits for one connection.\<close>

theorem main_serves:
  assumes "main b p fs argv = Inr (Serving s https_s st)"
  shows "\<exists>c out port ssl_port. length argv = 2 \<and> Parse_file fs (argv ! 1) (Config []) = Inr (True, c, out) \<and>
    GetPortNumber c ''HTTP'' 0 = Inr (True, port) \<and> GetPortNumber c ''HTTPS'' 0 = Inr (True, ssl_port) \<and>
    binds p port \<and> binds p ssl_port \<and>
    srv_version s = ''http'' \<and> srv_version https_s = ''https'' \<and>
    map_of (handlers (srv_dispatcher s)) = map_of ((''/'', NotFoundHandler) # registrations (statements c)) \<and>
    map_of (handlers (srv_dispatcher https_s)) = map_of (handlers (srv_dispatcher s)) \<and>
    process_ok (started s https_s st)"
proof (rule main_serving [OF assms])
  fix c out port ssl_port
  assume m: "length argv = 2" "Parse_file fs (argv ! 1) (Config []) = Inr (True, c, out)"
    "GetPortNumber c ''HTTP'' 0 = Inr (True, port)" "GetPortNumber c ''HTTPS'' 0 = Inr (True, ssl_port)"
    "build_servers b p c port (True, ssl_port) = Inr (Serving s https_s st)"
  obtain info d d' where
    d: "binds p port" "Dispatcher_ctor c [] = Inr (d, info)" "start_accept b (new_server ''http'' d) = Inr s" and
    d': "binds p ssl_port" "Dispatcher_ctor c info = Inr (d', handler_info st)"
      "start_accept b (new_server ''https'' d') = Inr https_s"
    using m(5)
    by (auto simp: build_servers_def Server_ctor_def Server_ctor_version_def new_dispatcher_def program_start_def
        and_then_eq_Inr split: if_splits)
  note one = Dispatcher_ctor_ok [OF d(2) std.ok_empty]
  then have "map_ok info" by (simp add: info_ok_def)
  note two = Dispatcher_ctor_ok [OF d'(2) this]
  have "srv_version s = ''http''" "srv_dispatcher s = d" "srv_version https_s = ''https''" "srv_dispatcher https_s = d'"
    using start_accept_result [of "new_server ''http'' d" b] start_accept_result [of "new_server ''https'' d'" b] d d'
    by (auto simp: version_ok_def new_server_def)
  then show ?thesis
    using m d(1) d'(1) one(4) two(4) build_servers_ok [OF m(5)] by auto
qed

lemma main_serves_witness:
  "\<exists>c out. Parse_file sample_files ''conf'' (Config []) = Inr (True, c, out) \<and>
     binds open_platform 80 \<and>
     process_ok (started (served_server ''http'' (Session_ctor_http plain_beast))
       (served_server ''https'' (Session_ctor_https plain_beast)) served_statics)"
  using main_serves [OF sample_main] by (auto simp: open_platform_def)

text \<open>C36: with a configuration that has a port but no valid TLS port, \<^verbatim>\<open>main\<close> reads the uninitialised
\<open>ssl_port_number\<close> to build the TLS server that nobody asked for.\<close>

theorem main_without_ssl_port:
  assumes "Parse_file fs file (Config []) = Inr (True, c, out)"
    and "GetPortNumber c ''HTTP'' 0 = Inr (True, port)" and "GetPortNumber c ''HTTPS'' 0 = Inr (False, any)"
    and "binds p port" and "Dispatcher_ctor c [] = Inr (d, info)"
  shows "main b p fs [prog, file] = Inl UninitialisedRead"
  using assms start_accept_result [of "new_server ''http'' d" b]
  by (auto simp: main_def main_body_def build_servers_def Server_ctor_def new_dispatcher_def program_start_def
      caught_def version_ok_def new_server_def)

lemma main_without_ssl_port_witness:
  "main plain_beast open_platform sample_files [''server'', ''plain''] = Inl UninitialisedRead"
proof -
  let ?c = "Config [Statement [''listen'', ''80''] None]"
  have "(case Parse_file sample_files ''plain'' (Config []) of Inl _ \<Rightarrow> False | Inr (ok, c, out) \<Rightarrow> ok \<and> c = ?c)"
    by code_simp
  then obtain out where parse: "Parse_file sample_files ''plain'' (Config []) = Inr (True, ?c, out)"
    by (auto split: sum.splits)
  have n: "to_string 80 = ''80''" by code_simp
  have kw: "port_keyword ''HTTP'' = Inr ''listen''" by (simp add: port_keyword_def)
  have http: "GetPortNumber ?c ''HTTP'' 0 = Inr (True, 80)"
    using GetPortNumber_reads [OF kw, of "[]" 80] by (simp add: n)
  have "str_find (statement_ToString 0 (Statement [''listen'', ''80''] None)) ''ssl-port'' 0 = None"
    by code_simp
  then have https: "GetPortNumber ?c ''HTTPS'' 0 = Inr (False, 0)"
    by (simp add: GetPortNumber_def port_keyword_def del: statement_ToString.simps)
  have dispatcher: "Dispatcher_ctor ?c [] =
      Inr (\<lparr>handlers = [(''/'', NotFoundHandler)], regnum = 1\<rparr>, [(''/'', ''404Handler'')])"
    by code_simp
  show ?thesis
    by (rule main_without_ssl_port [OF parse http https _ dispatcher]) (simp add: open_platform_def)
qed

section \<open>Properties of the running process\<close>





lemma process_step_frame:
  assumes "process_step b p p'"
  shows "handler_info (shared p') = handler_info (shared p) \<and> logging (shared p') = logging (shared p)"
  using assms by cases (auto elim!: server_stepE dest: on_callback_frame)

lemma reachable_frame:
  "(process_step b)\<^sup>*\<^sup>* p p' \<Longrightarrow>
    handler_info (shared p') = handler_info (shared p) \<and> logging (shared p') = logging (shared p)"
  by (induction rule: rtranclp_induct) (auto dest: process_step_frame)



text \<open>Steps of one server while the network and the file system change as they like.\<close>

definition some_step :: "beast \<Rightarrow> server \<times> statics \<Rightarrow> server \<times> statics \<Rightarrow> bool" where
  "some_step b x y \<longleftrightarrow> (\<exists>w. server_step b w x y)"

lemma idle_session_stays:
  assumes "(some_step b)\<^sup>*\<^sup>* (srv, st) (srv', st')" and "i < length (sessions srv)"
    and "pending_op (sessions srv ! i) = Idle" and "accepting srv \<noteq> Some i"
    and fresh: "\<And>j. accepting srv = Some j \<Longrightarrow> j < length (sessions srv)"
  shows "i < length (sessions srv') \<and> sessions srv' ! i = sessions srv ! i"
proof -
  have "i < length (sessions srv') \<and> sessions srv' ! i = sessions srv ! i \<and> accepting srv' \<noteq> Some i"
    using assms(1)
  proof (induction rule: rtranclp_induct2)
    case refl
    then show ?case using assms(2,4) by simp
  next
    case (step srv1 st1 srv2 st2)
    obtain w where "server_step b w (srv1, st1) (srv2, st2)"
      using step.hyps(2) by (auto simp: some_step_def)
    then show ?case
    proof (rule server_stepE)
      fix j error
      assume j: "accepting srv1 = Some j" and h: "handle_accept b j error srv1 = Inr srv2"
      have "\<exists>s. sessions srv2 = (sessions srv1)[j := s] \<and> accepting srv2 = None \<or>
          (\<exists>n. sessions srv2 = (sessions srv1)[j := s] @ [n] \<and> accepting srv2 = Some (length (sessions srv1)))"
        using h by (auto simp: handle_accept_def start_accept_def start_accept_session_def sslsocket_def start_session_def
            split: if_splits)
      then show ?thesis
        using step.IH j by (auto simp: nth_append)
    next
      fix j cb s'
      assume "srv2 = srv1\<lparr>sessions := (sessions srv1)[j := s']\<rparr>" "awaits (pending_op (sessions srv1 ! j)) cb"
      moreover from this have "j \<noteq> i"
        using step.IH assms(3) awaits_live by auto
      ultimately show ?thesis using step.IH by simp
    qed
  qed
  then show ?thesis by blast
qed

text \<open>C38: a session whose response was written is never deleted: \<open>handle_write\<close> closes its socket and
leaves it without an operation, and no later step of the server touches it.\<close>

theorem written_session_never_deleted:
  assumes "server_ok srv" and "i < length (sessions srv)" and "pending_op (sessions srv ! i) = Writing"
    and "on_callback b w (srv_dispatcher srv) (Write_done False) (sessions srv ! i, st) = Some (Inr (s', st'))"
    and "(some_step b)\<^sup>*\<^sup>* (srv\<lparr>sessions := (sessions srv)[i := s']\<rparr>, st') (later, st'')"
  shows "i < length (sessions later) \<and> \<not> socket_open (sessions later ! i) \<and>
    pending_op (sessions later ! i) = Idle \<and> \<not> deleted (sessions later ! i)"
proof -
  let ?s = "sessions srv ! i"
  have "\<not> deleted ?s" "version_ok (s_version ?s)" "accepting srv \<noteq> Some i"
    using server_okD [OF assms(1,2)] assms(1,2,3) by (auto simp: server_ok_def)
  then have s': "pending_op s' = Idle" "\<not> deleted s'" "\<not> socket_open s'"
    using assms(4) by (auto simp: handle_write_def Let_def version_ok_def)
  moreover have "i < length (sessions later) \<and> sessions later ! i = s'"
    using idle_session_stays [OF assms(5), of i] assms(1,2) s' \<open>accepting srv \<noteq> Some i\<close>
    by (auto simp: server_ok_def)
  ultimately show ?thesis by simp
qed

definition writing_server :: server where
  "writing_server = \<lparr>srv_version = ''http'', srv_dispatcher = served_dispatcher,
     sessions = [(Session_ctor_http plain_beast)\<lparr>pending_op := Writing, socket_open := True\<rparr>,
       (Session_ctor_http plain_beast)\<lparr>pending_op := Accepting\<rparr>], accepting = Some 1\<rparr>"

lemma writing_server_ok: "server_ok writing_server"
proof -
  have "map_ok (handlers served_dispatcher)"
    using Dispatcher_ctor_ok(1) [OF sample_dispatchers(1) std.ok_empty] by (simp add: table_ok_def)
  then show ?thesis
    by (auto simp: server_ok_def writing_server_def version_ok_def Session_ctor_http_def less_Suc_eq)
qed

lemma written_session_never_deleted_witness:
  "\<not> deleted (handle_write False ((sessions writing_server ! 0)\<lparr>pending_op := Idle\<rparr>))"
  using written_session_never_deleted [OF writing_server_ok, of 0 plain_beast sample_world served_statics
      "handle_write False ((sessions writing_server ! 0)\<lparr>pending_op := Idle\<rparr>)" served_statics, OF _ _ _ rtranclp.rtrancl_refl]
  by (simp add: writing_server_def)

text \<open>Accepting never stops: whether the accept succeeds or fails, \<open>handle_accept\<close> starts exactly one
new one, on a new session, and the server stays in order.\<close>

theorem accept_never_stops:
  assumes "server_ok srv" and "accepting srv = Some i"
  shows "\<exists>srv'. handle_accept b i error srv = Inr srv' \<and> server_ok srv' \<and>
    length (sessions srv') = length (sessions srv) + 1 \<and> accepting srv' = Some (length (sessions srv))"
proof -
  let ?mid = "(if \<not> error then start_session i srv
    else srv\<lparr>sessions := (sessions srv)[i := (sessions srv ! i)\<lparr>pending_op := Idle, deleted := True\<rparr>]\<rparr>)
      \<lparr>accepting := None\<rparr>"
  have "version_ok (srv_version ?mid)"
    using assms(1) by (simp add: server_ok_def start_session_def)
  from start_accept_result [OF this, of b] obtain srv' where "handle_accept b i error srv = Inr srv'"
    by (auto simp: handle_accept_def)
  then show ?thesis
    using handle_accept_ok [OF assms] handle_accept_result [OF assms] by fastforce
qed

lemma accept_never_stops_witness:
  "\<exists>srv'. handle_accept plain_beast 1 True writing_server = Inr srv' \<and> server_ok srv'"
  using accept_never_stops [OF writing_server_ok, of 1 plain_beast True] by (auto simp: writing_server_def)

end
