(* ===== verification/Lifecycle.thy ===== *)
theory Lifecycle
  imports Server
begin

text \<open>
  The life of a session inside the running process: the type every session keeps, whatever the callbacks
  and their order, the way a request takes from the connection to the closed socket, and the life cycle
  each step of the server is a step of.
\<close>

section \<open>Invariants of single sessions\<close>

text \<open>
  A predicate on sessions that holds of new ones, of accepted ones and of dropped ones, and that the
  callbacks keep, holds of every session of every reachable state.
\<close>

locale session_invariant =
  fixes good :: "session \<Rightarrow> bool"
  assumes good_http: "good ((Session_ctor_http b)\<lparr>pending_op := Accepting\<rparr>)"
    and good_https: "good ((Session_ctor_https b)\<lparr>pending_op := Accepting\<rparr>)"
    and good_accepted: "good s \<Longrightarrow> pending_op s = Accepting \<Longrightarrow> version_ok (s_version s) \<Longrightarrow>
      good (start (s\<lparr>pending_op := Idle, socket_open := True\<rparr>))"
    and good_dropped: "good s \<Longrightarrow> good (s\<lparr>pending_op := Idle, deleted := True\<rparr>)"
    and good_called: "good s \<Longrightarrow> awaits (pending_op s) cb \<Longrightarrow> version_ok (s_version s) \<Longrightarrow>
      on_callback b w d cb (s, st) = Some (Inr (s', st')) \<Longrightarrow> good s'"
begin

lemma start_accept_good:
  assumes "start_accept b srv = Inr srv'" and "\<forall>s \<in> set (sessions srv). good s"
  shows "\<forall>s \<in> set (sessions srv'). good s"
  using assms good_http [of b] good_https [of b]
  by (auto simp: start_accept_def start_accept_session_def sslsocket_def and_then_eq_Inr split: if_splits)

lemma handle_accept_good:
  assumes "server_ok srv" and "accepting srv = Some i" and "handle_accept b i error srv = Inr srv'"
    and "\<forall>s \<in> set (sessions srv). good s"
  shows "\<forall>s \<in> set (sessions srv'). good s"
proof -
  have i: "i < length (sessions srv)" "i = length (sessions srv) - 1" and v: "version_ok (srv_version srv)"
    using assms(1,2) by (auto simp: server_ok_def)
  let ?s = "sessions srv ! i"
  have s: "good ?s" "pending_op ?s = Accepting" "version_ok (s_version ?s)"
    using assms(4) i v server_okD [OF assms(1) i(1)] by auto
  have "good (start (?s\<lparr>pending_op := Idle, socket_open := True\<rparr>))"
    "good (?s\<lparr>pending_op := Idle, deleted := True\<rparr>)"
    using good_accepted [OF s] good_dropped [OF s(1)] by blast+
  then show ?thesis
    using assms(4)
    by (intro start_accept_good [OF assms(3) [unfolded handle_accept_def]])
      (auto simp: start_session_def dest!: set_update_subset_insert [THEN subsetD])
qed

lemma server_step_good:
  assumes "server_step b w (srv, st) (srv', st')" and "server_ok srv" and "\<forall>s \<in> set (sessions srv). good s"
  shows "\<forall>s \<in> set (sessions srv'). good s"
proof (rule server_stepE [OF assms(1)])
  fix i error
  assume "accepting srv = Some i" and "handle_accept b i error srv = Inr srv'"
  then show ?thesis using handle_accept_good assms(2,3) by blast
next
  fix i cb s'
  assume srv': "srv' = srv\<lparr>sessions := (sessions srv)[i := s']\<rparr>" and i: "i < length (sessions srv)"
    and cb: "awaits (pending_op (sessions srv ! i)) cb"
    and call: "on_callback b w (srv_dispatcher srv) cb (sessions srv ! i, st) = Some (Inr (s', st'))"
  have "version_ok (s_version (sessions srv ! i))"
    using server_okD(1) [OF assms(2) i] assms(2) by (simp add: server_ok_def)
  then have "good s'"
    using good_called [OF _ cb _ call] assms(3) i by simp
  then show ?thesis
    using assms(3) srv' by (auto dest!: set_update_subset_insert [THEN subsetD])
qed

definition all_good :: "process \<Rightarrow> bool" where
  "all_good p \<longleftrightarrow> (\<forall>s \<in> set (sessions (http_server p)) \<union> set (sessions (https_server p)). good s)"

lemma process_step_good:
  assumes "process_step b p p'" and "process_ok p" and "all_good p"
  shows "all_good p'"
  using assms(1)
proof cases
  case (http_step w srv st)
  then show ?thesis
    using server_step_good [OF http_step(2)] assms(2,3) by (simp add: process_ok_def all_good_def ball_Un)
next
  case (https_step w srv st)
  then show ?thesis
    using server_step_good [OF https_step(2)] assms(2,3) by (simp add: process_ok_def all_good_def ball_Un)
qed

lemma reachable_good:
  assumes "(process_step b)\<^sup>*\<^sup>* p p'" and "process_ok p" and "targets_ok b" and "all_good p"
  shows "all_good p'"
  using assms(1,2,4)
proof (induction rule: rtranclp_induct)
  case (step q r)
  then show ?case
    using process_step_good [OF step.hyps(2) reachable_ok [OF step.hyps(1) _ assms(3)]] by blast
qed

lemma build_servers_good:
  assumes "build_servers b p c port ssl = Inr (Serving s https_s st)"
  shows "all_good (started s https_s st)"
proof -
  have "start_accept b (new_server v d) = Inr srv \<Longrightarrow> \<forall>s \<in> set (sessions srv). good s" for v d srv
    using start_accept_good [of b "new_server v d"] by (simp add: new_server_def)
  then show ?thesis
    using assms
    by (auto simp: build_servers_def Server_ctor_def Server_ctor_version_def and_then_eq_Inr all_good_def started_def
        split: if_splits)
qed

lemma main_good:
  assumes "main b p fs argv = Inr (Serving s https_s st)" and "targets_ok b"
    and "(process_step b)\<^sup>*\<^sup>* (started s https_s st) now"
    and "x \<in> set (sessions (http_server now)) \<union> set (sessions (https_server now))"
  shows "good x"
proof (rule main_serving [OF assms(1)])
  fix c out port ssl_port
  assume "build_servers b p c port (True, ssl_port) = Inr (Serving s https_s st)"
  from reachable_good [OF assms(3) build_servers_ok [OF this] assms(2) build_servers_good [OF this]]
  show ?thesis
    using assms(4) by (simp add: all_good_def)
qed

end

section \<open>The type of a session\<close>

text \<open>
  The bytes of \<^verbatim>\<open>data_\<close> fit the array, a read that is outstanding goes to the end of the C string in it, only
  a TLS session shakes hands, and nothing but an accept is outstanding on a socket that is not open.
\<close>

definition session_typed :: "session \<Rightarrow> bool" where
  "session_typed s \<longleftrightarrow> length (data s) \<le> max_length \<and>
     (case pending_op s of
        Idle \<Rightarrow> True
      | Accepting \<Rightarrow> data s = []
      | Handshaking \<Rightarrow> s_version s = ''https'' \<and> socket_open s
      | Reading off \<Rightarrow> strlen (data s) = Inr off \<and> socket_open s
      | Writing \<Rightarrow> socket_open s)"

lemma strlen_empty: "strlen [] = Inr 0"
  by (simp add: strlen_def c_data_def max_length_def)

lemma strlen_bound:
  assumes "strlen d = Inr n" and "length d \<le> max_length"
  shows "n \<le> length d \<and> n < max_length"
proof (cases "c_nul \<in> set d")
  case True
  then have "length (takeWhile (\<lambda>c. c \<noteq> c_nul) d) < length d"
    by (induction d) auto
  with True assms show ?thesis
    by (simp add: strlen_def c_data_def)
next
  case False
  then have "length d < max_length" "n = length (takeWhile (\<lambda>c. c \<noteq> c_nul) d)"
    using assms(1) by (auto simp: strlen_def c_data_def split: if_splits)
  then show ?thesis
    using length_takeWhile_le [of "\<lambda>c. c \<noteq> c_nul" d] by simp
qed

lemma store_bytes_length:
  assumes "store_bytes off bs d = Inr d'" and "length d \<le> max_length"
  shows "length d' \<le> max_length"
  using assms by (auto simp: store_bytes_def min_def split: if_splits)

lemma send_response_typed:
  assumes "send_response b w d peer (s, st) = Some (Inr (s', st'))" and "pending_op s = Idle"
    and "length (data s) \<le> max_length" and "socket_open s"
  shows "session_typed s'"
proof -
  obtain r where "s' = async_write (s\<lparr>buffer := r\<rparr>) \<or> s' = s\<lparr>buffer := r\<rparr>"
    using assms(1)
    by (auto simp: send_response_def and_then_eq_Inr write_response_def split: sum.splits option.splits if_splits)
  then show ?thesis
    using assms(2-4) by (auto simp: session_typed_def async_write_def)
qed

lemma on_callback_typed:
  assumes "session_typed s" and "awaits (pending_op s) cb" and "version_ok (s_version s)"
    and "on_callback b w d cb (s, st) = Some (Inr (s', st'))"
  shows "session_typed s'"
proof (cases cb)
  case (Handshake_done e)
  then have "pending_op s = Handshaking"
    using assms(2) by (auto simp: awaits_iff)
  then show ?thesis
    using assms Handshake_done by (auto simp: session_typed_def handle_handshake_def strlen_empty)
next
  case (Bytes_read bs peer)
  then obtain off where off: "pending_op s = Reading off"
    using assms(2) by (auto simp: awaits_iff)
  then have s: "socket_open s" "length (data s) \<le> max_length"
    using assms(1) by (simp_all add: session_typed_def)
  obtain new where new: "store_bytes off bs (data s) = Inr new"
    "handle_read b w d False peer (s\<lparr>data := new, pending_op := Idle\<rparr>, st) = Some (Inr (s', st'))"
    using assms(4) off by (auto simp: Bytes_read receive_def split: sum.splits)
  let ?s = "s\<lparr>data := new, pending_op := Idle\<rparr>"
  have len: "length new \<le> max_length"
    using store_bytes_length [OF new(1) s(2)] .
  consider "append_data ?s = Inr s'" | "send_response b w d peer (?s, st) = Some (Inr (s', st'))"
    using new(2) by (auto simp: handle_read_def and_then_eq_Inr split: sum.splits if_splits)
  then show ?thesis
  proof cases
    case 1
    then show ?thesis
      using s(1) len by (auto simp: append_data_def session_typed_def and_then_eq_Inr split: if_splits)
  next
    case 2
    then show ?thesis
      using send_response_typed [OF 2] s(1) len by simp
  qed
next
  case Read_failed
  then show ?thesis
    using assms by (auto simp: handle_read_def session_typed_def)
next
  case (Write_done e)
  then show ?thesis
    using assms by (cases e) (auto simp: handle_write_def Let_def session_typed_def split: if_splits)
qed

interpretation typed: session_invariant session_typed
proof unfold_locales
  fix s
  assume "session_typed s" "pending_op s = Accepting" "version_ok (s_version s)"
  then show "session_typed (start (s\<lparr>pending_op := Idle, socket_open := True\<rparr>))"
    by (auto simp: session_typed_def start_def version_ok_def strlen_empty)
next
  fix s s' :: session and b w d st st' cb
  assume "session_typed s" "awaits (pending_op s) cb" "version_ok (s_version s)"
    "on_callback b w d cb (s, st) = Some (Inr (s', st'))"
  then show "session_typed s'" by (rule on_callback_typed)
qed (auto simp: session_typed_def Session_ctor_http_def Session_ctor_https_def)



section \<open>From the connection to the closed socket\<close>

abbreviation server_steps :: "beast \<Rightarrow> world \<Rightarrow> server \<times> statics \<Rightarrow> server \<times> statics \<Rightarrow> bool" where
  "server_steps b w \<equiv> (server_step b w)\<^sup>*\<^sup>*"

lemma callback_steps:
  assumes "i < length (sessions srv)" and "awaits (pending_op (sessions srv ! i)) cb"
    and "on_callback b w (srv_dispatcher srv) cb (sessions srv ! i, st) = Some (Inr (s', st'))"
  shows "server_steps b w (srv, st) (srv\<lparr>sessions := (sessions srv)[i := s']\<rparr>, st')"
  using session_calls [OF assms] by blast

lemma feed_steps:
  assumes "feed b w (srv_dispatcher srv) peer cs (sessions srv ! i, st) = Some (Inr (s', st'))"
    and "i < length (sessions srv)"
  shows "server_steps b w (srv, st) (srv\<lparr>sessions := (sessions srv)[i := s']\<rparr>, st')"
  using assms
proof (induction cs arbitrary: srv st)
  case Nil
  then show ?case by auto
next
  case (Cons bs cs)
  let ?d = "srv_dispatcher srv"
  obtain s1 st1 where one: "on_callback b w ?d (Bytes_read bs peer) (sessions srv ! i, st) = Some (Inr (s1, st1))"
    and rest: "feed b w ?d peer cs (s1, st1) = Some (Inr (s', st'))"
    using Cons.prems(1) by (auto split: option.splits sum.splits simp del: on_callback.simps)
  let ?srv = "srv\<lparr>sessions := (sessions srv)[i := s1]\<rparr>"
  have "server_steps b w (srv, st) (?srv, st1)"
  proof (cases "\<exists>off. pending_op (sessions srv ! i) = Reading off")
    case True
    then show ?thesis
      using callback_steps [OF Cons.prems(2) _ one] by auto
  next
    case False
    then have "s1 = sessions srv ! i" "st1 = st"
      using one by (auto split: pending.splits)
    then show ?thesis by simp
  qed
  also have "server_steps b w (?srv, st1) (?srv\<lparr>sessions := (sessions ?srv)[i := s']\<rparr>, st')"
    using Cons.IH [of ?srv st1] rest Cons.prems(2) by simp
  finally show ?case by simp
qed

text \<open>The accept brings a session that starts, and the server waits for the next connection.\<close>

lemma accept_starts:
  assumes "server_ok srv" and "accepting srv = Some i"
  shows "\<exists>srv'. handle_accept b i False srv = Inr srv' \<and> i < length (sessions srv) \<and>
    sessions srv' ! i = start ((sessions srv ! i)\<lparr>pending_op := Idle, socket_open := True\<rparr>) \<and>
    length (sessions srv') = Suc (length (sessions srv)) \<and>
    (\<forall>j < length (sessions srv). j \<noteq> i \<longrightarrow> sessions srv' ! j = sessions srv ! j) \<and>
    accepting srv' = Some (length (sessions srv)) \<and> srv_dispatcher srv' = srv_dispatcher srv"
proof -
  have i: "i = length (sessions srv) - 1" "i < length (sessions srv)" and v: "version_ok (srv_version srv)"
    using assms by (auto simp: server_ok_def)
  let ?mid = "(start_session i srv)\<lparr>accepting := None\<rparr>"
  have "version_ok (srv_version ?mid)" using v by (simp add: start_session_def)
  from start_accept_result [OF this, of b] obtain n where
    "start_accept b ?mid = Inr (?mid\<lparr>sessions := sessions ?mid @ [n], accepting := Some (length (sessions ?mid))\<rparr>)"
    by blast
  then have "handle_accept b i False srv =
      Inr (?mid\<lparr>sessions := sessions ?mid @ [n], accepting := Some (length (sessions ?mid))\<rparr>)"
    by (simp add: handle_accept_def)
  then show ?thesis
    using i(2) by (auto simp: start_session_def nth_append)
qed

text \<open>After the handshake of a TLS session, and at once for a plain one, the first read is outstanding.\<close>

lemma starts_reading:
  assumes "i < length (sessions srv)" and "version_ok (s_version s)"
    and "sessions srv ! i = start (s\<lparr>pending_op := Idle, socket_open := True\<rparr>)"
  shows "server_steps b w (srv, st)
    (srv\<lparr>sessions := (sessions srv)[i := s\<lparr>data := [], pending_op := Reading 0, socket_open := True\<rparr>]\<rparr>, st)"
proof (cases "s_version s = ''http''")
  case True
  then have "sessions srv ! i = s\<lparr>data := [], pending_op := Reading 0, socket_open := True\<rparr>"
    using assms(3) by (simp add: start_def)
  then show ?thesis by (metis list_update_id rtranclp.rtrancl_refl server.surjective server.update_convs(3))
next
  case False
  then have shake: "sessions srv ! i = s\<lparr>pending_op := Handshaking, socket_open := True\<rparr>"
    using assms(2,3) by (simp add: start_def version_ok_def)
  show ?thesis
    by (rule callback_steps [where cb = "Handshake_done False"])
       (use assms(1) shake in \<open>simp_all add: handle_handshake_def\<close>)
qed

text \<open>A session that reads from the start gets through the answer to the closed socket.\<close>

lemma reading_answered:
  assumes "i < length (sessions srv)" and "sessions srv ! i = s" and "pending_op s = Reading 0" and "data s = []"
    and "version_ok (s_version s)" and "request_count st < int_max"
    and "c_nul \<notin> set (concat cs @ bs)" and "length (concat cs @ bs) < max_length"
    and "\<not> request_complete (concat cs)" and "request_complete (concat cs @ bs)"
    and "parse_request b (concat cs @ bs) = Some req"
    and "get_request_handler (srv_dispatcher srv) (target req) = Some h"
    and "handle_request b w st h req = Some (Inr r)"
  shows "server_steps b w (srv, st)
    (srv\<lparr>sessions := (sessions srv)[i := s\<lparr>data := [], buffer := r, pending_op := Idle, socket_open := False\<rparr>]\<rparr>,
     st\<lparr>request_count := request_count st + 1,
        handled_requests := map_push (target req) (result_int r) (handled_requests st)\<rparr>)"
proof -
  define asked where "asked = s\<lparr>data := concat cs @ bs, buffer := r, pending_op := Writing\<rparr>"
  define closed where "closed = s\<lparr>data := [], buffer := r, pending_op := Idle, socket_open := False\<rparr>"
  let ?st = "st\<lparr>request_count := request_count st + 1,
    handled_requests := map_push (target req) (result_int r) (handled_requests st)\<rparr>"
  let ?srv = "srv\<lparr>sessions := (sessions srv)[i := asked]\<rparr>"
  have "feed b w (srv_dispatcher srv) True (cs @ [bs]) (sessions srv ! i, st) =
      send_response b w (srv_dispatcher srv) True (s\<lparr>data := concat cs @ bs, pending_op := Idle\<rparr>, st)"
    using feed_request [OF assms(3-5,7-10)] assms(2) by simp
  also have "\<dots> = Some (Inr (asked, ?st))"
    using send_response_answers [OF assms(6) _ _ assms(11-13), of _ True] assms(5) c_data_plain [OF assms(7,8)]
    by (simp add: asked_def)
  finally have writing: "server_steps b w (srv, st) (?srv, ?st)"
    using assms(1) by (rule feed_steps)
  have "handle_write False (asked\<lparr>pending_op := Idle\<rparr>) = closed"
    using assms(5) by (auto simp: asked_def closed_def handle_write_def Let_def version_ok_def)
  then have "server_steps b w (?srv, ?st) (?srv\<lparr>sessions := (sessions ?srv)[i := closed]\<rparr>, ?st)"
    using assms(1) by (intro callback_steps [where cb = "Write_done False"]) (simp_all add: asked_def)
  from rtranclp_trans [OF writing this] show ?thesis
    by (simp add: closed_def)
qed


lemma sample_process_ok:
  "process_ok (started (served_server ''http'' (Session_ctor_http plain_beast))
     (served_server ''https'' (Session_ctor_https plain_beast)) served_statics)"
  using sample_main by (rule main_serving) (rule build_servers_ok)


section \<open>The life cycle\<close>

text \<open>The phases of a session, and what its state says of them.\<close>

datatype life = Waiting | Shaking | Receiving | Answering | Closed | Gone

definition life_of :: "session \<Rightarrow> life" where
  "life_of s =
     (if deleted s then Gone
      else case pending_op s of
        Accepting \<Rightarrow> Waiting
      | Handshaking \<Rightarrow> Shaking
      | Reading _ \<Rightarrow> Receiving
      | Writing \<Rightarrow> Answering
      | Idle \<Rightarrow> Closed)"

inductive life_step :: "string \<Rightarrow> life \<Rightarrow> life \<Rightarrow> bool" for v :: string where
  connected: "v = ''http'' \<Longrightarrow> life_step v Waiting Receiving"
| connected_tls: "v = ''https'' \<Longrightarrow> life_step v Waiting Shaking"
| refused: "life_step v Waiting Gone"
| shaken: "life_step v Shaking Receiving"
| not_shaken: "life_step v Shaking Gone"
| more: "life_step v Receiving Receiving"
| complete: "life_step v Receiving Answering"
| lost: "life_step v Receiving Gone"
| sent: "life_step v Answering Closed"
| not_sent: "life_step v Answering Gone"

inductive_simps life_step_ends [simp]: "life_step v Closed l" "life_step v Gone l"

lemma send_response_life:
  assumes "send_response b w d peer (s, st) = Some (Inr (s', st'))" and "version_ok (s_version s)" and "\<not> deleted s"
  shows "life_of s' = Answering"
proof -
  obtain r where "s' = async_write (s\<lparr>buffer := r\<rparr>)"
    using assms(1,2)
    by (auto simp: send_response_def and_then_eq_Inr write_response_def version_ok_def
        split: sum.splits option.splits if_splits)
  then show ?thesis
    using assms(2,3) by (auto simp: life_of_def async_write_def version_ok_def)
qed

lemma callback_life:
  assumes "on_callback b w d cb (s, st) = Some (Inr (s', st'))" and "awaits (pending_op s) cb"
    and "version_ok (s_version s)" and "\<not> deleted s"
  shows "life_step v (life_of s) (life_of s')"
proof (cases cb)
  case (Handshake_done e)
  then have "pending_op s = Handshaking"
    using assms(2) by (auto simp: awaits_iff)
  then show ?thesis
    using assms Handshake_done by (cases e) (auto simp: life_of_def handle_handshake_def intro: life_step.intros)
next
  case (Bytes_read bs peer)
  then obtain off where off: "pending_op s = Reading off"
    using assms(2) by (auto simp: awaits_iff)
  then have life: "life_of s = Receiving"
    using assms(4) by (simp add: life_of_def)
  obtain new where new: "handle_read b w d False peer (s\<lparr>data := new, pending_op := Idle\<rparr>, st) = Some (Inr (s', st'))"
    using assms(1) off by (auto simp: Bytes_read receive_def split: sum.splits)
  let ?s = "s\<lparr>data := new, pending_op := Idle\<rparr>"
  consider "append_data ?s = Inr s'" | "send_response b w d peer (?s, st) = Some (Inr (s', st'))"
    using new by (auto simp: handle_read_def and_then_eq_Inr split: sum.splits if_splits)
  then show ?thesis
  proof cases
    case 1
    then have "life_of s' = Receiving"
      using assms(3,4) by (auto simp: append_data_def life_of_def version_ok_def and_then_eq_Inr split: if_splits)
    with life show ?thesis by (simp add: life_step.more)
  next
    case 2
    then show ?thesis
      using send_response_life [OF 2] assms(3,4) life by (simp add: life_step.complete)
  qed
next
  case Read_failed
  then have "life_of s = Receiving"
    using assms(2,4) by (auto simp: awaits_iff life_of_def)
  then show ?thesis
    using assms(1) Read_failed by (auto simp: handle_read_def life_of_def intro: life_step.intros)
next
  case (Write_done e)
  then have "life_of s = Answering"
    using assms(2,4) by (auto simp: awaits_iff life_of_def)
  then show ?thesis
    using assms Write_done
    by (cases e) (auto simp: handle_write_def Let_def life_of_def version_ok_def intro: life_step.intros)
qed



end
