(* ===== verification/Isolation.thy ===== *)
theory Isolation
  imports Lifecycle
begin

text \<open>
  Sessions do not disturb each other: but for the status page, a callback is a function of its own session
  that adds entries to the log. Schedules that give every session the same callbacks in the same order
  leave the same sessions and the same status page.
\<close>

section \<open>Callbacks without the shared state\<close>

definition no_status :: "dispatcher \<Rightarrow> bool" where
  "no_status d \<longleftrightarrow> StatusHandler \<notin> snd ` set (handlers d)"

lemma match_fold_registered:
  "snd (fold (match_step path) its acc) = Some h \<Longrightarrow> snd acc = Some h \<or> h \<in> snd ` set its"
proof (induction its arbitrary: acc)
  case (Cons it its)
  have "snd (match_step path it acc) = Some h \<Longrightarrow> snd acc = Some h \<or> snd it = h"
    by (simp add: match_step_def split: if_splits)
  then show ?case
    using Cons.IH [of "match_step path it acc"] Cons.prems by auto
qed simp

lemma get_request_handler_registered:
  "get_request_handler d uri = Some h \<Longrightarrow> h \<in> snd ` set (handlers d)"
  using match_fold_registered [of _ _ "([], None)"] by (simp add: get_request_handler_def)

lemma handle_request_private:
  "h \<noteq> StatusHandler \<Longrightarrow> handle_request b w st h req = handle_request b w st' h req"
  by (cases h) simp_all

text \<open>A list of entries logged one after the other.\<close>

fun log_all :: "(string \<times> nat) list \<Rightarrow> statics \<Rightarrow> statics result" where
  "log_all [] st = Inr st"
| "log_all (e # es) st = and_then (log_request (fst e) (snd e) st) (log_all es)"

definition blank :: statics where
  "blank = \<lparr>request_count = 0, handled_requests = [], handler_info = [], logging = no_logging\<rparr>"

definition logged_entries :: "request_log \<Rightarrow> (string \<times> nat) list" where
  "logged_entries log = concat (map (\<lambda>it. map (Pair (fst it)) (snd it)) log)"

text \<open>The callback run on static members of its own: the session it leaves and what it logged.\<close>

definition local_callback ::
  "beast \<Rightarrow> world \<Rightarrow> dispatcher \<Rightarrow> callback \<Rightarrow> session \<Rightarrow> (session \<times> (string \<times> nat) list) option" where
  "local_callback b w d cb s =
     (case on_callback b w d cb (s, blank) of
        Some (Inr (s', st)) \<Rightarrow> Some (s', logged_entries (handled_requests st))
      | _ \<Rightarrow> None)"

lemma send_response_cases:
  assumes "no_status d"
  obtains (quiet) s' where "\<And>st. send_response b w d peer (s, st) = Some (Inr (s', st))"
  | (logs) s' uri code where "\<And>st. send_response b w d peer (s, st) =
      Some (and_then (log_request uri code st) (\<lambda>st'. Inr (s', st')))"
  | (stops) "\<And>st s' st'. send_response b w d peer (s, st) \<noteq> Some (Inr (s', st'))"
proof (cases "c_data (data s)")
  case (Inl e)
  then show thesis by (intro stops) (simp add: send_response_def)
next
  case data: (Inr t)
  show thesis
  proof (cases "parse_request b t")
    case None
    then show thesis using data by (intro quiet) (simp add: send_response_def)
  next
    case req: (Some req)
    show thesis
    proof (cases "get_request_handler d (target req)")
      case None
      then show thesis using data req by (intro stops) (simp add: send_response_def)
    next
      case h: (Some h)
      then have "h \<noteq> StatusHandler"
        using get_request_handler_registered assms by (auto simp: no_status_def)
      then have same: "handle_request b w st h req = handle_request b w blank h req" for st
        by (rule handle_request_private)
      consider r s' where "handle_request b w blank h req = Some (Inr r)" "write_response peer (s\<lparr>buffer := r\<rparr>) = Inr s'"
        | "\<And>r s'. handle_request b w blank h req = Some (Inr r) \<Longrightarrow> write_response peer (s\<lparr>buffer := r\<rparr>) \<noteq> Inr s'"
        by blast
      then show thesis
      proof cases
        case 1
        then show thesis
          using data req h same
          by (intro logs [of "target req" "result_int r" s']) (simp add: send_response_def)
      next
        case 2
        show thesis
        proof (rule stops)
          fix st s' st'
          have "handle_request b w st h req = Some (Inr r) \<Longrightarrow> write_response peer (s\<lparr>buffer := r\<rparr>) \<noteq> Inr s'" for r
            using 2 same [of st] by simp
          then show "send_response b w d peer (s, st) \<noteq> Some (Inr (s', st'))"
            using data req h by (auto simp: send_response_def and_then_eq_Inr)
        qed
      qed
    qed
  qed
qed

lemma receive_cases:
  assumes "no_status d"
  obtains (quiet) s' where "\<And>st. receive b w d off bs peer (s, st) = Some (Inr (s', st))"
  | (logs) s' uri code where "\<And>st. receive b w d off bs peer (s, st) =
      Some (and_then (log_request uri code st) (\<lambda>st'. Inr (s', st')))"
  | (stops) "\<And>st s' st'. receive b w d off bs peer (s, st) \<noteq> Some (Inr (s', st'))"
proof (cases "store_bytes off bs (data s)")
  case (Inl e)
  then show thesis by (intro stops) (simp add: receive_def)
next
  case (Inr new)
  let ?s = "s\<lparr>data := new, pending_op := Idle\<rparr>"
  have call: "receive b w d off bs peer (s, st) = handle_read b w d False peer (?s, st)" for st
    using Inr by (simp add: receive_def)
  consider "end_of_request ?s = Inr True" | s' where "end_of_request ?s = Inr False" "append_data ?s = Inr s'"
    | "end_of_request ?s \<noteq> Inr True" "\<And>s'. end_of_request ?s = Inr False \<Longrightarrow> append_data ?s \<noteq> Inr s'"
    by blast
  then show thesis
  proof cases
    case 1
    then have "receive b w d off bs peer (s, st) = send_response b w d peer (?s, st)" for st
      by (simp add: call handle_read_def)
    then show thesis
      using send_response_cases [OF assms, of b w peer ?s] quiet logs stops by metis
  next
    case 2
    then show thesis by (intro quiet) (simp add: call handle_read_def)
  next
    case 3
    then show thesis
      by (intro stops) (auto simp: call handle_read_def and_then_eq_Inr split: sum.splits)
  qed
qed

lemma on_callback_cases:
  assumes "no_status d"
  obtains (quiet) s' where "\<And>st. on_callback b w d cb (s, st) = Some (Inr (s', st))"
  | (logs) s' uri code where "\<And>st. on_callback b w d cb (s, st) =
      Some (and_then (log_request uri code st) (\<lambda>st'. Inr (s', st')))"
  | (stops) "\<And>st s' st'. on_callback b w d cb (s, st) \<noteq> Some (Inr (s', st'))"
proof (cases cb)
  case (Bytes_read bs peer)
  show thesis
  proof (cases "\<exists>off. pending_op s = Reading off")
    case False
    then have "on_callback b w d cb (s, st) = Some (Inr (s, st))" for st
      by (auto simp: Bytes_read split: pending.splits)
    then show thesis by (rule quiet)
  next
    case True
    then obtain off where "pending_op s = Reading off" ..
    then have "on_callback b w d cb (s, st) = receive b w d off bs peer (s, st)" for st
      by (simp add: Bytes_read)
    then show thesis
      using receive_cases [OF assms, of b w off bs peer s] quiet logs stops by metis
  qed
next
  case (Handshake_done e)
  then show thesis by (intro quiet) simp
next
  case Read_failed
  then show thesis by (intro quiet) (simp add: handle_read_def)
next
  case (Write_done e)
  then show thesis by (intro quiet) simp
qed

text \<open>The refinement: a callback is its local effect followed by the logging.\<close>

lemma on_callback_local:
  assumes "no_status d"
  shows "on_callback b w d cb (s, st) = Some (Inr (s', st')) \<longleftrightarrow>
    (\<exists>l. local_callback b w d cb s = Some (s', l) \<and> log_all l st = Inr st')"
proof (rule on_callback_cases [OF assms, of b w cb s])
  fix s1
  assume "\<And>st. on_callback b w d cb (s, st) = Some (Inr (s1, st))"
  then show ?thesis
    by (auto simp: local_callback_def blank_def logged_entries_def)
next
  fix s1 uri code
  assume "\<And>st. on_callback b w d cb (s, st) = Some (and_then (log_request uri code st) (\<lambda>st'. Inr (s1, st')))"
  then show ?thesis
    by (auto simp: local_callback_def blank_def logged_entries_def log_request_def map_push_def int_max_def
        and_then_eq_Inr)
next
  assume stops: "\<And>st s' st'. on_callback b w d cb (s, st) \<noteq> Some (Inr (s', st'))"
  then have "local_callback b w d cb s = None"
    by (auto simp: local_callback_def split: option.splits sum.splits)
  with stops show ?thesis by simp
qed


section \<open>Schedules\<close>

text \<open>
  A run of callbacks of the sessions of a server, in a given order; it stops where a session does not wait for
  the callback or the callback does not return.
\<close>

fun run_callbacks ::
  "beast \<Rightarrow> world \<Rightarrow> (nat \<times> callback) list \<Rightarrow> server \<times> statics \<Rightarrow> (server \<times> statics) option" where
  "run_callbacks b w [] x = Some x"
| "run_callbacks b w ((i, cb) # sched) (srv, st) =
     (if i < length (sessions srv) \<and> awaits (pending_op (sessions srv ! i)) cb then
        (case on_callback b w (srv_dispatcher srv) cb (sessions srv ! i, st) of
           Some (Inr (s', st')) \<Rightarrow> run_callbacks b w sched (srv\<lparr>sessions := (sessions srv)[i := s']\<rparr>, st')
         | _ \<Rightarrow> None)
      else None)"

lemma run_callbacks_steps:
  "run_callbacks b w sched (srv, st) = Some (srv', st') \<Longrightarrow> server_steps b w (srv, st) (srv', st')"
proof (induction sched arbitrary: srv st)
  case (Cons e sched)
  obtain i cb where e: "e = (i, cb)" by (cases e)
  obtain s1 st1 where one: "i < length (sessions srv)" "awaits (pending_op (sessions srv ! i)) cb"
    "on_callback b w (srv_dispatcher srv) cb (sessions srv ! i, st) = Some (Inr (s1, st1))"
    and rest: "run_callbacks b w sched (srv\<lparr>sessions := (sessions srv)[i := s1]\<rparr>, st1) = Some (srv', st')"
    using Cons.prems unfolding e
    by (auto split: option.splits sum.splits if_splits simp del: on_callback.simps)
  from session_calls [OF one] have "server_steps b w (srv, st) (srv\<lparr>sessions := (sessions srv)[i := s1]\<rparr>, st1)"
    by blast
  from rtranclp_trans [OF this Cons.IH [OF rest]] show ?case .
qed simp

text \<open>What a schedule asks of one session, and the session run through it alone.\<close>

definition calls_of :: "nat \<Rightarrow> (nat \<times> 'a) list \<Rightarrow> 'a list" where
  "calls_of i sched = map snd (filter (\<lambda>e. fst e = i) sched)"

lemma calls_of_simps [simp]:
  "calls_of i [] = []"
  "calls_of i (e # sched) = (if fst e = i then [snd e] else []) @ calls_of i sched"
  "calls_of i (xs @ ys) = calls_of i xs @ calls_of i ys"
  by (simp_all add: calls_of_def)

lemma calls_of_tagged: "calls_of i (map (Pair j) xs) = (if i = j then xs else [])"
  by (induction xs) auto

lemma mset_calls_of:
  fixes xs ys :: "(nat \<times> 'a) list"
  assumes "\<And>i. calls_of i xs = calls_of i ys"
  shows "mset xs = mset ys"
proof (rule multiset_eqI)
  fix e
  have "count (mset zs) (i, x) = count (mset (calls_of i zs)) x" for zs :: "(nat \<times> 'a) list" and i x
    by (induction zs) auto
  then show "count (mset xs) e = count (mset ys) e"
    using assms by (cases e) simp
qed

fun run_alone ::
  "beast \<Rightarrow> world \<Rightarrow> dispatcher \<Rightarrow> callback list \<Rightarrow> session \<Rightarrow> (session \<times> (string \<times> nat) list) option" where
  "run_alone b w d [] s = Some (s, [])"
| "run_alone b w d (cb # cbs) s =
     (if awaits (pending_op s) cb then
        (case local_callback b w d cb s of
           None \<Rightarrow> None
         | Some (s', l) \<Rightarrow> map_option (\<lambda>(s'', l'). (s'', l @ l')) (run_alone b w d cbs s'))
      else None)"

lemma log_all_append: "log_all (l @ l') st = and_then (log_all l st) (log_all l')"
  by (induction l arbitrary: st) (auto simp: and_then_def split: sum.splits)

text \<open>
  A run of the server is the run of each session alone and the logging of all their entries, in some order that
  keeps the order of each session.
\<close>

lemma run_callbacks_alone:
  assumes "no_status (srv_dispatcher srv)" and "run_callbacks b w sched (srv, st) = Some (srv', st')"
  shows "\<exists>L. srv' = srv\<lparr>sessions := sessions srv'\<rparr> \<and> length (sessions srv') = length (sessions srv) \<and>
    (\<forall>i < length (sessions srv).
      run_alone b w (srv_dispatcher srv) (calls_of i sched) (sessions srv ! i) =
        Some (sessions srv' ! i, calls_of i L)) \<and>
    (\<forall>i \<ge> length (sessions srv). calls_of i L = [] \<and> calls_of i sched = []) \<and>
    log_all (map snd L) st = Inr st'"
  using assms
proof (induction sched arbitrary: srv st)
  case Nil
  then show ?case by (intro exI [of _ "[]"]) auto
next
  case (Cons e sched)
  obtain i cb where e: "e = (i, cb)" by (cases e)
  let ?d = "srv_dispatcher srv"
  obtain s1 st1 where i: "i < length (sessions srv)" "awaits (pending_op (sessions srv ! i)) cb"
    and one: "on_callback b w ?d cb (sessions srv ! i, st) = Some (Inr (s1, st1))"
    and rest: "run_callbacks b w sched (srv\<lparr>sessions := (sessions srv)[i := s1]\<rparr>, st1) = Some (srv', st')"
    using Cons.prems(2) unfolding e
    by (auto split: option.splits sum.splits if_splits simp del: on_callback.simps)
  obtain l where l: "local_callback b w ?d cb (sessions srv ! i) = Some (s1, l)" "log_all l st = Inr st1"
    using one unfolding on_callback_local [OF Cons.prems(1)] by blast
  obtain L where L: "srv' = srv\<lparr>sessions := sessions srv'\<rparr>" "length (sessions srv') = length (sessions srv)"
    "\<And>j. j < length (sessions srv) \<Longrightarrow>
      run_alone b w ?d (calls_of j sched) ((sessions srv)[i := s1] ! j) = Some (sessions srv' ! j, calls_of j L)"
    "\<And>j. j \<ge> length (sessions srv) \<Longrightarrow> calls_of j L = [] \<and> calls_of j sched = []"
    "log_all (map snd L) st1 = Inr st'"
    using Cons.IH [OF _ rest] Cons.prems(1) by fastforce
  have "run_alone b w ?d (calls_of j (e # sched)) (sessions srv ! j) =
      Some (sessions srv' ! j, calls_of j (map (Pair i) l @ L))" if "j < length (sessions srv)" for j
    using L(3) [OF that] i l(1) by (cases "j = i") (auto simp: e calls_of_tagged)
  moreover have "log_all (map snd (map (Pair i) l @ L)) st = Inr st'"
    using l(2) L(5) by (simp add: log_all_append o_def)
  moreover have "calls_of j (map (Pair i) l @ L) = [] \<and> calls_of j (e # sched) = []"
    if "j \<ge> length (sessions srv)" for j
    using L(4) [OF that] i(1) that by (auto simp: e calls_of_tagged)
  ultimately show ?case
    using L(1,2) by (intro exI [of _ "map (Pair i) l @ L"] conjI) auto
qed

lemma run_alone_callbacks:
  assumes "no_status (srv_dispatcher srv)" and "length ss = length (sessions srv)"
    and "\<And>i. i < length (sessions srv) \<Longrightarrow>
      run_alone b w (srv_dispatcher srv) (calls_of i sched) (sessions srv ! i) = Some (ss ! i, logs i)"
    and "\<And>i. i \<ge> length (sessions srv) \<Longrightarrow> calls_of i sched = [] \<and> logs i = []"
  shows "\<exists>L. (\<forall>i. calls_of i L = logs i) \<and>
    (\<forall>st st'. log_all (map snd L) st = Inr st' \<longrightarrow>
      run_callbacks b w sched (srv, st) = Some (srv\<lparr>sessions := ss\<rparr>, st'))"
  using assms
proof (induction sched arbitrary: srv logs)
  case Nil
  have "ss = sessions srv"
    using Nil.prems(2,3) by (intro nth_equalityI) auto
  moreover have "logs i = []" for i
    using Nil.prems(3,4) by (cases "i < length (sessions srv)") auto
  ultimately show ?case by (intro exI [of _ "[]"]) auto
next
  case (Cons e sched)
  obtain i cb where e: "e = (i, cb)" by (cases e)
  let ?d = "srv_dispatcher srv"
  have i: "i < length (sessions srv)"
    using Cons.prems(4) [of i] by (force simp: e)
  obtain s1 l l' where cb: "awaits (pending_op (sessions srv ! i)) cb"
    "local_callback b w ?d cb (sessions srv ! i) = Some (s1, l)"
    "run_alone b w ?d (calls_of i sched) s1 = Some (ss ! i, l')" "logs i = l @ l'"
    using Cons.prems(3) [OF i] by (auto simp: e split: if_splits option.splits)
  let ?srv = "srv\<lparr>sessions := (sessions srv)[i := s1]\<rparr>"
  have alone: "run_alone b w (srv_dispatcher ?srv) (calls_of j sched) (sessions ?srv ! j) = Some (ss ! j, (logs(i := l')) j)"
    if "j < length (sessions ?srv)" for j
    using Cons.prems(3) [of j] that cb(3) i by (cases "j = i") (auto simp: e)
  have "\<exists>L. (\<forall>j. calls_of j L = (logs(i := l')) j) \<and>
    (\<forall>st st'. log_all (map snd L) st = Inr st' \<longrightarrow>
      run_callbacks b w sched (?srv, st) = Some (?srv\<lparr>sessions := ss\<rparr>, st'))"
    using Cons.prems i by (intro Cons.IH alone) (auto simp: e split: if_splits)
  then obtain L where L: "\<And>j. calls_of j L = (logs(i := l')) j"
    "\<And>st st'. log_all (map snd L) st = Inr st' \<Longrightarrow>
      run_callbacks b w sched (?srv, st) = Some (srv\<lparr>sessions := ss\<rparr>, st')"
    by auto
  have "run_callbacks b w (e # sched) (srv, st) = Some (srv\<lparr>sessions := ss\<rparr>, st')"
    if log: "log_all (map snd (map (Pair i) l @ L)) st = Inr st'" for st st'
  proof -
    obtain st1 where st1: "log_all l st = Inr st1" "log_all (map snd L) st1 = Inr st'"
      using log by (auto simp: log_all_append o_def and_then_eq_Inr)
    then have "on_callback b w ?d cb (sessions srv ! i, st) = Some (Inr (s1, st1))"
      using on_callback_local [OF Cons.prems(1)] cb(2) by blast
    then show ?thesis
      using L(2) [OF st1(2)] i cb(1) by (simp add: e del: on_callback.simps)
  qed
  moreover have "calls_of j (map (Pair i) l @ L) = logs j" for j
    using L(1) [of j] cb(4) by (simp add: calls_of_tagged)
  ultimately show ?case by blast
qed

section \<open>The order of the callbacks\<close>

lemma log_all_result:
  assumes "request_count st \<le> int_max"
  shows "log_all l st =
    (if request_count st + length l \<le> int_max
     then Inr (st\<lparr>request_count := request_count st + length l,
                  handled_requests := fold (\<lambda>e. map_push (fst e) (snd e)) l (handled_requests st)\<rparr>)
     else Inl SignedOverflow)"
  using assms by (induction l arbitrary: st) (auto simp: log_request_def)

lemma logged_keys_pushes:
  assumes "map_ok log"
  shows "mset (logged_keys (fold (\<lambda>e. map_push (fst e) (snd e)) l log)) =
    mset (logged_keys log) + mset (map (\<lambda>e. row_key (fst e) (snd e)) l)"
  using assms by (induction l arbitrary: log) (auto simp: logged_keys_push log.ok_push)

lemma log_order_irrelevant:
  assumes "statics_ok st" and "log_all l st = Inr st'" and "mset l = mset l'"
  shows "\<exists>st''. log_all l' st = Inr st'' \<and> request_count st'' = request_count st' \<and>
    handler_info st'' = handler_info st' \<and> condense (handled_requests st'') = condense (handled_requests st')"
proof -
  have n: "length l' = length l" "request_count st \<le> int_max" and ok: "map_ok (handled_requests st)"
    using assms(1,3) by (auto simp: statics_ok_def dest: mset_eq_length)
  have "mset (map (\<lambda>e. row_key (fst e) (snd e)) l') = mset (map (\<lambda>e. row_key (fst e) (snd e)) l)"
    using assms(3) by (simp only: mset_map)
  then have "condense (fold (\<lambda>e. map_push (fst e) (snd e)) l' (handled_requests st)) =
      condense (fold (\<lambda>e. map_push (fst e) (snd e)) l (handled_requests st))"
    by (intro condense_cong) (simp add: logged_keys_pushes [OF ok])
  then show ?thesis
    using assms(2) n by (auto simp: log_all_result [OF n(2)] split: if_splits)
qed


definition quiet_dispatcher :: dispatcher where
  "quiet_dispatcher = \<lparr>handlers = [(''/'', NotFoundHandler)], regnum = 1\<rparr>"

definition busy_server :: server where
  "busy_server = \<lparr>srv_version = ''http'', srv_dispatcher = quiet_dispatcher,
     sessions = [sample_session, sample_session], accepting = None\<rparr>"

definition get_text :: "string \<Rightarrow> string" where
  "get_text u = ''GET /'' @ u @ '' HTTP/1.1'' @ [c_cr, c_nl, c_cr, c_nl]"

lemma quiet_answer:
  assumes "request_count st < int_max" and "c_nul \<notin> set t" and "length t < max_length" and "request_complete t"
    and "parse_request plain_beast t = Some req" and "get_request_handler quiet_dispatcher (target req) = Some NotFoundHandler"
  shows "on_callback plain_beast sample_world quiet_dispatcher (Bytes_read t True) (sample_session, st) =
    Some (Inr (sample_session\<lparr>data := t, buffer := NotFound_handle_request plain_beast, pending_op := Writing\<rparr>,
      st\<lparr>request_count := request_count st + 1,
         handled_requests := map_push (target req) (result_int (NotFound_handle_request plain_beast)) (handled_requests st)\<rparr>))"
  using last_piece [of sample_session t plain_beast sample_world quiet_dispatcher True st]
    send_response_answers [OF assms(1) _ _ assms(5,6), of "sample_session\<lparr>data := t, pending_op := Idle\<rparr>" sample_world
      "NotFound_handle_request plain_beast" True] assms(2-4)
  by (simp add: version_ok_def c_data_plain del: on_callback.simps)

lemma request_complete_end: "request_complete (t @ [c_cr, c_nl, c_cr, c_nl])"
  unfolding request_complete_def sublist_def
  by (intro disjI1 exI [of _ t] exI [of _ "[]"]) simp


end
