(* ===== verification/Races.thy ===== *)
theory Races
  imports Isolation
begin

text \<open>
  What can happen inside \<^verbatim>\<open>send_response\<close> when the I/O service of a server runs in several threads, as it does
  from the second connection on (\<^verbatim>\<open>start_session\<close>): \<^verbatim>\<open>request_count++\<close> is a read, an addition and a write of
  an \<^verbatim>\<open>int\<close> no lock protects. The steps of each thread are those of the two statements that log a request; the
  update of the map is taken as one step, which is the best case.
\<close>

section \<open>Threads\<close>

datatype phase = Ready | Loaded nat | Counted | Logged

type_synonym thread = "phase \<times> string \<times> nat"

inductive race_step :: "thread list \<times> statics \<Rightarrow> thread list \<times> statics \<Rightarrow> bool" where
  load: "i < length ts \<Longrightarrow> ts ! i = (Ready, e) \<Longrightarrow>
    race_step (ts, st) (ts[i := (Loaded (request_count st), e)], st)"
| store: "i < length ts \<Longrightarrow> ts ! i = (Loaded n, e) \<Longrightarrow> n < int_max \<Longrightarrow>
    race_step (ts, st) (ts[i := (Counted, e)], st\<lparr>request_count := n + 1\<rparr>)"
| push: "i < length ts \<Longrightarrow> ts ! i = (Counted, e) \<Longrightarrow>
    race_step (ts, st) (ts[i := (Logged, e)],
      st\<lparr>handled_requests := map_push (fst e) (snd e) (handled_requests st)\<rparr>)"

inductive_cases race_stepE: "race_step (ts, st) (ts', st')"

abbreviation race_steps :: "thread list \<times> statics \<Rightarrow> thread list \<times> statics \<Rightarrow> bool" where
  "race_steps \<equiv> race_step\<^sup>*\<^sup>*"

lemmas run_load = r_into_rtranclp [of race_step, OF load]
lemmas run_store = r_into_rtranclp [of race_step, OF store]
lemmas run_push = r_into_rtranclp [of race_step, OF push]

definition at_phase :: "phase \<Rightarrow> (string \<times> nat) list \<Rightarrow> thread list" where
  "at_phase ph es = map (Pair ph) es"

section \<open>Bounds of the counter\<close>

fun stored :: "thread \<Rightarrow> bool" where
  "stored (Ready, _) = False"
| "stored (Loaded _, _) = False"
| "stored _ = True"

fun logged :: "thread \<Rightarrow> bool" where
  "logged (Logged, _) = True"
| "logged _ = False"

lemma length_filter_update:
  "i < length xs \<Longrightarrow> length (filter P (xs[i := x])) + (if P (xs ! i) then 1 else 0) =
     length (filter P xs) + (if P x then 1 else 0)"
proof (induction xs arbitrary: i)
  case (Cons y ys)
  then show ?case by (cases i) auto
qed simp

text \<open>
  Against the state the threads started in: the counter moved by at most the number of writes and, once there
  was a write, by at least one; a value that was read lies in the same range; the log grew by the entries
  that were pushed.
\<close>

definition race_ok :: "statics \<Rightarrow> thread list \<times> statics \<Rightarrow> bool" where
  "race_ok st0 = (\<lambda>(ts, st).
     let k = length (filter stored ts) in
     request_count st0 \<le> request_count st \<and> request_count st \<le> request_count st0 + k \<and>
     (0 < k \<longrightarrow> request_count st0 < request_count st) \<and>
     (\<forall>i < length ts. \<forall>n e. ts ! i = (Loaded n, e) \<longrightarrow>
        request_count st0 \<le> n \<and> n \<le> request_count st0 + k) \<and>
     map_ok (handled_requests st) \<and>
     logged_total (handled_requests st) = logged_total (handled_requests st0) + length (filter logged ts))"

lemma race_step_ok:
  assumes "race_step (ts, st) (ts', st')" and "race_ok st0 (ts, st)"
  shows "race_ok st0 (ts', st')"
proof (rule race_stepE [OF assms(1)])
  fix i e
  assume ts': "ts' = ts[i := (Loaded (request_count st), e)]" and st': "st' = st"
    and i: "i < length ts" "ts ! i = (Ready, e)"
  have "length (filter stored ts') = length (filter stored ts)" "length (filter logged ts') = length (filter logged ts)"
    using length_filter_update [OF i(1), of stored "(Loaded (request_count st), e)"]
      length_filter_update [OF i(1), of logged "(Loaded (request_count st), e)"] i(2) ts' by simp_all
  then show ?thesis
    using assms(2) i st' ts' by (auto simp: race_ok_def Let_def nth_list_update)
next
  fix i n e
  assume ts': "ts' = ts[i := (Counted, e)]" and st': "st' = st\<lparr>request_count := Suc n\<rparr>"
    and i: "i < length ts" "ts ! i = (Loaded n, e)" and "n < int_max"
  have "length (filter stored ts') = Suc (length (filter stored ts))"
    "length (filter logged ts') = length (filter logged ts)"
    using length_filter_update [OF i(1), of stored "(Counted, e)"]
      length_filter_update [OF i(1), of logged "(Counted, e)"] i(2) ts' by simp_all
  then show ?thesis
    using assms(2) i st' ts' by (fastforce simp: race_ok_def Let_def nth_list_update)
next
  fix i e
  assume ts': "ts' = ts[i := (Logged, e)]"
    and st': "st' = st\<lparr>handled_requests := map_push (fst e) (snd e) (handled_requests st)\<rparr>"
    and i: "i < length ts" "ts ! i = (Counted, e)"
  have "length (filter stored ts') = length (filter stored ts)"
    "length (filter logged ts') = Suc (length (filter logged ts))"
    using length_filter_update [OF i(1), of stored "(Logged, e)"]
      length_filter_update [OF i(1), of logged "(Logged, e)"] i(2) ts' by simp_all
  then show ?thesis
    using assms(2) i st' ts' by (auto simp: race_ok_def Let_def nth_list_update logged_total_push log.ok_push)
qed

lemma race_steps_ok:
  assumes "race_steps (ts, st) (ts', st')" and "race_ok st0 (ts, st)"
  shows "race_ok st0 (ts', st')"
  using assms by (induction rule: rtranclp_induct2) (auto intro: race_step_ok)

lemma at_phase_simps [simp]:
  "length (at_phase ph es) = length es"
  "at_phase ph es = [] \<longleftrightarrow> es = []"
  "i < length es \<Longrightarrow> at_phase ph es ! i = (ph, es ! i)"
  by (simp_all add: at_phase_def)

lemma filter_ready: "filter stored (at_phase Ready es) = []" "filter logged (at_phase Ready es) = []"
  by (simp_all add: at_phase_def filter_empty_conv)

lemma filter_logged: "filter stored (at_phase Logged es) = at_phase Logged es"
  "filter logged (at_phase Logged es) = at_phase Logged es"
  by (simp_all add: at_phase_def filter_id_conv)


section \<open>Schedules that attain the bounds\<close>

lemma load_all: "race_steps (ps @ at_phase Ready es, st) (ps @ at_phase (Loaded (request_count st)) es, st)"
proof (induction es arbitrary: ps)
  case (Cons e es)
  have "race_step (ps @ at_phase Ready (e # es), st)
      ((ps @ [(Loaded (request_count st), e)]) @ at_phase Ready es, st)"
    using load [of "length ps" "ps @ at_phase Ready (e # es)" e st]
    by (simp add: at_phase_def)
  also have "race_steps ((ps @ [(Loaded (request_count st), e)]) @ at_phase Ready es, st)
      (ps @ at_phase (Loaded (request_count st)) (e # es), st)"
    using Cons.IH [of "ps @ [(Loaded (request_count st), e)]"] by (simp add: at_phase_def)
  finally show ?case .
qed (simp add: at_phase_def)

lemma store_all:
  assumes "n < int_max" and "es \<noteq> [] \<or> request_count st = n + 1"
  shows "race_steps (ps @ at_phase (Loaded n) es, st) (ps @ at_phase Counted es, st\<lparr>request_count := n + 1\<rparr>)"
  using assms(2)
proof (induction es arbitrary: ps st)
  case (Cons e es)
  let ?st = "st\<lparr>request_count := n + 1\<rparr>"
  have "race_step (ps @ at_phase (Loaded n) (e # es), st)
      ((ps @ [(Counted, e)]) @ at_phase (Loaded n) es, ?st)"
    using store [of "length ps" "ps @ at_phase (Loaded n) (e # es)" n e st] assms(1)
    by (simp add: at_phase_def)
  also have "race_steps ((ps @ [(Counted, e)]) @ at_phase (Loaded n) es, ?st)
      (ps @ at_phase Counted (e # es), ?st)"
    using Cons.IH [of ?st "ps @ [(Counted, e)]"] by (simp add: at_phase_def)
  finally show ?case .
next
  case Nil
  then show ?case by (cases st) (simp add: at_phase_def)
qed

lemma push_all:
  "race_steps (ps @ at_phase Counted es, st)
     (ps @ at_phase Logged es,
      st\<lparr>handled_requests := fold (\<lambda>e. map_push (fst e) (snd e)) es (handled_requests st)\<rparr>)"
proof (induction es arbitrary: ps st)
  case (Cons e es)
  let ?st = "st\<lparr>handled_requests := map_push (fst e) (snd e) (handled_requests st)\<rparr>"
  have "race_step (ps @ at_phase Counted (e # es), st) ((ps @ [(Logged, e)]) @ at_phase Counted es, ?st)"
    using push [of "length ps" "ps @ at_phase Counted (e # es)" e st]
    by (simp add: at_phase_def)
  also have "race_steps ((ps @ [(Logged, e)]) @ at_phase Counted es, ?st)
      (ps @ at_phase Logged (e # es),
       ?st\<lparr>handled_requests := fold (\<lambda>e. map_push (fst e) (snd e)) es (handled_requests ?st)\<rparr>)"
    using Cons.IH [of "ps @ [(Logged, e)]" ?st] by (simp add: at_phase_def)
  finally show ?case by simp
qed (simp add: at_phase_def)

text \<open>Threads one after the other do what the one-step model of \<^verbatim>\<open>send_response\<close> says.\<close>

lemma one_thread:
  assumes "log_request (fst e) (snd e) st = Inr st'" and "request_count st \<le> int_max"
  shows "race_steps (ps @ at_phase Ready [e] @ rs, st) (ps @ at_phase Logged [e] @ rs, st')"
proof -
  have n: "request_count st < int_max"
    using assms by (auto simp: log_request_def split: if_splits)
  have "race_steps (ps @ (Ready, e) # rs, st) (ps @ (Loaded (request_count st), e) # rs, st)"
    using run_load [of "length ps" "ps @ (Ready, e) # rs" e st] by simp
  also have "race_steps (ps @ (Loaded (request_count st), e) # rs, st)
      (ps @ (Counted, e) # rs, st\<lparr>request_count := request_count st + 1\<rparr>)"
    using run_store [of "length ps" "ps @ (Loaded (request_count st), e) # rs" "request_count st" e st] n by simp
  also have "race_steps (ps @ (Counted, e) # rs, st\<lparr>request_count := request_count st + 1\<rparr>) (ps @ (Logged, e) # rs, st')"
    using run_push [of "length ps" "ps @ (Counted, e) # rs" e "st\<lparr>request_count := request_count st + 1\<rparr>"] n
      assms(1) by (simp add: log_request_def split: if_splits)
  finally show ?thesis by (simp add: at_phase_def)
qed

lemma threads_in_turn:
  assumes "log_all es st = Inr st'" and "request_count st \<le> int_max"
  shows "race_steps (ps @ at_phase Ready es, st) (ps @ at_phase Logged es, st')"
  using assms
proof (induction es arbitrary: ps st)
  case Nil
  then show ?case by (simp add: at_phase_def)
next
  case (Cons e es)
  obtain st1 where one: "log_request (fst e) (snd e) st = Inr st1" and rest: "log_all es st1 = Inr st'"
    using Cons.prems(1) by (auto simp: and_then_eq_Inr)
  then have "request_count st1 \<le> int_max"
    using Cons.prems(2) by (auto simp: log_request_def split: if_splits)
  from Cons.IH [OF rest this, of "ps @ [(Logged, e)]"] one_thread [OF one Cons.prems(2), of ps "at_phase Ready es"]
  show ?case
    by (simp add: at_phase_def)
qed

text \<open>C17: both bounds are met. Threads that take turns count every request, and end in the state of the one-step
model; but for any number of requests there is also an order of the same steps after which the counter has
moved by one, so that with two or more the total of the status page is less than its rows add up to.\<close>

theorem racing_updates_lost:
  assumes "statics_ok st" and "request_count st + length es \<le> int_max" and "es \<noteq> []"
  shows "(\<exists>st'. log_all es st = Inr st' \<and> race_steps (at_phase Ready es, st) (at_phase Logged es, st') \<and>
      request_count st' = request_count st + length es) \<and>
    (\<exists>st'. race_steps (at_phase Ready es, st) (at_phase Logged es, st') \<and>
      request_count st' = request_count st + 1 \<and>
      sum_list (map snd (condense (handled_requests st'))) = request_count st + length es)"
proof -
  let ?log = "fold (\<lambda>e. map_push (fst e) (snd e)) es (handled_requests st)"
  have ok: "map_ok (handled_requests st)" "request_count st = logged_total (handled_requests st)"
    "request_count st \<le> int_max"
    using assms(1) by (simp_all add: statics_ok_def)
  have turns: "log_all es st = Inr (st\<lparr>request_count := request_count st + length es, handled_requests := ?log\<rparr>)"
    using log_all_result [OF ok(3), of es] assms(2) by simp
  have "request_count st < int_max"
    using assms(2,3) by (cases es) auto
  then have "race_steps (at_phase Ready es, st)
      (at_phase Logged es, st\<lparr>request_count := request_count st + 1, handled_requests := ?log\<rparr>)"
    using rtranclp_trans [OF rtranclp_trans [OF load_all [of "[]"] store_all [of _ _ _ "[]"]] push_all [of "[]"]]
      assms(3) by simp
  moreover have "sum_list (map snd (condense ?log)) = request_count st + length es"
    using arg_cong [OF logged_keys_pushes [OF ok(1), of es], of size] ok(2)
    by (simp add: condense_sum length_logged_keys logged_total_def)
  ultimately show ?thesis
    using turns threads_in_turn [OF turns ok(3), of "[]"] by auto
qed

lemma racing_updates_lost_witness:
  "\<exists>st'. race_steps (at_phase Ready [(''/a'', 200), (''/b'', 200)], no_requests)
      (at_phase Logged [(''/a'', 200), (''/b'', 200)], st') \<and>
    request_count st' = 1 \<and> sum_list (map snd (condense (handled_requests st'))) = 2"
proof -
  have "statics_ok no_requests"
    by (simp add: statics_ok_def no_requests_def std.ok_empty logged_total_def)
  from racing_updates_lost [OF this, of "[(''/a'', 200), (''/b'', 200)]"] show ?thesis
    by (auto simp: no_requests_def int_max_def)
qed


end
