(* ===== verification/Spec2Isabelle.thy ===== *)
theory Spec2Isabelle
  imports Layout Races
begin

text \<open>
  A verification development for the C++ web server of this repository: the configuration parser, the
  dispatcher, the request handlers, the sessions and the server with its two programs.

  \<^bold>\<open>The program.\<close> \<^verbatim>\<open>server_main.cc\<close> parses a configuration file (\<^verbatim>\<open>config_parser.cc\<close>), reads two ports
  from it and builds two servers (\<^verbatim>\<open>server.cc\<close>), one for plain and one for TLS connections. Each builds a
  \<^verbatim>\<open>Dispatcher\<close> (\<^verbatim>\<open>dispatcher.cc\<close>) from the location statements, accepts connections and makes a
  \<^verbatim>\<open>session\<close> (\<^verbatim>\<open>session.cc\<close>) of each. A session reads until an empty line, parses the request, lets the
  dispatcher find the handler with the longest matching prefix, calls it, counts and logs the response in
  static members that the status page prints, and writes the response.

  \<^bold>\<open>Theories.\<close>
  \<^item> \<open>Prelude\<close>: faults (undefined behaviour and exceptions) and results, shared lemmas.
  \<^item> \<open>Cpp_String\<close>, \<open>Std_Map\<close>: the members of \<^verbatim>\<open>std::string\<close> and \<^verbatim>\<open>std::map\<close> the sources use. The map
    interface is the locale \<open>ordered_map\<close> with its extensions \<open>counting_map\<close> and \<open>log_map\<close>, interpreted
    on sorted association lists.
  \<^item> \<open>Config\<close>, \<open>Lexer\<close>, \<open>Parser\<close>: \<^verbatim>\<open>NginxConfig\<close> and its printer, \<^verbatim>\<open>ParseToken\<close> (one definition per case
    of the switch, over a stream with \<^verbatim>\<open>get\<close> and \<^verbatim>\<open>unget\<close>), \<^verbatim>\<open>Parse\<close> with its stacks. Pointers to blocks
    are access paths. The parser uses the scanner through the locale \<open>token_source\<close>.
  \<^item> \<open>Grammar\<close>: the grammar of the configuration language, and the proof that \<^verbatim>\<open>Parse\<close> accepts it and
    builds its trees (a simulation by a tree with a hole). \<open>Roundtrip\<close>: printing and parsing. \<open>Layout\<close>: the
    texts of one configuration, with blanks, comments and quotes wherever the language has room for them.
  \<^item> \<open>Config_Query\<close>: \<^verbatim>\<open>GetPortNumber\<close> (a 16-bit out-parameter) and \<^verbatim>\<open>GetKeyPath\<close>.
  \<^item> \<open>Http\<close>: requests, responses, and the records of parameters \<open>beast\<close> (the HTTP library) and \<open>world\<close>
    (file system and network). \<open>Handlers\<close>: the fixed pages, \<^verbatim>\<open>EchoHandler\<close>, \<^verbatim>\<open>FileHandler\<close>. \<open>Proxy\<close>:
    \<^verbatim>\<open>ProxyHandler\<close>, whose redirections recur without a bound, so that it is a partial function.
  \<^item> \<open>Dispatcher\<close>: the table of handlers, the table of their names, and the longest-prefix loop, which
    \<^verbatim>\<open>dispatcher.cc\<close> and \<^verbatim>\<open>session.cc\<close> both have; the locale \<open>prefix_match\<close> is interpreted on each.
  \<^item> \<open>Logger\<close>: the logging core and what each \<^verbatim>\<open>Logger\<close> adds to it. \<open>Status\<close>: the static members and \<^verbatim>\<open>StatusHandler\<close>. \<open>Session\<close>: the buffer, the handlers of a session,
    and what the I/O service reports to it. \<open>Server\<close>: accepting, constructors, \<^verbatim>\<open>main\<close>, and the process
    as a step relation over callbacks in any order.
  \<^item> \<open>Lifecycle\<close>: the sessions inside the running process; the locale \<open>session_invariant\<close> lifts a predicate that
    the handlers of a session keep to all reachable states. \<open>Isolation\<close>: schedules of callbacks, and what
    their order can change. \<open>Races\<close>: the steps inside the two statements that log a request, in the threads
    that run the I/O service.
  \<^item> This theory: the faults a request can end in, across dispatcher, handlers and session.

  \<^bold>\<open>What the lemmas show.\<close> \<open>Grammar\<close> and \<open>Roundtrip\<close>: acceptance, totality and safety of the parser, and
  its agreement with the printer. \<open>Config_Query\<close>: all results of the two searches. \<open>Handlers\<close>, \<open>Proxy\<close>,
  \<open>Status\<close>: what the handlers answer. \<open>Dispatcher\<close>: the first registration of a path
  wins, the longest prefix is found, when there is none. \<open>Session\<close>: requests may arrive in pieces, the
  log, the limits of the buffer. \<open>Server\<close>: the invariant of all reachable states and what follows from it.
  \<open>Lifecycle\<close>: a request that comes in is served, sessions keep their type and follow their life cycle.
  \<open>Isolation\<close>: sessions do not influence each other but through the status page. \<open>Races\<close>: the bounds of the
  counter when threads log at once, and that both are met.

  \<^bold>\<open>Fuel and bounds.\<close> No fuel is used: the scanner, the parser loop and the loops on strings recur on
  measures, and the one unbounded recursion (\<^verbatim>\<open>issue_outside_request\<close>) has the value \<open>None\<close> when it does
  not return. The buffer has its 1024000 bytes, the port 16 bits, \<^verbatim>\<open>int\<close> counters overflow at \<open>int_max\<close>.

  \<^bold>\<open>Hypotheses.\<close> \<open>beast_ok\<close> and \<open>targets_ok\<close> state documented behaviour of the HTTP library; witnesses
  instantiate them with \<open>plain_beast\<close>.

  \<^bold>\<open>Not modelled.\<close> The text of trace output; the bytes of TLS and HTTP (parameters); the time handlers
  take, except that the sleep handler's pause is recorded; threads below the level of a callback, but for
  the logging of a request: in the process each callback is one step, and \<open>Races\<close> looks at the increment of
  \<^verbatim>\<open>request_count\<close>, which the sources do not lock, in smaller ones (that the map is not locked either it leaves
  aside); the unit tests under \<^verbatim>\<open>src/tests\<close>. The constructor leaves \<^verbatim>\<open>data_\<close> unset until the first read clears it; the model starts it empty.
\<close>

section \<open>Faults of a routed request\<close>

lemma proxy_loop_prefix: "proxy_loop ss h = Inr h' \<Longrightarrow> ph_prefix h' = ph_prefix h"
proof (induction ss arbitrary: h)
  case (Cons s ss)
  then obtain h1 where "proxy_step s h = Inr h1" "proxy_loop ss h1 = Inr h'"
    by (auto simp: and_then_eq_Inr)
  moreover from this(1) have "ph_prefix h1 = ph_prefix h"
    by (auto simp: proxy_step_def and_then_eq_Inr split: list.splits if_splits)
  ultimately show ?case using Cons.IH by simp
qed simp

lemma make_proxy: "make_handler ty k c = Some (ProxyHandler h) \<Longrightarrow> ph_prefix h = k"
  using proxy_loop_prefix
  by (fastforce simp: make_handler_def built_def ProxyHandler_ctor_def split: if_splits sum.splits)

lemma registered_proxy: "map_of (registrations ss) k = Some (ProxyHandler h) \<Longrightarrow> ph_prefix h = k"
proof (induction ss)
  case (Cons s ss)
  have "ph_prefix h' = k'" if "location_entry s = Some (k', ProxyHandler h')" for k' h'
    using that make_proxy by (auto simp: location_entry_def split: list.splits option.splits if_splits)
  with Cons show ?case by (auto split: option.splits if_splits)
qed simp

lemma file_fault: "File_handle_request b w h req \<noteq> Inl e"
  by (auto simp: File_handle_request_def Let_def substr_def split: verb.splits option.splits
      dest!: str_find_Some_bound)

lemma request_row_fault: "request_row it = Inl e \<Longrightarrow> e = OutOfBounds"
  by (auto simp: request_row_def Let_def and_then_eq_Inl token_at_def split: if_splits)

lemma request_rows_fault: "request_rows its info = Inl e \<Longrightarrow> e = OutOfBounds"
  by (induction its arbitrary: info) (auto simp: and_then_eq_Inl request_row_fault)

lemma handler_fault:
  assumes "handle_request b w st h req = Some (Inl e)"
    and "\<And>p. h = ProxyHandler p \<Longrightarrow> length (ph_prefix p) \<le> length (target req)"
  shows "e = OutOfBounds"
proof (cases h)
  case (ProxyHandler p)
  then show ?thesis using proxy_fault assms by simp
qed (use assms(1) in \<open>auto simp: file_fault Echo_handle_request_def c_string_def Status_handle_request_def
       and_then_eq_Inl Let_def split: if_splits dest: request_rows_fault\<close>)

text \<open>C21: a request whose target starts with a slash, sent to a dispatcher built from any configuration,
never meets a null handler and never throws \<open>std::out_of_range\<close> from the prefix the proxy handler cuts
off: what can go wrong is a read outside a buffer, the overflow of the counter and a peer that has gone.\<close>

theorem routed_request_faults:
  assumes "Dispatcher_ctor c info0 = Inr (d, info)" and "map_ok info0"
    and "c_data (data s) = Inr t" and "parse_request b t = Some req" and "target req = CHR ''/'' # rest"
    and "send_response b w d peer (s, st) = Some (Inl e)"
  shows "e \<in> {OutOfBounds, SignedOverflow, ThrowSystemError}"
proof -
  obtain k h where h: "get_request_handler d (target req) = Some h" "map_of (handlers d) k = Some h"
    "prefix k (pop_slashes (target req))"
    using get_request_handler_slash [OF assms(1,2,5)] by blast
  have "prefix k (target req)"
    using h(3) pop_slashes_prefix prefix_order.trans by blast
  moreover have "ph_prefix p = k" if "h = ProxyHandler p" for p
    using h(2) that registered_proxy [of "statements c" k p] Dispatcher_ctor_ok(4) [OF assms(1,2)]
    by (auto split: if_splits)
  ultimately have small: "length (ph_prefix p) \<le> length (target req)" if "h = ProxyHandler p" for p
    using that prefix_length_le by blast
  have "handle_request b w st h req = Some (Inl e) \<or>
      (\<exists>r. log_request (target req) (result_int r) st = Inl e \<or> write_response peer (s\<lparr>buffer := r\<rparr>) = Inl e)"
    using assms(3,4,6) h(1) by (auto simp: send_response_def and_then_eq_Inl)
  then show ?thesis
    using handler_fault [OF _ small] by (auto simp: log_request_def write_response_def split: if_splits)
qed

lemma routed_request_faults_witness:
  "send_response plain_beast sample_world sample_dispatcher False
     (sample_session\<lparr>data := ''GET /zz HTTP/1.1''\<rparr>, no_requests) = Some (Inl ThrowSystemError) \<and>
   ThrowSystemError \<in> {OutOfBounds, SignedOverflow, ThrowSystemError}"
proof
  let ?s = "sample_session\<lparr>data := ''GET /zz HTTP/1.1''\<rparr>"
  have plain: "c_data (data ?s) = Inr ''GET /zz HTTP/1.1''"
    by (simp add: c_data_def max_length_def)
  have req: "parse_request plain_beast ''GET /zz HTTP/1.1'' = Some (sample_get ''/zz'')"
    by (simp add: plain_beast_def sample_get_def)
  have "get_request_handler sample_dispatcher ''/zz'' = Some NotFoundHandler"
    by (simp add: get_request_handler_def sample_dispatcher_def match_step_def pop_slashes_fixed)
  then show send: "send_response plain_beast sample_world sample_dispatcher False (?s, no_requests) =
      Some (Inl ThrowSystemError)"
    using req by (simp add: send_response_def c_data_def max_length_def sample_get_def log_request_def
        no_requests_def int_max_def write_response_def)
  show "ThrowSystemError \<in> {OutOfBounds, SignedOverflow, ThrowSystemError}"
    by (rule routed_request_faults [OF sample_ctor std.ok_empty plain req _ send]) (simp add: sample_get_def)
qed

section \<open>Targets that are no paths\<close>

lemma registrations_keys:
  assumes "\<forall>s \<in> set ss. \<forall>path ty ts. tokens s = ''location'' # path # ty # ts \<longrightarrow> prefix ''/'' path"
    and "map_of (registrations ss) k = Some h"
  shows "prefix ''/'' k"
  using assms
proof (induction ss)
  case (Cons s ss)
  have "prefix ''/'' k'" if e: "location_entry s = Some (k', h')" for k' h'
  proof -
    obtain path ty ts where "tokens s = ''location'' # path # ty # ts" "k' = pop_slashes path"
      using e by (auto simp: location_entry_def split: list.splits option.splits if_splits)
    then have "prefix ''/'' path" "k' = pop_slashes path" using Cons.prems(1) by auto
    then show ?thesis
      using hd_pop_slashes [of path] pop_slashes_eq_Nil [of path] by (cases path; cases "pop_slashes path") auto
  qed
  with Cons show ?case by (auto split: option.splits if_splits)
qed simp

text \<open>C40: when all locations of the configuration start with a slash, a well-formed request whose target
does not (\<open>OPTIONS *\<close>, or an absolute URL as sent to a proxy) makes the session call a member of a null
handler.\<close>

theorem pathless_request_faults:
  assumes "Dispatcher_ctor c info0 = Inr (d, info)" and "map_ok info0"
    and "\<forall>s \<in> set (statements c). \<forall>path ty ts.
      tokens s = ''location'' # path # ty # ts \<longrightarrow> prefix ''/'' path"
    and "c_data (data s) = Inr t" and "parse_request b t = Some req" and "\<not> prefix ''/'' (target req)"
  shows "send_response b w d peer (s, st) = Some (Inl NullDereference)"
proof -
  have "prefix ''/'' k" if "k \<in> dom (map_of (handlers d))" for k
    using that registrations_keys [OF assms(3), of k] Dispatcher_ctor_ok(4) [OF assms(1,2)]
    by (auto split: if_splits)
  moreover have "\<not> prefix ''/'' (pop_slashes (target req))"
    using assms(6) pop_slashes_prefix prefix_order.trans by blast
  ultimately have "get_request_handler d (target req) = None"
    using get_request_handler_None [OF assms(1,2)] prefix_order.trans by blast
  then show ?thesis using unrouted_request_faults assms(4,5) by blast
qed

text \<open>A library whose parser reads the asterisk form of a target.\<close>

definition star_beast :: beast where
  "star_beast = plain_beast\<lparr>parse_request := (\<lambda>t. Some \<lparr>verb = Verb_other, method_string = ''OPTIONS'',
     target = ''*'', version = 11, req_header = []\<rparr>)\<rparr>"

lemma pathless_request_faults_witness:
  "send_response star_beast sample_world sample_dispatcher True
     (sample_session\<lparr>data := ''OPTIONS * HTTP/1.1''\<rparr>, no_requests) = Some (Inl NullDereference)"
  by (rule pathless_request_faults [OF sample_ctor std.ok_empty])
     (auto simp: c_data_def max_length_def star_beast_def sample_config_def)

section \<open>The configuration printer\<close>

text \<open>\<^verbatim>\<open>config_parser\<close> run on a file with its own output for a configuration of plain or single-quoted
tokens exits with 0 and prints that text again.\<close>

theorem config_parser_reprints:
  assumes "printable c" and "fs file = Some (ToString 0 c)"
  shows "\<exists>out. config_parser_main fs [prog, file] = Inr (0, out @ [ToString 0 c])"
  using ToString_Parse [OF assms(1)] assms(2)
  by (auto simp: config_parser_main_def Parse_file_def)

lemma config_parser_reprints_witness:
  "\<exists>out. config_parser_main
     (\<lambda>f. Some (ToString 0 (Config [Statement [''listen'', ''80''] (Some (Config []))]))) [''config_parser'', ''f''] =
   Inr (0, out @ [ToString 0 (Config [Statement [''listen'', ''80''] (Some (Config []))])])"
  by (rule config_parser_reprints)
     (simp_all add: printable_token_def plain_token_def word_start_def word_char_def is_separator_def is_blank_def)

end
